(* ===== verification/EauPrelude.thy ===== *)
theory EauPrelude
  imports Main "HOL-Library.Word"
begin

text \<open>
  The vocabulary every component of the eau2 model shares: the machine types of the
  target (gcc on x86-64: little-endian, 8-bit bytes, 32-bit \<open>int\<close>, 64-bit \<open>size_t\<close>),
  the ways a C++ operation can fail, the fault monad, and loops whose body can fault.

  A C++ function is total in the model: an exception, an \<open>assert\<close> that fails (the
  Makefile builds with \<open>-O3\<close> and without \<open>NDEBUG\<close>, so \<open>assert\<close> is live) and a step
  whose behaviour the standard leaves undefined are the values \<open>Throw\<close>, \<open>Abort\<close> and
  \<open>Undefined\<close> of the left summand of \<open>'a res\<close>.
\<close>

section \<open>Machine types\<close>

type_synonym u8 = "8 word"
type_synonym u16 = "16 word"
type_synonym u32 = "32 word"
type_synonym u64 = "64 word"
type_synonym i32 = "32 word"   \<comment> \<open>\<open>int\<close>, read with \<open>sint\<close>\<close>
type_synonym f64 = "64 word"   \<comment> \<open>\<open>double\<close>, as its IEEE 754 bit pattern\<close>
type_synonym bytes = "u8 list" \<comment> \<open>\<open>std::vector<uint8_t>\<close>\<close>

text \<open>Conversions that lose nothing.\<close>

lemma unat_u64: "n < 2 ^ 64 \<Longrightarrow> unat (word_of_nat n :: u64) = n"
  by (simp add: unat_of_nat)

lemma u64_less:
  "a < 2 ^ 64 \<Longrightarrow> b < 2 ^ 64 \<Longrightarrow> (word_of_nat a :: u64) < word_of_nat b \<longleftrightarrow> a < b"
  by (simp add: word_less_nat_alt unat_u64)

lemma ucast_u64_i32: "(ucast (word_of_nat k :: u64) :: i32) = word_of_nat k"
  by (rule bit_word_eqI) (simp add: bit_simps)

lemma sint_i32: "k < 2 ^ 31 \<Longrightarrow> sint (word_of_nat k :: i32) = int k"
  by (simp add: signed_of_nat signed_take_bit_int_eq_self)

section \<open>Faults\<close>

datatype cxx_exn = ShortSerializedData | BadVariantAccess | OutOfRange | InvalidArgument | SystemError

datatype ub = NulloptDeref | NullPointer | OutOfBounds | DanglingIterator | PureVirtualCall

datatype fault = Throw cxx_exn | Abort | Undefined ub | Blocked

type_synonym 'a res = "fault + 'a"

text \<open>
  \<open>Blocked\<close> is no failure: a loop is still waiting for its environment when the events the
  model was given are used up.

  Sequencing: the first fault ends the computation, as an exception or an abort does.
\<close>

definition ebind :: "'a res \<Rightarrow> ('a \<Rightarrow> 'b res) \<Rightarrow> 'b res" where
  "ebind m f = (case m of Inl e \<Rightarrow> Inl e | Inr x \<Rightarrow> f x)"

definition emap :: "('a \<Rightarrow> 'b) \<Rightarrow> 'a res \<Rightarrow> 'b res" where
  "emap f m = ebind m (\<lambda>x. Inr (f x))"

definition is_ub :: "'a res \<Rightarrow> bool" where
  "is_ub m = (case m of Inl (Undefined u) \<Rightarrow> True | _ \<Rightarrow> False)"

named_theorems fault_simps \<open>equations that push evaluation through the fault monad\<close>

lemma ebind_simps [simp, fault_simps]:
  "ebind (Inl e) f = Inl e"
  "ebind (Inr x) f = f x"
  by (simp_all add: ebind_def)

lemma emap_simps [simp, fault_simps]:
  "emap f (Inl e) = Inl e"
  "emap f (Inr x) = Inr (f x)"
  by (simp_all add: emap_def)

lemma is_ub_simps [simp]:
  "is_ub (Inl (Undefined u))"
  "\<not> is_ub (Inl (Throw x))"
  "\<not> is_ub (Inl Abort)"
  "\<not> is_ub (Inl Blocked)"
  "\<not> is_ub (Inr y)"
  by (simp_all add: is_ub_def)

lemma ebind_cong [fundef_cong]:
  "m = m' \<Longrightarrow> (\<And>x. m' = Inr x \<Longrightarrow> f x = g x) \<Longrightarrow> ebind m f = ebind m' g"
  by (cases m') simp_all

lemma ebind_assoc: "ebind (ebind m f) g = ebind m (\<lambda>x. ebind (f x) g)"
  by (cases m) simp_all

lemma ebind_Inr_right [simp]: "ebind m Inr = m"
  by (cases m) simp_all

lemma ebind_eq_Inr: "ebind m f = Inr y \<longleftrightarrow> (\<exists>x. m = Inr x \<and> f x = Inr y)"
  by (cases m) simp_all

lemma emap_eq_Inr: "emap f m = Inr y \<longleftrightarrow> (\<exists>x. m = Inr x \<and> y = f x)"
  by (cases m) auto

lemma is_ub_ebind: "is_ub (ebind m f) \<longleftrightarrow> is_ub m \<or> (\<exists>x. m = Inr x \<and> is_ub (f x))"
  by (cases m) (auto simp: is_ub_def)

lemma is_ub_emap [simp]: "is_ub (emap f m) = is_ub m"
  by (cases m) (auto simp: is_ub_def)

section \<open>Loops whose body can fault\<close>

text \<open>\<open>efold f xs s\<close> is \<open>for(x : xs) s = f(x, s)\<close>, stopping at the first fault.\<close>

fun efold :: "('a \<Rightarrow> 's \<Rightarrow> 's res) \<Rightarrow> 'a list \<Rightarrow> 's \<Rightarrow> 's res" where
  "efold f [] s = Inr s"
| "efold f (x # xs) s = ebind (f x s) (efold f xs)"

lemma efold_append: "efold f (xs @ ys) s = ebind (efold f xs s) (efold f ys)"
  by (induction xs arbitrary: s) (simp_all add: ebind_def split: sum.split)

lemma efold_total:
  assumes "\<And>x s. x \<in> set xs \<Longrightarrow> f x s = Inr (g x s)"
  shows "efold f xs s = Inr (fold g xs s)"
  using assms by (induction xs arbitrary: s) simp_all

lemma efold_cong:
  assumes "\<And>x s. x \<in> set xs \<Longrightarrow> f x s = g x s"
  shows "efold f xs s = efold g xs s"
proof -
  have "efold f xs s = efold g xs s" if "\<forall>x\<in>set xs. \<forall>s. f x s = g x s" for s
    using that
  proof (induction xs arbitrary: s)
    case (Cons x xs)
    then show ?case by (cases "g x s") simp_all
  qed simp
  with assms show ?thesis by blast
qed

lemma efold_invariant:
  assumes "efold f xs s = Inr t" and "I s"
    and "\<And>x s s'. x \<in> set xs \<Longrightarrow> I s \<Longrightarrow> f x s = Inr s' \<Longrightarrow> I s'"
  shows "I t"
  using assms by (induction xs arbitrary: s) (auto simp: ebind_eq_Inr)

lemma efold_map: "efold f (map g xs) s = efold (\<lambda>x. f (g x)) xs s"
  by (induction xs arbitrary: s) (simp_all add: ebind_def split: sum.split)

text \<open>
  A loop over \<open>0, ..., n - 1\<close> whose \<open>i\<close>-th round replaces element \<open>i\<close> of a list inside the
  state (\<open>wrap\<close> puts the list back) computes all the replacements.
\<close>

lemma efold_list_update:
  assumes step: "\<And>i ys. i < n \<Longrightarrow> length ys = n \<Longrightarrow> (\<forall>j. i \<le> j \<and> j < n \<longrightarrow> ys ! j = xs ! j)
      \<Longrightarrow> f i (wrap ys) = Inr (wrap (ys[i := h i]))"
    and len: "length xs = n"
  shows "efold f [0..<n] (wrap xs) = Inr (wrap (map h [0..<n]))"
proof -
  have "efold f [0..<k] (wrap xs) = Inr (wrap (map h [0..<k] @ drop k xs))" if "k \<le> n" for k
    using that
  proof (induction k)
    case (Suc k)
    then have "f k (wrap (map h [0..<k] @ drop k xs)) =
        Inr (wrap ((map h [0..<k] @ drop k xs)[k := h k]))"
      using len by (intro step) (auto simp: nth_append)
    moreover have "(map h [0..<k] @ drop k xs)[k := h k] = map h [0..<Suc k] @ drop (Suc k) xs"
      using Suc.prems len Cons_nth_drop_Suc [of k xs, symmetric]
      by (simp add: list_update_append)
    ultimately show ?case using Suc by (simp add: efold_append)
  qed simp
  from this [of n] show ?thesis using len by simp
qed

text \<open>A loop over the indices of a list that reads the element is a loop over the list.\<close>

lemma efold_nth: "efold (\<lambda>i. f (xs ! i)) [0..<length xs] s = efold f xs s"
proof -
  have "efold (\<lambda>i. f (xs ! i)) [0..<length xs] s = efold f (map (nth xs) [0..<length xs]) s"
    by (simp add: efold_map)
  then show ?thesis by (simp add: map_nth)
qed

text \<open>
  \<open>emapM f xs\<close> evaluates \<open>f\<close> at every element, left to right, and collects the results.
\<close>

fun emapM :: "('a \<Rightarrow> 'b res) \<Rightarrow> 'a list \<Rightarrow> 'b list res" where
  "emapM f [] = Inr []"
| "emapM f (x # xs) = ebind (f x) (\<lambda>y. emap (Cons y) (emapM f xs))"

lemma emapM_total:
  assumes "\<And>x. x \<in> set xs \<Longrightarrow> f x = Inr (g x)"
  shows "emapM f xs = Inr (map g xs)"
  using assms by (induction xs) simp_all

section \<open>Lists\<close>

lemma take_at_append [simp]: "take (length ys) (drop (length xs) (xs @ ys @ zs)) = ys"
  by simp

lemma drop_eq_append_conv:
  assumes "drop n xs = ys @ zs" and "n \<le> length xs"
  shows "xs = take n xs @ ys @ zs" and "drop (n + length ys) xs = zs"
    and "n + length ys \<le> length xs"
proof -
  show eq: "xs = take n xs @ ys @ zs"
    using assms(1) append_take_drop_id [of n xs] by simp
  from assms(1) have "drop (length ys) (drop n xs) = zs" by simp
  then show "drop (n + length ys) xs = zs" by (simp add: add.commute)
  have "length (drop n xs) = length ys + length zs" using assms(1) by simp
  then show "n + length ys \<le> length xs" using assms(2) by simp
qed

lemma upt_append:
  assumes "i \<le> j" and "j \<le> k"
  shows "[i..<j] @ [j..<k] = [i..<k]"
  using upt_add_eq_append [of i j "k - j"] assms by simp

lemma nth_at_append [simp]: "(xs @ y # ys) ! length xs = y"
  by (simp add: nth_append)

section \<open>Vectors\<close>

text \<open>
  \<open>vec_at\<close> is \<open>operator[]\<close> on a \<open>std::vector\<close> or \<open>std::string\<close>: no bounds check, so an
  index out of range is undefined behaviour. \<open>vec_put\<close> assigns through it.
\<close>

definition vec_at :: "'a list \<Rightarrow> nat \<Rightarrow> 'a res" where
  "vec_at xs i = (if i < length xs then Inr (xs ! i) else Inl (Undefined OutOfBounds))"

definition vec_put :: "'a list \<Rightarrow> nat \<Rightarrow> 'a \<Rightarrow> 'a list res" where
  "vec_put xs i x = (if i < length xs then Inr (xs[i := x]) else Inl (Undefined OutOfBounds))"

lemma vec_at_in [simp]: "i < length xs \<Longrightarrow> vec_at xs i = Inr (xs ! i)"
  by (simp add: vec_at_def)

lemma vec_put_in [simp]: "i < length xs \<Longrightarrow> vec_put xs i x = Inr (xs[i := x])"
  by (simp add: vec_put_def)

text \<open>\<open>std::vector::erase(begin() + i)\<close>.\<close>

definition erase_at :: "nat \<Rightarrow> 'a list \<Rightarrow> 'a list" where
  "erase_at i xs = take i xs @ drop (Suc i) xs"

lemma length_erase_at: "i < length xs \<Longrightarrow> length (erase_at i xs) = length xs - 1"
  by (simp add: erase_at_def)

lemma map_erase_at: "map f (erase_at i xs) = erase_at i (map f xs)"
  by (simp add: erase_at_def take_map drop_map)

end
