(* ===== verification/Serializable.thy ===== *)
theory Serializable
  imports EauPrelude
begin

unbundle bit_operations_syntax

text \<open>
  \<open>include/util/serializable.h\<close>: the object representation of primitive values, the
  encodings of \<open>std::string\<close> and \<open>std::vector<bool>\<close>, and the contract every
  serializable type of the system promises (locales \<open>codec\<close> and \<open>framed_codec\<close>).

  Sizes and positions are \<open>nat\<close>: a \<open>std::vector\<close> holds at most \<open>PTRDIFF_MAX\<close> elements,
  so no sum of a position and a byte count in this file reaches \<open>2 ^ 64\<close>.
\<close>

section \<open>Value initialisation\<close>

text \<open>\<open>T{}\<close> for the element types the system stores: 0, \<open>false\<close> and the empty string.\<close>

instantiation word :: (len) default
begin
definition default_word :: "'a word" where "default_word = 0"
instance ..
end

instantiation bool :: default
begin
definition default_bool :: bool where "default_bool = False"
instance ..
end

instantiation list :: (type) default
begin
definition default_list :: "'a list" where "default_list = []"
instance ..
end

lemmas default_simps [simp] = default_word_def default_bool_def default_list_def

section \<open>Primitive values\<close>

text \<open>\<open>le_bytes k n\<close>: the \<open>k\<close>-byte little-endian object representation of \<open>n\<close>.\<close>

primrec le_bytes :: "nat \<Rightarrow> nat \<Rightarrow> bytes" where
  "le_bytes 0 n = []"
| "le_bytes (Suc k) n = word_of_nat (n mod 256) # le_bytes k (n div 256)"

primrec le_value :: "bytes \<Rightarrow> nat" where
  "le_value [] = 0"
| "le_value (b # bs) = unat b + 256 * le_value bs"

definition deserialize_prim :: "nat \<Rightarrow> bytes \<Rightarrow> nat \<Rightarrow> (nat \<times> nat) res" where
  "deserialize_prim k data pos =
     (if pos > length data \<or> length data - pos < k then Inl (Throw ShortSerializedData)
      else Inr (le_value (take k (drop pos data)), pos + k))"

definition serialize_size :: "nat \<Rightarrow> bytes" where
  "serialize_size n = le_bytes 8 n"

definition deserialize_size :: "bytes \<Rightarrow> nat \<Rightarrow> (nat \<times> nat) res" where
  "deserialize_size data pos = deserialize_prim 8 data pos"

definition serialize_int :: "i32 \<Rightarrow> bytes" where
  "serialize_int w = le_bytes 4 (unat w)"

definition deserialize_int :: "bytes \<Rightarrow> nat \<Rightarrow> (i32 \<times> nat) res" where
  "deserialize_int data pos = emap (map_prod word_of_nat id) (deserialize_prim 4 data pos)"

definition serialize_double :: "f64 \<Rightarrow> bytes" where
  "serialize_double w = le_bytes 8 (unat w)"

definition deserialize_double :: "bytes \<Rightarrow> nat \<Rightarrow> (f64 \<times> nat) res" where
  "deserialize_double data pos = emap (map_prod word_of_nat id) (deserialize_prim 8 data pos)"

definition serialize_char :: "char \<Rightarrow> bytes" where
  "serialize_char c = le_bytes 1 (of_char c)"

definition deserialize_char :: "bytes \<Rightarrow> nat \<Rightarrow> (char \<times> nat) res" where
  "deserialize_char data pos = emap (map_prod char_of id) (deserialize_prim 1 data pos)"

lemma length_le_bytes [simp]: "length (le_bytes k n) = k"
  by (induction k arbitrary: n) simp_all

lemma le_value_le_bytes: "n < 256 ^ k \<Longrightarrow> le_value (le_bytes k n) = n"
proof (induction k arbitrary: n)
  case (Suc k)
  then have "n div 256 < 256 ^ k" by (simp add: less_mult_imp_div_less mult.commute)
  then have "le_value (le_bytes k (n div 256)) = n div 256" by (rule Suc.IH)
  moreover have "unat (word_of_nat (n mod 256) :: u8) = n mod 256" by (simp add: unat_of_nat)
  ultimately show ?case by simp
qed simp

lemma le_value_bound: "le_value bs < 256 ^ length bs"
proof (induction bs)
  case (Cons b bs)
  have "unat b < 256" using unsigned_less [of b] by simp
  with Cons show ?case by simp
qed simp

lemma deserialize_prim_at:
  assumes "n < 256 ^ k"
  shows "deserialize_prim k (pre @ le_bytes k n @ suf) (length pre) = Inr (n, length pre + k)"
  using assms by (simp add: deserialize_prim_def le_value_le_bytes)

lemma deserialize_prim_bounds:
  "deserialize_prim k data pos = Inr (x, pos') \<Longrightarrow> pos' = pos + k \<and> pos' \<le> length data"
  by (auto simp: deserialize_prim_def split: if_splits)

lemma deserialize_prim_no_ub: "\<not> is_ub (deserialize_prim k data pos)"
  by (simp add: deserialize_prim_def)

section \<open>The contract of a serializable type\<close>

text \<open>
  \<open>read_n n f\<close> is the loop \<open>for(i = 0; i < n; ++i) out.push_back(f(data, pos))\<close> that
  deserializes \<open>n\<close> elements one after the other.
\<close>

primrec read_n :: "nat \<Rightarrow> (nat \<Rightarrow> ('a \<times> nat) res) \<Rightarrow> nat \<Rightarrow> ('a list \<times> nat) res" where
  "read_n 0 f pos = Inr ([], pos)"
| "read_n (Suc n) f pos =
     ebind (f pos) (\<lambda>(x, p). emap (\<lambda>(xs, q). (x # xs, q)) (read_n n f p))"

text \<open>
  Every type promises that \<open>deserialize\<close> started where \<open>serialize\<close> wrote returns the
  value and moves \<open>pos\<close> past it, whatever surrounds it in the buffer.
\<close>

locale codec =
  fixes ser :: "'a \<Rightarrow> bytes"
    and des :: "bytes \<Rightarrow> nat \<Rightarrow> ('a \<times> nat) res"
    and ok :: "'a \<Rightarrow> bool"
  assumes roundtrip:
    "ok x \<Longrightarrow> des (pre @ ser x @ suf) (length pre) = Inr (x, length pre + length (ser x))"
begin

lemma roundtrip_at:
  assumes "ok x" and "drop pos data = ser x @ suf" and "pos \<le> length data"
  shows "des data pos = Inr (x, pos + length (ser x))"
proof -
  have "data = take pos data @ ser x @ suf"
    using assms(2,3) by (rule drop_eq_append_conv(1))
  with roundtrip [OF assms(1), of "take pos data" suf] assms(3) show ?thesis
    by (simp add: min_absorb2)
qed

lemma roundtrip_front: "ok x \<Longrightarrow> des (ser x @ suf) 0 = Inr (x, length (ser x))"
  using roundtrip [of x "[]" suf] by simp

lemma read_n_roundtrip:
  assumes "list_all ok xs"
  shows "read_n (length xs) (des (pre @ concat (map ser xs) @ suf)) (length pre) =
     Inr (xs, length pre + length (concat (map ser xs)))"
  using assms
proof (induction xs arbitrary: pre)
  case (Cons x xs)
  have "des (pre @ ser x @ concat (map ser xs) @ suf) (length pre) =
      Inr (x, length pre + length (ser x))"
    using Cons.prems by (intro roundtrip) simp
  moreover have "read_n (length xs) (des ((pre @ ser x) @ concat (map ser xs) @ suf))
      (length (pre @ ser x)) = Inr (xs, length (pre @ ser x) + length (concat (map ser xs)))"
    using Cons.prems by (intro Cons.IH) simp
  ultimately show ?case by simp
qed simp

lemma prefix_free:
  assumes "ok x" and "ok y" and "ser x @ s = ser y @ t"
  shows "x = y \<and> s = t"
proof -
  have "Inr (x, length (ser x)) = (Inr (y, length (ser y)) :: ('a \<times> nat) res)"
    using roundtrip_front [OF assms(1), of s] roundtrip_front [OF assms(2), of t] assms(3)
    by simp
  with assms(3) show ?thesis by simp
qed

end

text \<open>
  A framed codec also promises that a decoder never runs past the buffer and that no
  input, however malformed, takes it into undefined behaviour.
\<close>

locale framed_codec = codec +
  assumes in_bounds: "des data pos = Inr (x, pos') \<Longrightarrow> pos \<le> pos' \<and> pos' \<le> length data"
    and no_ub: "\<not> is_ub (des data pos)"
begin

lemma read_n_in_bounds:
  "read_n n (des data) pos = Inr (xs, pos') \<Longrightarrow> pos \<le> length data
    \<Longrightarrow> pos \<le> pos' \<and> pos' \<le> length data \<and> length xs = n"
proof (induction n arbitrary: pos xs)
  case (Suc n)
  from Suc.prems(1) obtain x p ys where x: "des data pos = Inr (x, p)"
    and ys: "read_n n (des data) p = Inr (ys, pos')" and xs: "xs = x # ys"
    by (auto simp: ebind_eq_Inr emap_eq_Inr)
  from in_bounds [OF x] have "pos \<le> p" "p \<le> length data" by simp_all
  with Suc.IH [OF ys] xs show ?case by auto
qed auto

lemma read_n_no_ub: "\<not> is_ub (read_n n (des data) pos)"
  by (induction n arbitrary: pos) (auto simp: is_ub_ebind no_ub)

end


section \<open>The primitive codecs\<close>

definition ok_size :: "nat \<Rightarrow> bool" where
  "ok_size n \<longleftrightarrow> n < 2 ^ 64"

lemma unat_lt_bytes:
  "unat (w :: i32) < 256 ^ 4" "unat (d :: f64) < 256 ^ 8"
  using unsigned_less [of w] unsigned_less [of d] by simp_all

lemma of_char_lt_256: "(of_char c :: nat) < 256 ^ 1"
  by simp

lemmas prim_codec_defs =
  serialize_size_def deserialize_size_def serialize_int_def deserialize_int_def
  serialize_double_def deserialize_double_def serialize_char_def deserialize_char_def

interpretation size_codec: framed_codec serialize_size deserialize_size ok_size
proof unfold_locales
  fix n :: nat and pre suf
  assume "ok_size n"
  then have "n < 256 ^ 8" by (simp add: ok_size_def)
  then show "deserialize_size (pre @ serialize_size n @ suf) (length pre) =
      Inr (n, length pre + length (serialize_size n))"
    by (simp add: prim_codec_defs deserialize_prim_at)
qed (auto simp: prim_codec_defs deserialize_prim_no_ub dest!: deserialize_prim_bounds)

interpretation int_codec: framed_codec serialize_int deserialize_int "\<lambda>_. True"
  by unfold_locales (auto simp: prim_codec_defs deserialize_prim_at [OF unat_lt_bytes(1)]
      deserialize_prim_no_ub emap_eq_Inr dest!: deserialize_prim_bounds)

interpretation double_codec: framed_codec serialize_double deserialize_double "\<lambda>_. True"
  by unfold_locales (auto simp: prim_codec_defs deserialize_prim_at [OF unat_lt_bytes(2)]
      deserialize_prim_no_ub emap_eq_Inr dest!: deserialize_prim_bounds)

interpretation char_codec: framed_codec serialize_char deserialize_char "\<lambda>_. True"
proof unfold_locales
  fix c :: char and pre suf
  show "deserialize_char (pre @ serialize_char c @ suf) (length pre) =
      Inr (c, length pre + length (serialize_char c))"
    unfolding prim_codec_defs by (simp only: deserialize_prim_at [OF of_char_lt_256]) simp
qed (auto simp: prim_codec_defs deserialize_prim_no_ub emap_eq_Inr dest!: deserialize_prim_bounds)

lemma length_prim [simp]:
  "length (serialize_size n) = 8" "length (serialize_int i) = 4"
  "length (serialize_double d) = 8" "length (serialize_char c) = 1"
  by (simp_all add: prim_codec_defs)

section \<open>Strings\<close>

definition serialize_string :: "string \<Rightarrow> bytes" where
  "serialize_string s = serialize_size (length s) @ concat (map serialize_char s)"

definition deserialize_string :: "bytes \<Rightarrow> nat \<Rightarrow> (string \<times> nat) res" where
  "deserialize_string data pos =
     ebind (deserialize_size data pos) (\<lambda>(len, pos). read_n len (deserialize_char data) pos)"

definition ok_string :: "string \<Rightarrow> bool" where
  "ok_string s \<longleftrightarrow> length s < 2 ^ 64"

lemma length_serialize_string [simp]: "length (serialize_string s) = 8 + length s"
  by (induction s) (simp_all add: serialize_string_def)

lemma serialize_string_ne [simp]: "serialize_string s \<noteq> []"
  by (simp flip: length_0_conv)

text \<open>
  A size followed by that many elements: the framing strings and schemas share.
\<close>

context framed_codec
begin

lemma counted_roundtrip:
  assumes "list_all ok xs" and "length xs < 2 ^ 64"
  shows "ebind (deserialize_size (pre @ (serialize_size (length xs) @ concat (map ser xs)) @ suf)
            (length pre))
          (\<lambda>(len, p). read_n len (des (pre @ (serialize_size (length xs) @ concat (map ser xs)) @ suf)) p)
       = Inr (xs, length pre + length (serialize_size (length xs) @ concat (map ser xs)))"
proof -
  have "deserialize_size (pre @ serialize_size (length xs) @ (concat (map ser xs) @ suf))
      (length pre) = Inr (length xs, length pre + length (serialize_size (length xs)))"
    using assms(2) by (intro size_codec.roundtrip) (simp add: ok_size_def)
  moreover have "read_n (length xs)
      (des ((pre @ serialize_size (length xs)) @ concat (map ser xs) @ suf))
      (length (pre @ serialize_size (length xs))) =
      Inr (xs, length (pre @ serialize_size (length xs)) + length (concat (map ser xs)))"
    using assms(1) by (rule read_n_roundtrip)
  ultimately show ?thesis by (simp del: length_concat)
qed

lemma counted_in_bounds:
  assumes "ebind (deserialize_size data pos) (\<lambda>(len, p). read_n len (des data) p) = Inr (xs, pos')"
  shows "pos \<le> pos' \<and> pos' \<le> length data"
  using assms size_codec.in_bounds read_n_in_bounds
  by (fastforce simp: ebind_eq_Inr)

lemma counted_no_ub:
  "\<not> is_ub (ebind (deserialize_size data pos) (\<lambda>(len, p). read_n len (des data) p))"
  by (auto simp: is_ub_ebind size_codec.no_ub read_n_no_ub)

end

interpretation string_codec: framed_codec serialize_string deserialize_string ok_string
proof unfold_locales
  fix s :: string and pre suf
  assume "ok_string s"
  then show "deserialize_string (pre @ serialize_string s @ suf) (length pre) =
      Inr (s, length pre + length (serialize_string s))"
    unfolding deserialize_string_def serialize_string_def ok_string_def
    by (intro char_codec.counted_roundtrip) (simp_all add: list.pred_True)
next
  fix data pos pos' and s :: string
  assume "deserialize_string data pos = Inr (s, pos')"
  then show "pos \<le> pos' \<and> pos' \<le> length data"
    unfolding deserialize_string_def by (rule char_codec.counted_in_bounds)
next
  fix data pos
  show "\<not> is_ub (deserialize_string data pos)"
    unfolding deserialize_string_def by (rule char_codec.counted_no_ub)
qed

section \<open>Vectors of booleans\<close>

text \<open>
  \<open>std::vector<bool>\<close> is written as its length and a bitset, eight booleans to a byte,
  least significant bit first. The loop state is the output vector, the byte being filled
  and the number of bits already in it.
\<close>

fun bits_step :: "bool \<Rightarrow> bytes \<times> u8 \<times> nat \<Rightarrow> bytes \<times> u8 \<times> nat" where
  "bits_step b (vec, bm_byte, pos) =
     (if pos = 8 then (vec @ [bm_byte], of_bool b, 1)
      else (vec, bm_byte OR push_bit pos (of_bool b), Suc pos))"

definition serialize_bools :: "bool list \<Rightarrow> bytes" where
  "serialize_bools vb =
     (case fold bits_step vb (serialize_size (length vb), 0, 0) of
        (vec, bm_byte, pos) \<Rightarrow> if pos > 0 then vec @ [bm_byte] else vec)"

function bits_loop ::
  "bytes \<Rightarrow> nat \<Rightarrow> nat \<Rightarrow> nat \<Rightarrow> nat \<Rightarrow> nat \<Rightarrow> bool list \<Rightarrow> (bool list \<times> nat \<times> nat) res" where
  "bits_loop data byte_bound len pos inner_pos data_pos vec =
     (if pos < byte_bound \<and> data_pos < len then
        if pos < length data then
          (let vec' = vec @ [data ! pos AND push_bit inner_pos 1 \<noteq> 0] in
           if Suc inner_pos = 8
           then bits_loop data byte_bound len (Suc pos) 0 (Suc data_pos) vec'
           else bits_loop data byte_bound len pos (Suc inner_pos) (Suc data_pos) vec')
        else Inl Abort
      else Inr (vec, pos, inner_pos))"
  by pat_completeness auto
termination
  by (relation "measure (\<lambda>(data, byte_bound, len, pos, inner_pos, data_pos, vec). len - data_pos)")
    auto

declare bits_loop.simps [simp del]

definition deserialize_bools :: "bytes \<Rightarrow> nat \<Rightarrow> (bool list \<times> nat) res" where
  "deserialize_bools data pos =
     ebind (deserialize_size data pos) (\<lambda>(len, pos).
       let byte_cnt = len div 8 + (if len mod 8 > 0 then 1 else 0) in
       emap (\<lambda>(vec, pos, inner_pos). (vec, if inner_pos \<noteq> 0 then Suc pos else pos))
         (bits_loop data (byte_cnt + pos) len pos 0 0 []))"

definition ok_bools :: "bool list \<Rightarrow> bool" where
  "ok_bools vb \<longleftrightarrow> length vb < 2 ^ 64"

text \<open>
  The layout both directions agree on: boolean \<open>i\<close> is bit \<open>i mod 8\<close> of byte \<open>i div 8\<close>.
\<close>

definition bit_at :: "bytes \<Rightarrow> nat \<Rightarrow> bool" where
  "bit_at bs i = bit (bs ! (i div 8)) (i mod 8)"

lemma bit_set_iff:
  "pos < 8 \<Longrightarrow> bit ((w :: u8) OR push_bit pos (of_bool b)) k \<longleftrightarrow> bit w k \<or> (b \<and> k = pos)"
  by (cases b) (auto simp: bit_or_iff bit_exp_iff)

lemma bit_at_append:
  "bit_at (xs @ ys) i = (if i < 8 * length xs then bit_at xs i else bit_at ys (i - 8 * length xs))"
proof (cases "i < 8 * length xs")
  case True
  then have "i div 8 < length xs" by (simp add: less_mult_imp_div_less mult.commute)
  with True show ?thesis by (simp add: bit_at_def nth_append)
next
  case False
  then obtain k where "i = 8 * length xs + k" using le_Suc_ex not_less by blast
  then show ?thesis by (simp add: bit_at_def nth_append)
qed

lemma bit_at_single: "k < 8 \<Longrightarrow> bit_at [b] k = bit b k"
  by (simp add: bit_at_def)

lemma fold_bits_layout:
  "\<exists>body bm pos. fold bits_step vb (pre, 0, 0) = (pre @ body, bm, pos)
     \<and> length vb = 8 * length body + pos \<and> pos \<le> 8 \<and> (pos = 0 \<longrightarrow> vb = [])
     \<and> (\<forall>k\<ge>pos. \<not> bit bm k) \<and> (\<forall>i<length vb. bit_at (body @ [bm]) i = vb ! i)"
proof (induction vb rule: rev_induct)
  case Nil
  show ?case by simp
next
  case (snoc b vb)
  then obtain body bm pos where st: "fold bits_step vb (pre, 0, 0) = (pre @ body, bm, pos)"
    and len: "length vb = 8 * length body + pos" "pos \<le> 8" and nil: "pos = 0 \<longrightarrow> vb = []"
    and hi: "\<forall>k\<ge>pos. \<not> bit bm k" and bits: "\<forall>i<length vb. bit_at (body @ [bm]) i = vb ! i"
    by blast
  show ?case
  proof (cases "pos = 8")
    case True
    have "bit_at ((body @ [bm]) @ [of_bool b]) i = (vb @ [b]) ! i" if "i < Suc (length vb)" for i
    proof (cases "i < length vb")
      case lt: True
      with bits len \<open>pos = 8\<close> show ?thesis
        by (subst bit_at_append) (simp add: nth_append)
    next
      case False
      with that have "i = 8 * Suc (length body)" using len True by simp
      then show ?thesis using len True
        by (subst bit_at_append) (simp add: nth_append bit_at_single)
    qed
    moreover have "\<not> bit (of_bool b :: u8) k" if "k \<ge> 1" for k
      using that by (cases b) (auto simp: bit_1_iff)
    ultimately show ?thesis using st len True by simp
  next
    case False
    with len(2) have lt: "pos < 8" by simp
    have "bit_at (body @ [bm OR push_bit pos (of_bool b)]) i = (vb @ [b]) ! i"
      if "i < Suc (length vb)" for i
    proof (cases "i < length vb")
      case True
      then have "bit_at (body @ [bm OR push_bit pos (of_bool b)]) i = bit_at (body @ [bm]) i"
        using len lt by (auto simp: bit_at_append bit_at_single bit_set_iff)
      with True bits show ?thesis by (simp add: nth_append)
    next
      case False
      with that have i: "i = 8 * length body + pos" using len by simp
      with lt hi len show ?thesis
        by (simp add: bit_at_append bit_at_single nth_append bit_set_iff)
    qed
    moreover have "\<forall>k\<ge>Suc pos. \<not> bit (bm OR push_bit pos (of_bool b)) k"
      using hi lt by (simp add: bit_set_iff)
    ultimately show ?thesis using st len lt by simp
  qed
qed

lemma serialize_bools_layout:
  "\<exists>body. serialize_bools vb = serialize_size (length vb) @ body
     \<and> length body = (length vb + 7) div 8 \<and> (\<forall>i<length vb. bit_at body i = vb ! i)"
proof -
  obtain body bm pos where
    st: "fold bits_step vb (serialize_size (length vb), 0, 0) =
           (serialize_size (length vb) @ body, bm, pos)"
    and len: "length vb = 8 * length body + pos" "pos \<le> 8" and nil: "pos = 0 \<longrightarrow> vb = []"
    and bits: "\<forall>i<length vb. bit_at (body @ [bm]) i = vb ! i"
    using fold_bits_layout [of vb "serialize_size (length vb)"] by blast
  show ?thesis
  proof (cases "pos = 0")
    case True
    with nil st len show ?thesis by (simp add: serialize_bools_def)
  next
    case False
    then have "serialize_bools vb = serialize_size (length vb) @ (body @ [bm])"
      using st by (simp add: serialize_bools_def)
    moreover have "length (body @ [bm]) = (length vb + 7) div 8"
      using len False by simp
    ultimately show ?thesis using bits by blast
  qed
qed

lemma length_serialize_bools: "length (serialize_bools vb) = 8 + (length vb + 7) div 8"
  using serialize_bools_layout [of vb] by auto

lemma byte_index_bound:
  assumes "i < (n :: nat)"
  shows "i div 8 < (n + 7) div 8"
proof -
  have "(i + 8) div 8 \<le> (n + 7) div 8" using assms by (intro div_le_mono) simp
  then show ?thesis by simp
qed

lemma byte_cnt_eq: "len div 8 + (if len mod 8 > 0 then 1 else 0) = (len + 7) div (8 :: nat)"
proof -
  have "(len + 7) div 8 = (8 * (len div 8) + (len mod 8 + 7)) div 8" by (simp add: add.assoc [symmetric])
  also have "\<dots> = len div 8 + (len mod 8 + 7) div 8" by (rule div_mult_self4) simp
  also have "(len mod 8 + 7) div 8 = (if len mod 8 > 0 then 1 else 0)"
    using mod_less_divisor [of 8 len] by (cases "len mod 8 = 0") (simp_all add: div_nat_eqI)
  finally show ?thesis by simp
qed

lemma and_push_bit_1: "(w AND push_bit n 1 \<noteq> 0) = bit (w :: u8) n"
  by (simp add: bit_iff_and_push_bit_not_eq_0)

lemma bits_loop_reads:
  assumes "data_pos \<le> len" and "pos = base + data_pos div 8" and "inner_pos = data_pos mod 8"
    and "byte_bound = base + (len + 7) div 8" and "byte_bound \<le> length data"
  shows "bits_loop data byte_bound len pos inner_pos data_pos vec =
     Inr (vec @ map (bit_at (drop base data)) [data_pos..<len], base + len div 8, len mod 8)"
  using assms
proof (induction data byte_bound len pos inner_pos data_pos vec rule: bits_loop.induct)
  case (1 data byte_bound len pos inner_pos data_pos vec)
  show ?case
  proof (cases "data_pos < len")
    case False
    with "1.prems" show ?thesis by (subst bits_loop.simps) simp
  next
    case True
    then have div_lt: "data_pos div 8 < (len + 7) div 8" by (rule byte_index_bound)
    with "1.prems" have inb: "pos < byte_bound" "pos < length data" by simp_all
    define b where "b = (data ! pos AND push_bit inner_pos 1 \<noteq> 0)"
    have b: "b = bit_at (drop base data) data_pos"
      unfolding b_def and_push_bit_1 using "1.prems" inb by (simp add: bit_at_def)
    have upt: "map (bit_at (drop base data)) [data_pos..<len] =
        b # map (bit_at (drop base data)) [Suc data_pos..<len]"
      using True b by (simp add: upt_conv_Cons)
    have next_pos: "Suc data_pos div 8 = (if Suc inner_pos = 8 then Suc (data_pos div 8) else data_pos div 8)"
      "Suc data_pos mod 8 = (if Suc inner_pos = 8 then 0 else Suc inner_pos)"
      unfolding \<open>inner_pos = data_pos mod 8\<close> by (simp_all add: div_Suc mod_Suc)
    have step: "bits_loop data byte_bound len pos inner_pos data_pos vec =
        (if Suc inner_pos = 8
         then bits_loop data byte_bound len (Suc pos) 0 (Suc data_pos) (vec @ [b])
         else bits_loop data byte_bound len pos (Suc inner_pos) (Suc data_pos) (vec @ [b]))"
      using True inb unfolding b_def by (subst bits_loop.simps) (simp add: Let_def)
    note IH = "1.IH" [OF conjI [OF inb(1) True] inb(2) refl, folded b_def]
    have "bits_loop data byte_bound len pos inner_pos data_pos vec =
        Inr ((vec @ [b]) @ map (bit_at (drop base data)) [Suc data_pos..<len],
          base + len div 8, len mod 8)"
    proof (cases "Suc inner_pos = 8")
      case wrap: True
      with True next_pos "1.prems" show ?thesis
        unfolding step if_P [OF wrap] by (intro IH(1)) simp_all
    next
      case False
      with True next_pos "1.prems" show ?thesis
        unfolding step if_not_P [OF False] by (intro IH(2)) simp_all
    qed
    then show ?thesis unfolding upt by simp
  qed
qed

lemma bits_loop_in_bounds:
  "bits_loop data byte_bound len pos inner_pos data_pos vec = Inr (vec', pos', inner')
    \<Longrightarrow> pos \<le> length data \<Longrightarrow> (inner_pos \<noteq> 0 \<longrightarrow> pos < length data)
    \<Longrightarrow> pos \<le> pos' \<and> pos' \<le> length data \<and> (inner' \<noteq> 0 \<longrightarrow> pos' < length data)"
proof (induction data byte_bound len pos inner_pos data_pos vec rule: bits_loop.induct)
  case (1 data byte_bound len pos inner_pos data_pos vec)
  show ?case
  proof (cases "pos < byte_bound \<and> data_pos < len")
    case True
    with "1.prems"(1) have inb: "pos < length data"
      by (simp add: bits_loop.simps [of data byte_bound len pos] split: if_splits)
    show ?thesis
    proof (cases "Suc inner_pos = 8")
      case wrap: True
      from True inb wrap "1.prems"(1)
      have "bits_loop data byte_bound len (Suc pos) 0 (Suc data_pos)
          (vec @ [data ! pos AND push_bit inner_pos 1 \<noteq> 0]) = Inr (vec', pos', inner')"
        by (simp add: bits_loop.simps [of data byte_bound len pos] Let_def)
      from "1.IH"(1) [OF True inb refl wrap this] inb show ?thesis by simp
    next
      case False
      from True inb False "1.prems"(1)
      have "bits_loop data byte_bound len pos (Suc inner_pos) (Suc data_pos)
          (vec @ [data ! pos AND push_bit inner_pos 1 \<noteq> 0]) = Inr (vec', pos', inner')"
        by (simp add: bits_loop.simps [of data byte_bound len pos] Let_def)
      from "1.IH"(2) [OF True inb refl False this] inb show ?thesis by simp
    qed
  next
    case False
    with "1.prems" show ?thesis by (auto simp: bits_loop.simps [of data byte_bound len pos])
  qed
qed

lemma bits_loop_no_ub: "\<not> is_ub (bits_loop data byte_bound len pos inner_pos data_pos vec)"
  by (induction data byte_bound len pos inner_pos data_pos vec rule: bits_loop.induct)
    (subst bits_loop.simps, simp add: Let_def)

interpretation bools_codec: framed_codec serialize_bools deserialize_bools ok_bools
proof unfold_locales
  fix vb :: "bool list" and pre suf
  assume ok: "ok_bools vb"
  obtain body where ser: "serialize_bools vb = serialize_size (length vb) @ body"
    and len: "length body = (length vb + 7) div 8"
    and bits: "\<forall>i<length vb. bit_at body i = vb ! i"
    using serialize_bools_layout by blast
  define data where "data = pre @ serialize_size (length vb) @ (body @ suf)"
  have "deserialize_size data (length pre) = Inr (length vb, length pre + 8)"
    unfolding data_def using size_codec.roundtrip [of "length vb"] ok
    by (simp add: ok_size_def ok_bools_def)
  moreover have "bits_loop data ((length vb + 7) div 8 + (length pre + 8)) (length vb)
      (length pre + 8) 0 0 [] =
      Inr ([] @ map (bit_at (drop (length pre + 8) data)) [0..<length vb],
        (length pre + 8) + length vb div 8, length vb mod 8)"
    by (rule bits_loop_reads) (simp_all add: data_def len)
  moreover have "map (bit_at (drop (length pre + 8) data)) [0..<length vb] = vb"
  proof (rule nth_equalityI)
    fix i assume "i < length (map (bit_at (drop (length pre + 8) data)) [0..<length vb])"
    then have i: "i < length vb" by simp
    then have "i div 8 < length body" unfolding len by (rule byte_index_bound)
    then have "bit_at (body @ suf) i = bit_at body i" by (simp add: bit_at_def nth_append)
    with i bits show "map (bit_at (drop (length pre + 8) data)) [0..<length vb] ! i = vb ! i"
      by (simp add: data_def)
  qed simp
  moreover have "(if length vb mod 8 \<noteq> 0 then Suc (length vb div 8) else length vb div 8) =
      (length vb + 7) div 8"
    using byte_cnt_eq [of "length vb"] by (simp split: if_splits)
  ultimately have "deserialize_bools data (length pre) =
      Inr (vb, length pre + length (serialize_bools vb))"
    unfolding deserialize_bools_def byte_cnt_eq
    by (simp add: length_serialize_bools Let_def split: if_splits)
  then show "deserialize_bools (pre @ serialize_bools vb @ suf) (length pre) =
      Inr (vb, length pre + length (serialize_bools vb))"
    by (simp add: data_def ser)
next
  fix data pos pos' and vb :: "bool list"
  assume "deserialize_bools data pos = Inr (vb, pos')"
  then obtain len p bound q i where sz: "deserialize_size data pos = Inr (len, p)"
    and lp: "bits_loop data bound len p 0 0 [] = Inr (vb, q, i)"
    and pos': "pos' = (if i \<noteq> 0 then Suc q else q)"
    unfolding deserialize_bools_def by (auto simp: ebind_eq_Inr emap_eq_Inr Let_def)
  from size_codec.in_bounds [OF sz] bits_loop_in_bounds [OF lp] pos'
  show "pos \<le> pos' \<and> pos' \<le> length data" by (auto split: if_splits)
next
  fix data pos
  show "\<not> is_ub (deserialize_bools data pos)"
    by (auto simp: deserialize_bools_def is_ub_ebind size_codec.no_ub bits_loop_no_ub Let_def)
qed

section \<open>Properties\<close>

text \<open>
  A vector of booleans is written as its length and a bitset of the least number of bytes,
  boolean \<open>i\<close> being bit \<open>i mod 8\<close> of byte \<open>i div 8\<close>, and is read back from any place in a buffer.
\<close>

lemma bools_bitset:
  assumes "length vb < 2 ^ 64"
  shows "\<exists>body. serialize_bools vb = serialize_size (length vb) @ body
     \<and> length body = (length vb + 7) div 8
     \<and> (\<forall>i<length vb. bit (body ! (i div 8)) (i mod 8) = vb ! i)
     \<and> deserialize_bools (pre @ serialize_bools vb @ suf) (length pre) =
         Inr (vb, length pre + 8 + length body)"
proof -
  obtain body where body: "serialize_bools vb = serialize_size (length vb) @ body"
    "length body = (length vb + 7) div 8" "\<forall>i<length vb. bit_at body i = vb ! i"
    using serialize_bools_layout by blast
  then show ?thesis
    using bools_codec.roundtrip [of vb pre suf] assms by (auto simp: ok_bools_def bit_at_def)
qed

text \<open>Strings written one after the other, without a count, are uniquely readable.\<close>

lemma strings_unambiguous:
  assumes "list_all ok_string ss" and "list_all ok_string ts"
    and "concat (map serialize_string ss) = concat (map serialize_string ts)"
  shows "ss = ts"
  using assms
proof (induction ss arbitrary: ts)
  case Nil
  then show ?case by (cases ts) auto
next
  case (Cons s ss)
  obtain t ts' where ts: "ts = t # ts'" using Cons.prems(3) by (cases ts) simp_all
  have eq: "serialize_string s @ concat (map serialize_string ss) =
      serialize_string t @ concat (map serialize_string ts')"
    using Cons.prems(3) ts by (simp only: list.map concat.simps)
  have ok: "ok_string s" "ok_string t" using Cons.prems(1,2) ts by auto
  have "s = t \<and> concat (map serialize_string ss) = concat (map serialize_string ts')"
    by (rule string_codec.prefix_free [OF ok eq])
  with Cons ts show ?case by simp
qed

end
