(* ===== verification/Schema.thy ===== *)
theory Schema
  imports Serializable
begin

text \<open>
  \<open>include/data/schema.h\<close> and \<open>src/data/schema.cpp\<close>: the types and optional names of the
  columns of a dataframe. The constructors from a type string record no column names, while
  \<open>add_column\<close> records one per call, so the name vector can be shorter than the type vector.
\<close>

record schema =
  sch_col_names :: "string option list"
  sch_row_names :: "string option list"
  sch_types :: "char list"
  sch_width :: nat
  sch_length :: nat

definition schema_empty :: schema where
  "schema_empty = \<lparr>sch_col_names = [], sch_row_names = [], sch_types = [], sch_width = 0, sch_length = 0\<rparr>"

text \<open>The copy constructor drops the names and keeps the rest.\<close>

definition schema_copy :: "schema \<Rightarrow> schema" where
  "schema_copy from = \<lparr>sch_col_names = [], sch_row_names = [], sch_types = sch_types from,
     sch_width = sch_width from, sch_length = sch_length from\<rparr>"

text \<open>
  The constructor from a C string: it ends at the first NUL and skips spaces. The
  \<open>std::string\<close> constructor delegates to it through \<open>c_str()\<close>.
\<close>

primrec scan_types :: "string \<Rightarrow> schema \<Rightarrow> schema" where
  "scan_types [] s = s"
| "scan_types (c # cs) s =
     (if c = CHR 0x00 then s
      else scan_types cs
        (if c \<noteq> CHR '' '' then s\<lparr>sch_types := sch_types s @ [c], sch_width := Suc (sch_width s)\<rparr> else s))"

definition schema_of_types :: "string \<Rightarrow> schema" where
  "schema_of_types types = scan_types types schema_empty"

definition schema_add_column :: "char \<Rightarrow> string option \<Rightarrow> schema \<Rightarrow> schema" where
  "schema_add_column typ name s =
     s\<lparr>sch_types := sch_types s @ [typ], sch_col_names := sch_col_names s @ [name],
       sch_width := Suc (sch_width s)\<rparr>"

definition schema_add_row :: "string option \<Rightarrow> schema \<Rightarrow> schema" where
  "schema_add_row name s = s\<lparr>sch_row_names := sch_row_names s @ [name], sch_length := Suc (sch_length s)\<rparr>"

definition schema_row_name :: "schema \<Rightarrow> nat \<Rightarrow> string option res" where
  "schema_row_name s idx = vec_at (sch_row_names s) idx"

definition schema_col_name :: "schema \<Rightarrow> nat \<Rightarrow> string option res" where
  "schema_col_name s idx = vec_at (sch_col_names s) idx"

definition schema_col_type :: "schema \<Rightarrow> nat \<Rightarrow> char res" where
  "schema_col_type s idx = (if idx < length (sch_types s) then vec_at (sch_types s) idx else Inl Abort)"

text \<open>
  The name searches dereference every optional they pass: an unnamed column before the
  match is undefined behaviour. The index is returned as an \<open>int\<close>.
\<close>

fun find_name :: "string option list \<Rightarrow> string \<Rightarrow> nat \<Rightarrow> i32 res" where
  "find_name [] name i = Inr (-1)"
| "find_name (None # ns) name i = Inl (Undefined NulloptDeref)"
| "find_name (Some n # ns) name i = (if n = name then Inr (word_of_nat i) else find_name ns name (Suc i))"

definition schema_col_idx :: "schema \<Rightarrow> string \<Rightarrow> i32 res" where
  "schema_col_idx s name = find_name (sch_col_names s) name 0"

definition schema_row_idx :: "schema \<Rightarrow> string \<Rightarrow> i32 res" where
  "schema_row_idx s name = find_name (sch_row_names s) name 0"

text \<open>\<open>equals\<close>: sizes first, then names (both optionals dereferenced), then types.\<close>

fun names_equal :: "string option list \<Rightarrow> string option list \<Rightarrow> bool res" where
  "names_equal (Some a # as) (Some b # bs) = (if a \<noteq> b then Inr False else names_equal as bs)"
| "names_equal [] _ = Inr True"
| "names_equal _ _ = Inl (Undefined NulloptDeref)"

definition schema_equals :: "schema \<Rightarrow> schema \<Rightarrow> bool res" where
  "schema_equals s t =
     (if sch_width s = sch_width t \<and> sch_length s = sch_length t
         \<and> length (sch_types s) = length (sch_types t)
         \<and> length (sch_col_names s) = length (sch_col_names t)
         \<and> length (sch_row_names s) = length (sch_row_names t)
      then ebind (names_equal (sch_col_names s) (sch_col_names t)) (\<lambda>cols.
           if \<not> cols then Inr False
           else ebind (names_equal (sch_row_names s) (sch_row_names t)) (\<lambda>rows.
           if \<not> rows then Inr False else Inr (sch_types s = sch_types t)))
      else Inr False)"

text \<open>
  \<open>hash\<close>: the inner loops over a name run to the number of names, not to the length of the
  name, and \<open>at\<close> throws past its end. A \<open>char\<close> is signed and is sign-extended.
\<close>

definition char_word :: "char \<Rightarrow> u64" where
  "char_word c = scast (of_char c :: u8)"

fun hash_name :: "string option \<Rightarrow> nat list \<Rightarrow> u64 \<Rightarrow> u64 res" where
  "hash_name n [] h = Inr h"
| "hash_name None (j # js) h = Inl (Undefined NulloptDeref)"
| "hash_name (Some n) (j # js) h =
     (if j < length n then hash_name (Some n) js (h + char_word (n ! j) * word_of_nat j)
      else Inl (Throw OutOfRange))"

definition schema_hash :: "schema \<Rightarrow> u64 res" where
  "schema_hash s =
     ebind (efold (\<lambda>n. hash_name n [0..<length (sch_col_names s)]) (sch_col_names s)
        (word_of_nat (length (sch_col_names s) + length (sch_row_names s) + length (sch_types s)))) (\<lambda>h.
     ebind (efold (\<lambda>n. hash_name n [0..<length (sch_row_names s)]) (sch_row_names s) h) (\<lambda>h.
     Inr (fold (\<lambda>(i, c) h. h + char_word c * word_of_nat i) (enumerate 0 (sch_types s)) h)))"

definition schema_serialize :: "schema \<Rightarrow> bytes res" where
  "schema_serialize s =
     emap (\<lambda>cs. serialize_size (sch_width s) @ concat (map serialize_char cs))
       (emapM (vec_at (sch_types s)) [0..<sch_width s])"

definition deserialize_schema :: "bytes \<Rightarrow> nat \<Rightarrow> (schema \<times> nat) res" where
  "deserialize_schema data pos =
     ebind (deserialize_size data pos) (\<lambda>(width, pos).
     emap (map_prod schema_of_types id) (read_n width (deserialize_char data) pos))"

section \<open>Invariants\<close>

text \<open>Every operation keeps the width equal to the number of types.\<close>

definition schema_wf :: "schema \<Rightarrow> bool" where
  "schema_wf s \<longleftrightarrow> sch_width s = length (sch_types s) \<and> length (sch_row_names s) \<le> sch_length s
     \<and> length (sch_col_names s) \<le> sch_width s"

text \<open>Types the constructors keep: neither the terminator nor a space.\<close>

definition plain_types :: "char list \<Rightarrow> bool" where
  "plain_types ts \<longleftrightarrow> CHR 0x00 \<notin> set ts \<and> CHR '' '' \<notin> set ts"

lemma scan_types_eq:
  "scan_types ts s =
     (let cs = filter (\<lambda>c. c \<noteq> CHR '' '') (takeWhile (\<lambda>c. c \<noteq> CHR 0x00) ts) in
      s\<lparr>sch_types := sch_types s @ cs, sch_width := sch_width s + length cs\<rparr>)"
  by (induction ts arbitrary: s) (simp_all add: Let_def)

lemma schema_of_types_fields [simp]:
  "sch_col_names (schema_of_types ts) = []" "sch_row_names (schema_of_types ts) = []"
  "sch_length (schema_of_types ts) = 0"
  "sch_types (schema_of_types ts) = filter (\<lambda>c. c \<noteq> CHR '' '') (takeWhile (\<lambda>c. c \<noteq> CHR 0x00) ts)"
  "sch_width (schema_of_types ts) = length (sch_types (schema_of_types ts))"
  by (simp_all add: schema_of_types_def scan_types_eq schema_empty_def Let_def)

lemma schema_of_plain_types:
  "plain_types ts \<Longrightarrow> sch_types (schema_of_types ts) = ts"
proof -
  assume "plain_types ts"
  then have "takeWhile (\<lambda>c. c \<noteq> CHR 0x00) ts = ts" "filter (\<lambda>c. c \<noteq> CHR '' '') ts = ts"
    by (auto simp: plain_types_def takeWhile_eq_all_conv filter_id_conv)
  then show ?thesis by (simp only: schema_of_types_fields)
qed

lemma schema_ops_wf:
  "schema_wf schema_empty"
  "schema_wf (schema_of_types ts)"
  "schema_wf s \<Longrightarrow> schema_wf (schema_copy s)"
  "schema_wf s \<Longrightarrow> schema_wf (schema_add_column t n s)"
  "schema_wf s \<Longrightarrow> schema_wf (schema_add_row n s)"
  by (simp_all add: schema_wf_def schema_empty_def schema_copy_def schema_add_column_def schema_add_row_def)

lemma schema_copy_of_types: "schema_copy (schema_of_types ts) = schema_of_types ts"
  by (rule schema.equality) (simp_all add: schema_copy_def)

section \<open>Names\<close>

lemma find_name_named:
  assumes "j < length ns" and "ns ! j = Some name" and "\<forall>i<j. \<exists>n. ns ! i = Some n \<and> n \<noteq> name"
  shows "find_name ns name i = Inr (word_of_nat (i + j))"
  using assms
proof (induction ns name i arbitrary: j rule: find_name.induct)
  case (2 ns name i)
  then show ?case by (cases j) auto
next
  case (3 n ns name i)
  show ?case
  proof (cases j)
    case 0
    with "3.prems" show ?thesis by simp
  next
    case (Suc k)
    have "n \<noteq> name" using "3.prems"(3) Suc by auto
    moreover have "find_name ns name (Suc i) = Inr (word_of_nat (Suc i + k))"
      using "3.prems" Suc by (intro "3.IH" [OF \<open>n \<noteq> name\<close>]) (auto dest: spec [of _ "Suc _"])
    ultimately show ?thesis using Suc by simp
  qed
qed simp

lemma find_name_absent:
  "\<forall>n\<in>set ns. \<exists>m. n = Some m \<and> m \<noteq> name \<Longrightarrow> find_name ns name i = Inr (-1)"
  by (induction ns name i rule: find_name.induct) auto

section \<open>Serialization\<close>

lemma schema_serialize_eq:
  assumes "schema_wf s"
  shows "schema_serialize s =
     Inr (serialize_size (length (sch_types s)) @ concat (map serialize_char (sch_types s)))"
proof -
  have "emapM (vec_at (sch_types s)) [0..<sch_width s] = Inr (map (nth (sch_types s)) [0..<sch_width s])"
    using assms by (intro emapM_total) (simp add: schema_wf_def)
  also have "map (nth (sch_types s)) [0..<sch_width s] = sch_types s"
    using assms by (simp add: schema_wf_def map_nth)
  finally show ?thesis using assms by (simp add: schema_serialize_def schema_wf_def)
qed

text \<open>
  Reading a schema back keeps the types alone: the names and the row count are dropped,
  and a NUL or a space among the types would be lost too.
\<close>

lemma deserialize_schema_roundtrip:
  assumes "schema_wf s" and "length (sch_types s) < 2 ^ 64" and "schema_serialize s = Inr bs"
  shows "deserialize_schema (pre @ bs @ suf) (length pre) =
     Inr (schema_of_types (sch_types s), length pre + length bs)"
proof -
  have bs: "bs = serialize_size (length (sch_types s)) @ concat (map serialize_char (sch_types s))"
    using assms(1,3) schema_serialize_eq by simp
  have "ebind (deserialize_size (pre @ bs @ suf) (length pre))
      (\<lambda>(len, p). read_n len (deserialize_char (pre @ bs @ suf)) p) =
      Inr (sch_types s, length pre + length bs)"
    unfolding bs using assms(2) by (intro char_codec.counted_roundtrip) (simp add: list.pred_True)
  moreover have "deserialize_schema data pos = emap (map_prod schema_of_types id)
      (ebind (deserialize_size data pos) (\<lambda>(len, p). read_n len (deserialize_char data) p))" for data pos
    by (cases "deserialize_size data pos") (auto simp: deserialize_schema_def)
  ultimately show ?thesis by simp
qed

lemma deserialize_schema_in_bounds:
  "deserialize_schema data pos = Inr (s, pos') \<Longrightarrow> pos \<le> pos' \<and> pos' \<le> length data"
  by (auto simp: deserialize_schema_def ebind_eq_Inr emap_eq_Inr
      dest!: char_codec.counted_in_bounds [OF ebind_eq_Inr [THEN iffD2, OF exI, OF conjI]])

lemma deserialize_schema_no_ub: "\<not> is_ub (deserialize_schema data pos)"
  by (auto simp: deserialize_schema_def is_ub_ebind size_codec.no_ub char_codec.read_n_no_ub)

lemma deserialize_schema_fresh:
  "deserialize_schema data pos = Inr (s, pos') \<Longrightarrow> \<exists>ts. s = schema_of_types ts"
  by (auto simp: deserialize_schema_def ebind_eq_Inr emap_eq_Inr)

section \<open>Properties\<close>

text \<open>
  The search for a column by name: it ends at the first column that has that name or no
  name at all; the former gives its index, the latter is undefined behaviour, and without either
  the result is -1.
\<close>

lemma column_name_lookup:
  "schema_col_idx s name =
     (case find (\<lambda>(i, n). n = None \<or> n = Some name) (enumerate 0 (sch_col_names s)) of
        None \<Rightarrow> Inr (-1)
      | Some (i, n) \<Rightarrow> if n = None then Inl (Undefined NulloptDeref) else Inr (word_of_nat i))"
proof -
  have "find_name ns name i =
      (case find (\<lambda>(i, n). n = None \<or> n = Some name) (enumerate i ns) of
         None \<Rightarrow> Inr (-1)
       | Some (i, n) \<Rightarrow> if n = None then Inl (Undefined NulloptDeref) else Inr (word_of_nat i))" for ns i
    by (induction ns name i rule: find_name.induct) auto
  then show ?thesis by (simp add: schema_col_idx_def)
qed

end
