(* ===== verification/NullableArray.thy ===== *)
theory NullableArray
  imports Serializable
begin

text \<open>
  \<open>include/data/nullable_array.h\<close>: an array of optional values kept as a bitmap and a
  vector of data in which a missing value is value-initialised. The abstract view is the
  list of optional values (\<open>na_view\<close>); the interface the columns rely on is the locale
  \<open>opt_vector\<close>.
\<close>

section \<open>The array and its operations\<close>

record 'a nullable_array =
  na_bitmap :: "bool list"
  na_data :: "'a list"

definition na_empty :: "'a nullable_array" where
  "na_empty = \<lparr>na_bitmap = [], na_data = []\<rparr>"

text \<open>The private constructor asserts that the two vectors agree in size.\<close>

definition na_make :: "bool list \<Rightarrow> 'a list \<Rightarrow> 'a nullable_array res" where
  "na_make bitmap arr =
     (if length bitmap = length arr then Inr \<lparr>na_bitmap = bitmap, na_data = arr\<rparr> else Inl Abort)"

definition na_push_back :: "'a::default option \<Rightarrow> 'a nullable_array \<Rightarrow> 'a nullable_array" where
  "na_push_back val a = (case val of
     Some v \<Rightarrow> a\<lparr>na_data := na_data a @ [v], na_bitmap := na_bitmap a @ [True]\<rparr>
   | None \<Rightarrow> a\<lparr>na_data := na_data a @ [default], na_bitmap := na_bitmap a @ [False]\<rparr>)"

definition na_get :: "'a nullable_array \<Rightarrow> nat \<Rightarrow> 'a option res" where
  "na_get a pos =
     (if pos < length (na_data a) then
        ebind (vec_at (na_bitmap a) pos)
          (\<lambda>exists. if exists then emap Some (vec_at (na_data a) pos) else Inr None)
      else Inl Abort)"

definition na_set ::
  "'a::default nullable_array \<Rightarrow> nat \<Rightarrow> 'a option \<Rightarrow> ('a option \<times> 'a nullable_array) res" where
  "na_set a pos val =
     (if pos < length (na_data a) then
        ebind (na_get a pos) (\<lambda>old.
        ebind (vec_put (na_data a) pos (case val of Some v \<Rightarrow> v | None \<Rightarrow> default)) (\<lambda>d.
        ebind (vec_put (na_bitmap a) pos (val \<noteq> None)) (\<lambda>b.
        Inr (old, a\<lparr>na_data := d, na_bitmap := b\<rparr>))))
      else Inl Abort)"

definition na_pop :: "'a nullable_array \<Rightarrow> nat \<Rightarrow> ('a option \<times> 'a nullable_array) res" where
  "na_pop a pos =
     (if pos < length (na_data a) then
        ebind (na_get a pos) (\<lambda>val.
        Inr (val, a\<lparr>na_data := erase_at pos (na_data a), na_bitmap := erase_at pos (na_bitmap a)\<rparr>))
      else Inl Abort)"

definition na_size :: "'a nullable_array \<Rightarrow> nat" where
  "na_size a = length (na_data a)"

text \<open>\<open>equals\<close> and \<open>operator==\<close> compare both vectors, the elements with their own \<open>==\<close>.\<close>

definition na_equals :: "('a \<Rightarrow> 'a \<Rightarrow> bool) \<Rightarrow> 'a nullable_array \<Rightarrow> 'a nullable_array \<Rightarrow> bool" where
  "na_equals eq a b \<longleftrightarrow> na_bitmap a = na_bitmap b \<and> list_all2 eq (na_data a) (na_data b)"

text \<open>\<open>hash\<close> mixes \<open>std::hash<T>\<close> of the existing values (a parameter) with their indices.\<close>

definition na_hash :: "('a \<Rightarrow> u64) \<Rightarrow> 'a nullable_array \<Rightarrow> u64" where
  "na_hash h a =
     fold (\<lambda>(i, e, x) hash. if e then (hash + 1) XOR (h x XOR word_of_nat i) else hash)
       (zip [0..<length (na_data a)] (zip (na_bitmap a) (na_data a)))
       (word_of_nat (length (na_data a)))"

definition na_serialize :: "('a \<Rightarrow> bytes) \<Rightarrow> 'a nullable_array \<Rightarrow> bytes" where
  "na_serialize ser a =
     serialize_bools (na_bitmap a)
       @ concat (map (\<lambda>(e, x). if e then ser x else []) (zip (na_bitmap a) (na_data a)))"

text \<open>For \<open>T = bool\<close> the data itself is written as a bitset, missing values included.\<close>

definition na_serialize_bool :: "bool nullable_array \<Rightarrow> bytes" where
  "na_serialize_bool a = serialize_bools (na_bitmap a) @ serialize_bools (na_data a)"

fun na_read :: "(nat \<Rightarrow> ('a::default \<times> nat) res) \<Rightarrow> bool list \<Rightarrow> nat \<Rightarrow> ('a list \<times> nat) res" where
  "na_read des [] pos = Inr ([], pos)"
| "na_read des (e # es) pos =
     (if e then ebind (des pos) (\<lambda>(x, p). emap (\<lambda>(xs, q). (x # xs, q)) (na_read des es p))
      else emap (\<lambda>(xs, q). (default # xs, q)) (na_read des es pos))"

definition na_deserialize ::
  "(bytes \<Rightarrow> nat \<Rightarrow> ('a::default \<times> nat) res) \<Rightarrow> bytes \<Rightarrow> nat \<Rightarrow> ('a nullable_array \<times> nat) res" where
  "na_deserialize des bs pos =
     ebind (deserialize_bools bs pos) (\<lambda>(bitmap, pos).
     ebind (na_read (des bs) bitmap pos) (\<lambda>(arr, pos).
     emap (\<lambda>a. (a, pos)) (na_make bitmap arr)))"

definition na_deserialize_bool :: "bytes \<Rightarrow> nat \<Rightarrow> (bool nullable_array \<times> nat) res" where
  "na_deserialize_bool bs pos =
     ebind (deserialize_bools bs pos) (\<lambda>(bitmap, pos).
     ebind (deserialize_bools bs pos) (\<lambda>(arr, pos).
     emap (\<lambda>a. (a, pos)) (na_make bitmap arr)))"

section \<open>Representation invariant and abstract view\<close>

definition na_wf :: "'a::default nullable_array \<Rightarrow> bool" where
  "na_wf a \<longleftrightarrow> list_all2 (\<lambda>e x. e \<or> x = default) (na_bitmap a) (na_data a)"

definition na_view :: "'a nullable_array \<Rightarrow> 'a option list" where
  "na_view a = map (\<lambda>(e, x). if e then Some x else None) (zip (na_bitmap a) (na_data a))"

lemma na_wf_length: "na_wf a \<Longrightarrow> length (na_bitmap a) = length (na_data a)"
  by (simp add: na_wf_def list_all2_lengthD)

lemma length_na_view: "na_wf a \<Longrightarrow> length (na_view a) = length (na_data a)"
  by (simp add: na_view_def na_wf_length)

lemma nth_na_view:
  "na_wf a \<Longrightarrow> i < length (na_data a) \<Longrightarrow>
     na_view a ! i = (if na_bitmap a ! i then Some (na_data a ! i) else None)"
  by (simp add: na_view_def na_wf_length)

text \<open>The representation is canonical: equal views come from equal arrays.\<close>

lemma na_view_inj:
  assumes "na_wf a" and "na_wf b" and "na_view a = na_view b"
  shows "a = (b :: 'a::default nullable_array)"
proof -
  have len: "length (na_data a) = length (na_data b)"
    using assms length_na_view by metis
  have "na_bitmap a ! i = na_bitmap b ! i \<and> na_data a ! i = na_data b ! i"
    if "i < length (na_data a)" for i
  proof -
    have v: "na_view a ! i = na_view b ! i" using assms(3) by simp
    have "na_bitmap a ! i \<or> na_data a ! i = default" "na_bitmap b ! i \<or> na_data b ! i = default"
      using assms(1,2) that len na_wf_length
      by (auto simp: na_wf_def list_all2_conv_all_nth)
    with v show ?thesis using assms(1,2) that len by (auto simp: nth_na_view split: if_splits)
  qed
  then have "na_bitmap a = na_bitmap b" "na_data a = na_data b"
    using len assms(1,2) by (auto intro!: nth_equalityI simp: na_wf_length)
  then show ?thesis by simp
qed

section \<open>The interface of a vector of optional values\<close>

locale opt_vector =
  fixes inv :: "'v \<Rightarrow> bool"
    and view :: "'v \<Rightarrow> 'a option list"
    and empty :: 'v
    and push :: "'a option \<Rightarrow> 'v \<Rightarrow> 'v"
    and get :: "'v \<Rightarrow> nat \<Rightarrow> 'a option res"
    and set_at :: "'v \<Rightarrow> nat \<Rightarrow> 'a option \<Rightarrow> ('a option \<times> 'v) res"
    and vsize :: "'v \<Rightarrow> nat"
  assumes inv_empty: "inv empty" and view_empty: "view empty = []"
    and inv_push: "inv v \<Longrightarrow> inv (push x v)"
    and view_push: "inv v \<Longrightarrow> view (push x v) = view v @ [x]"
    and get_view: "inv v \<Longrightarrow> get v i = (if i < length (view v) then Inr (view v ! i) else Inl Abort)"
    and set_view: "inv v \<Longrightarrow> i < length (view v) \<Longrightarrow>
          \<exists>v'. set_at v i x = Inr (view v ! i, v') \<and> inv v' \<and> view v' = (view v)[i := x]"
    and set_out: "inv v \<Longrightarrow> length (view v) \<le> i \<Longrightarrow> set_at v i x = Inl Abort"
    and size_view: "inv v \<Longrightarrow> vsize v = length (view v)"
begin

lemma push_all: "inv v \<Longrightarrow> inv (fold push xs v) \<and> view (fold push xs v) = view v @ xs"
  by (induction xs arbitrary: v) (simp_all add: inv_push view_push)

lemma built_by_push: "inv (fold push xs empty) \<and> view (fold push xs empty) = xs"
  using push_all [OF inv_empty] by (simp add: view_empty)

lemma get_push_last: "inv v \<Longrightarrow> get (push x v) (vsize v) = Inr x"
  by (simp add: get_view inv_push view_push size_view)

lemma get_push_old: "inv v \<Longrightarrow> i < vsize v \<Longrightarrow> get (push x v) i = get v i"
  by (simp add: get_view inv_push view_push size_view nth_append)

lemma size_push: "inv v \<Longrightarrow> vsize (push x v) = Suc (vsize v)"
  by (simp add: size_view inv_push view_push)

lemma get_set:
  assumes "inv v" and "i < vsize v"
  obtains v' where "set_at v i x = Inr (view v ! i, v')" and "get v' i = Inr x"
    and "\<forall>j. j \<noteq> i \<longrightarrow> get v' j = get v j" and "vsize v' = vsize v"
proof -
  from assms have lt: "i < length (view v)" by (simp add: size_view)
  then obtain v' where v': "set_at v i x = Inr (view v ! i, v')" "inv v'" "view v' = (view v)[i := x]"
    using set_view assms(1) by blast
  have "get v' i = Inr x" "\<forall>j. j \<noteq> i \<longrightarrow> get v' j = get v j" "vsize v' = vsize v"
    using v'(2,3) lt assms(1) by (auto simp: get_view size_view)
  with v'(1) that show thesis by blast
qed

text \<open>\<open>for(i = 0; i < size(); ++i) copy.push_back(get(i))\<close> rebuilds the vector.\<close>

lemma copy_loop:
  assumes "inv v"
  shows "efold (\<lambda>i w. emap (\<lambda>x. push x w) (get v i)) [0..<vsize v] empty =
     Inr (fold push (view v) empty)"
proof -
  have "efold (\<lambda>i w. emap (\<lambda>x. push x w) (get v i)) [0..<vsize v] empty =
      Inr (fold (\<lambda>i. push (view v ! i)) [0..<vsize v] empty)"
    by (rule efold_total) (simp add: get_view size_view assms)
  also have "fold (\<lambda>i. push (view v ! i)) [0..<vsize v] empty = fold push (map (nth (view v)) [0..<vsize v]) empty"
    by (simp add: fold_map comp_def)
  also have "map (nth (view v)) [0..<vsize v] = view v"
    by (simp add: size_view assms map_nth)
  finally show ?thesis .
qed

end

lemma na_empty_view: "na_wf na_empty" "na_view na_empty = []"
  by (simp_all add: na_empty_def na_wf_def na_view_def)

lemma na_push_back_view:
  "na_wf a \<Longrightarrow> na_wf (na_push_back x a) \<and> na_view (na_push_back x a) = na_view a @ [x]"
  using na_wf_length [of a]
  by (auto simp: na_push_back_def na_wf_def na_view_def list_all2_append split: option.split)

lemma na_get_view:
  "na_wf a \<Longrightarrow> na_get a i = (if i < length (na_view a) then Inr (na_view a ! i) else Inl Abort)"
  using na_wf_length [of a] by (simp add: na_get_def length_na_view nth_na_view)

lemma na_set_view:
  assumes "na_wf a" and "i < length (na_view a)"
  shows "\<exists>a'. na_set a i x = Inr (na_view a ! i, a') \<and> na_wf a' \<and> na_view a' = (na_view a)[i := x]"
proof -
  from assms have i: "i < length (na_data a)" "i < length (na_bitmap a)"
    by (simp_all add: length_na_view na_wf_length)
  define v where "v = (case x of Some v \<Rightarrow> v | None \<Rightarrow> default)"
  define a' where "a' = a\<lparr>na_data := (na_data a)[i := v], na_bitmap := (na_bitmap a)[i := x \<noteq> None]\<rparr>"
  have "na_set a i x = Inr (na_view a ! i, a')"
    using i assms by (simp add: na_set_def na_get_view a'_def v_def)
  moreover have wf': "na_wf a'"
    using assms(1) unfolding na_wf_def a'_def v_def
    by (auto intro!: list_all2_update_cong split: option.split)
  moreover have "na_view a' = (na_view a)[i := x]"
    using i by (simp add: na_view_def a'_def v_def zip_update map_update split: option.split)
  ultimately show ?thesis by blast
qed

interpretation na: opt_vector na_wf na_view na_empty na_push_back na_get na_set na_size
proof unfold_locales
  fix v :: "'a::default nullable_array" and i x
  assume "na_wf v" "length (na_view v) \<le> i"
  then show "na_set v i x = Inl Abort" by (simp add: na_set_def length_na_view)
qed (simp_all add: na_empty_view na_size_def length_na_view na_push_back_view na_get_view na_set_view)

text \<open>\<open>pop\<close> returns the value at the index and closes the gap.\<close>

lemma na_pop_view:
  assumes "na_wf a"
  shows "na_pop a i =
     (if i < length (na_view a)
      then Inr (na_view a ! i, a\<lparr>na_data := erase_at i (na_data a), na_bitmap := erase_at i (na_bitmap a)\<rparr>)
      else Inl Abort)"
    and "na_pop a i = Inr (x, a') \<Longrightarrow> na_wf a' \<and> na_view a' = erase_at i (na_view a)"
proof -
  show eq: "na_pop a i =
     (if i < length (na_view a)
      then Inr (na_view a ! i, a\<lparr>na_data := erase_at i (na_data a), na_bitmap := erase_at i (na_bitmap a)\<rparr>)
      else Inl Abort)"
    using assms by (simp add: na_pop_def na_get_view length_na_view)
  assume "na_pop a i = Inr (x, a')"
  then have "a' = a\<lparr>na_data := erase_at i (na_data a), na_bitmap := erase_at i (na_bitmap a)\<rparr>"
    unfolding eq by (simp split: if_splits)
  with assms na_wf_length [OF assms]
  show "na_wf a' \<and> na_view a' = erase_at i (na_view a)"
    by (auto simp: na_wf_def na_view_def erase_at_def take_zip drop_zip zip_append take_map drop_map
        intro!: list_all2_appendI list_all2_takeI list_all2_dropI)
qed

text \<open>
  An array the private constructor accepts has vectors of equal length; re-pushing its
  elements one by one gives a well-formed array with the same view, and the array itself
  when it was well-formed.
\<close>

definition na_rebuild :: "'a::default nullable_array \<Rightarrow> 'a nullable_array" where
  "na_rebuild a = fold na_push_back (na_view a) na_empty"

lemma na_rebuild: "na_wf (na_rebuild a)" "na_view (na_rebuild a) = na_view a"
  unfolding na_rebuild_def using na.built_by_push by auto

lemma na_rebuild_wf: "na_wf a \<Longrightarrow> na_rebuild a = a"
  using na_view_inj na_rebuild by metis

lemma na_get_shape:
  assumes "length (na_bitmap a) = length (na_data a)"
  shows "na_get a i = (if i < na_size a then Inr (na_view a ! i) else Inl Abort)"
  using assms by (simp add: na_get_def na_size_def na_view_def)

lemma na_make_shape: "na_make es xs = Inr a \<Longrightarrow> length (na_bitmap a) = length (na_data a)"
  by (auto simp: na_make_def split: if_splits)

section \<open>Serialization\<close>

text \<open>
  The element type of a nullable array is any value-initialisable type with a codec.
\<close>

definition na_ok :: "('a::default \<Rightarrow> bool) \<Rightarrow> 'a nullable_array \<Rightarrow> bool" where
  "na_ok ok a \<longleftrightarrow> na_wf a \<and> ok_bools (na_bitmap a)
     \<and> list_all (\<lambda>(e, x). e \<longrightarrow> ok x) (zip (na_bitmap a) (na_data a))"

definition na_ok_bool :: "bool nullable_array \<Rightarrow> bool" where
  "na_ok_bool a \<longleftrightarrow> na_wf a \<and> ok_bools (na_bitmap a)"

lemma na_ok_view:
  "na_ok ok a \<longleftrightarrow> na_wf a \<and> length (na_view a) < 2 ^ 64 \<and> (\<forall>x. Some x \<in> set (na_view a) \<longrightarrow> ok x)"
  "na_ok_bool b \<longleftrightarrow> na_wf b \<and> length (na_view b) < 2 ^ 64"
proof -
  have mem: "Some x \<in> set (map (\<lambda>(e, x). if e then Some x else None) ps) \<longleftrightarrow> (True, x) \<in> set ps"
    for x :: 'a and ps by (induction ps) (auto split: if_splits)
  have "list_all (\<lambda>(e, x). e \<longrightarrow> ok x) ps \<longleftrightarrow> (\<forall>x. Some x \<in> set (map (\<lambda>(e, x). if e then Some x else None) ps) \<longrightarrow> ok x)" for ps
    unfolding mem by (auto simp: list_all_iff)
  then show "na_ok ok a \<longleftrightarrow> na_wf a \<and> length (na_view a) < 2 ^ 64 \<and> (\<forall>x. Some x \<in> set (na_view a) \<longrightarrow> ok x)"
    by (auto simp: na_ok_def ok_bools_def na_view_def na_wf_length)
  show "na_ok_bool b \<longleftrightarrow> na_wf b \<and> length (na_view b) < 2 ^ 64"
    by (auto simp: na_ok_bool_def ok_bools_def na_view_def na_wf_length)
qed

locale element_codec = framed_codec ser des ok
  for ser :: "'a::default \<Rightarrow> bytes" and des :: "bytes \<Rightarrow> nat \<Rightarrow> ('a \<times> nat) res" and ok :: "'a \<Rightarrow> bool"
begin

abbreviation body :: "bool list \<Rightarrow> 'a list \<Rightarrow> bytes" where
  "body es xs \<equiv> concat (map (\<lambda>(e, x). if e then ser x else []) (zip es xs))"

lemma na_read_roundtrip:
  assumes "list_all2 (\<lambda>e x. e \<or> x = default) es xs"
    and "list_all (\<lambda>(e, x). e \<longrightarrow> ok x) (zip es xs)"
  shows "na_read (des (pre @ body es xs @ suf)) es (length pre) =
     Inr (xs, length pre + length (body es xs))"
  using assms
proof (induction es xs arbitrary: pre rule: list_all2_induct)
  case (Cons e es x xs)
  show ?case
  proof (cases e)
    case True
    have "des (pre @ ser x @ body es xs @ suf) (length pre) = Inr (x, length pre + length (ser x))"
      using Cons.prems True by (intro roundtrip) simp
    moreover have "na_read (des ((pre @ ser x) @ body es xs @ suf)) es (length (pre @ ser x)) =
        Inr (xs, length (pre @ ser x) + length (body es xs))"
      using Cons.prems by (intro Cons.IH) simp
    ultimately show ?thesis using True by (simp del: length_concat)
  next
    case False
    with Cons show ?thesis by (simp del: length_concat)
  qed
qed simp

lemma na_read_in_bounds:
  "na_read (des bs) es pos = Inr (xs, pos') \<Longrightarrow> pos \<le> length bs \<Longrightarrow> pos \<le> pos' \<and> pos' \<le> length bs"
proof (induction es arbitrary: pos xs)
  case (Cons e es)
  show ?case
  proof (cases e)
    case True
    with Cons.prems obtain x p ys where x: "des bs pos = Inr (x, p)"
      and ys: "na_read (des bs) es p = Inr (ys, pos')"
      by (auto simp: ebind_eq_Inr emap_eq_Inr)
    from in_bounds [OF x] Cons.IH [OF ys] show ?thesis by auto
  next
    case False
    with Cons.prems obtain ys where "na_read (des bs) es pos = Inr (ys, pos')"
      by (auto simp: emap_eq_Inr)
    from Cons.IH [OF this Cons.prems(2)] show ?thesis .
  qed
qed simp

lemma na_read_no_ub: "\<not> is_ub (na_read (des bs) es pos)"
  by (induction es arbitrary: pos) (auto simp: is_ub_ebind no_ub)

end

sublocale element_codec \<subseteq> arr: framed_codec "na_serialize ser" "na_deserialize des" "na_ok ok"
proof unfold_locales
  fix a :: "'a nullable_array" and pre suf
  assume ok: "na_ok ok a"
  let ?bits = "serialize_bools (na_bitmap a)" and ?body = "body (na_bitmap a) (na_data a)"
  have "deserialize_bools (pre @ ?bits @ (?body @ suf)) (length pre) =
      Inr (na_bitmap a, length pre + length ?bits)"
    using ok by (intro bools_codec.roundtrip) (simp add: na_ok_def)
  moreover have "na_read (des ((pre @ ?bits) @ ?body @ suf)) (na_bitmap a) (length (pre @ ?bits)) =
      Inr (na_data a, length (pre @ ?bits) + length ?body)"
    using ok by (intro na_read_roundtrip) (simp_all add: na_ok_def na_wf_def)
  moreover have "na_make (na_bitmap a) (na_data a) = Inr a"
    using ok na_wf_length by (auto simp: na_make_def na_ok_def)
  ultimately show "na_deserialize des (pre @ na_serialize ser a @ suf) (length pre) =
      Inr (a, length pre + length (na_serialize ser a))"
    by (simp add: na_deserialize_def na_serialize_def del: length_concat)
next
  fix bs pos pos' and a :: "'a nullable_array"
  assume "na_deserialize des bs pos = Inr (a, pos')"
  then obtain bitmap p arr where b: "deserialize_bools bs pos = Inr (bitmap, p)"
    and r: "na_read (des bs) bitmap p = Inr (arr, pos')"
    by (auto simp: na_deserialize_def ebind_eq_Inr emap_eq_Inr)
  from bools_codec.in_bounds [OF b] na_read_in_bounds [OF r] show "pos \<le> pos' \<and> pos' \<le> length bs"
    by auto
next
  fix bs pos
  show "\<not> is_ub (na_deserialize des bs pos)"
    by (auto simp: na_deserialize_def is_ub_ebind bools_codec.no_ub na_read_no_ub na_make_def)
qed

interpretation int_elem: element_codec serialize_int deserialize_int "\<lambda>_. True"
  by unfold_locales

interpretation double_elem: element_codec serialize_double deserialize_double "\<lambda>_. True"
  by unfold_locales

interpretation string_elem: element_codec serialize_string deserialize_string ok_string
  by unfold_locales

interpretation bool_arr: framed_codec na_serialize_bool na_deserialize_bool na_ok_bool
proof unfold_locales
  fix a :: "bool nullable_array" and pre suf
  assume ok: "na_ok_bool a"
  let ?bits = "serialize_bools (na_bitmap a)" and ?data = "serialize_bools (na_data a)"
  have "deserialize_bools (pre @ ?bits @ (?data @ suf)) (length pre) =
      Inr (na_bitmap a, length pre + length ?bits)"
    using ok by (intro bools_codec.roundtrip) (simp add: na_ok_bool_def)
  moreover have "deserialize_bools ((pre @ ?bits) @ ?data @ suf) (length (pre @ ?bits)) =
      Inr (na_data a, length (pre @ ?bits) + length ?data)"
    using ok na_wf_length [of a]
    by (intro bools_codec.roundtrip) (simp add: na_ok_bool_def ok_bools_def)
  moreover have "na_make (na_bitmap a) (na_data a) = Inr a"
    using ok na_wf_length by (auto simp: na_make_def na_ok_bool_def)
  ultimately show "na_deserialize_bool (pre @ na_serialize_bool a @ suf) (length pre) =
      Inr (a, length pre + length (na_serialize_bool a))"
    by (simp add: na_deserialize_bool_def na_serialize_bool_def)
next
  fix bs pos pos' and a :: "bool nullable_array"
  assume "na_deserialize_bool bs pos = Inr (a, pos')"
  then obtain bitmap p arr where b: "deserialize_bools bs pos = Inr (bitmap, p)"
    and r: "deserialize_bools bs p = Inr (arr, pos')"
    by (auto simp: na_deserialize_bool_def ebind_eq_Inr emap_eq_Inr)
  from bools_codec.in_bounds [OF b] bools_codec.in_bounds [OF r]
  show "pos \<le> pos' \<and> pos' \<le> length bs" by simp
next
  fix bs pos
  show "\<not> is_ub (na_deserialize_bool bs pos)"
    by (auto simp: na_deserialize_bool_def is_ub_ebind bools_codec.no_ub na_make_def)
qed

section \<open>Properties\<close>

text \<open>
  \<open>set\<close> returns the old value, and afterwards a read at its index gives the new value while
  every other read, in range or not, is as before.
\<close>

lemma array_set_get:
  assumes "na_wf a" and "i < na_size a"
  shows "\<exists>old a'. na_set a i x = Inr (old, a') \<and> na_get a i = Inr old \<and> na_wf a'
     \<and> (\<forall>j. na_get a' j = (if j = i then Inr x else na_get a j))"
proof -
  obtain a' where "na_set a i x = Inr (na_view a ! i, a')" "na_wf a'" "na_view a' = (na_view a)[i := x]"
    using na.set_view [OF assms(1), of i x] assms by (auto simp: na.size_view)
  then show ?thesis using assms by (auto simp: na.get_view na.size_view)
qed

text \<open>A \<open>pop\<close> moves the values after its index up by one.\<close>

lemma array_pop_shift:
  assumes "na_wf a"
  shows "if i < na_size a
     then \<exists>v a'. na_pop a i = Inr (v, a') \<and> na_get a i = Inr v \<and> na_wf a' \<and> Suc (na_size a') = na_size a
        \<and> (\<forall>j. na_get a' j = na_get a (if j < i then j else Suc j))
     else na_pop a i = Inl Abort"
proof (cases "i < na_size a")
  case True
  then obtain v a' where pop: "na_pop a i = Inr (v, a')" "v = na_view a ! i"
    using na_pop_view(1) [OF assms, of i] assms by (simp add: na.size_view)
  then have a': "na_wf a'" "na_view a' = erase_at i (na_view a)"
    using na_pop_view(2) [OF assms] by auto
  then have "na_get a' j = na_get a (if j < i then j else Suc j)" for j
    using True assms by (auto simp: na.get_view na.size_view erase_at_def nth_append min_def)
  with True pop a' assms show ?thesis by (simp add: na.get_view na.size_view length_erase_at)
next
  case False
  then show ?thesis using na_pop_view(1) [OF assms, of i] assms by (simp add: na.size_view)
qed

end
