(* ===== verification/Column.thy ===== *)
theory Column
  imports NullableArray
begin

text \<open>
  \<open>include/data/column.h\<close> and \<open>src/data/column.cpp\<close>: the four column classes. The class
  hierarchy is a datatype with one constructor per subclass; a virtual call is a case
  distinction, and the base-class versions that \<open>exit_if_not(false)\<close> are its last cases.
\<close>

section \<open>Cells\<close>

text \<open>
  A cell is the \<open>std::variant\<close> of \<open>Row\<close>, and the overload set of \<open>Column::push_back\<close>
  and \<open>Fielder::accept\<close>, in the order of the variant's alternatives.
\<close>

datatype cell =
    IntCell "i32 option"
  | FloatCell "f64 option"
  | BoolCell "bool option"
  | StringCell "string option"

fun cell_type :: "cell \<Rightarrow> char" where
  "cell_type (IntCell _) = CHR ''I''"
| "cell_type (FloatCell _) = CHR ''F''"
| "cell_type (BoolCell _) = CHR ''B''"
| "cell_type (StringCell _) = CHR ''S''"

text \<open>\<open>operator==\<close> on \<open>double\<close>: a NaN equals nothing, the two zeros are equal.\<close>

definition f64_is_nan :: "f64 \<Rightarrow> bool" where
  "f64_is_nan w \<longleftrightarrow> w AND 0x7FF0000000000000 = 0x7FF0000000000000 \<and> w AND 0x000FFFFFFFFFFFFF \<noteq> 0"

definition f64_is_zero :: "f64 \<Rightarrow> bool" where
  "f64_is_zero w \<longleftrightarrow> w AND 0x7FFFFFFFFFFFFFFF = 0"

definition f64_eq :: "f64 \<Rightarrow> f64 \<Rightarrow> bool" where
  "f64_eq a b \<longleftrightarrow> \<not> f64_is_nan a \<and> \<not> f64_is_nan b \<and> (a = b \<or> f64_is_zero a \<and> f64_is_zero b)"

lemma f64_eq_refl_iff: "f64_eq a a \<longleftrightarrow> \<not> f64_is_nan a"
  by (auto simp: f64_eq_def)

lemma f64_eq_sym: "f64_eq a b \<Longrightarrow> f64_eq b a"
  by (auto simp: f64_eq_def)

section \<open>Columns\<close>

datatype column =
    IntColumn "i32 nullable_array"
  | FloatColumn "f64 nullable_array"
  | BoolColumn "bool nullable_array"
  | StringColumn "string nullable_array"

fun col_get_type :: "column \<Rightarrow> char" where
  "col_get_type (IntColumn _) = CHR ''I''"
| "col_get_type (FloatColumn _) = CHR ''F''"
| "col_get_type (BoolColumn _) = CHR ''B''"
| "col_get_type (StringColumn _) = CHR ''S''"

text \<open>The type converters return the column's own data, or a null pointer.\<close>

fun as_int :: "column \<Rightarrow> i32 nullable_array option" where
  "as_int (IntColumn a) = Some a"
| "as_int _ = None"

fun as_float :: "column \<Rightarrow> f64 nullable_array option" where
  "as_float (FloatColumn a) = Some a"
| "as_float _ = None"

fun as_bool :: "column \<Rightarrow> bool nullable_array option" where
  "as_bool (BoolColumn a) = Some a"
| "as_bool _ = None"

fun as_string :: "column \<Rightarrow> string nullable_array option" where
  "as_string (StringColumn a) = Some a"
| "as_string _ = None"

text \<open>
  The members of the four subclasses, over the array that is their only data.
\<close>

definition int_column_push_back :: "i32 option \<Rightarrow> i32 nullable_array \<Rightarrow> i32 nullable_array" where
  [simp]: "int_column_push_back val col = na_push_back val col"

definition int_column_get :: "i32 nullable_array \<Rightarrow> nat \<Rightarrow> i32 option res" where
  [simp]: "int_column_get col idx = na_get col idx"

definition int_column_set :: "i32 nullable_array \<Rightarrow> nat \<Rightarrow> i32 option \<Rightarrow> (i32 option \<times> i32 nullable_array) res" where
  [simp]: "int_column_set col idx val = na_set col idx val"

definition int_column_size :: "i32 nullable_array \<Rightarrow> nat" where
  [simp]: "int_column_size col = na_size col"

definition int_column_equals :: "i32 nullable_array \<Rightarrow> i32 nullable_array \<Rightarrow> bool" where
  [simp]: "int_column_equals col other = na_equals (=) col other"

definition float_column_push_back :: "f64 option \<Rightarrow> f64 nullable_array \<Rightarrow> f64 nullable_array" where
  [simp]: "float_column_push_back val col = na_push_back val col"

definition float_column_get :: "f64 nullable_array \<Rightarrow> nat \<Rightarrow> f64 option res" where
  [simp]: "float_column_get col idx = na_get col idx"

definition float_column_set :: "f64 nullable_array \<Rightarrow> nat \<Rightarrow> f64 option \<Rightarrow> (f64 option \<times> f64 nullable_array) res" where
  [simp]: "float_column_set col idx val = na_set col idx val"

definition float_column_size :: "f64 nullable_array \<Rightarrow> nat" where
  [simp]: "float_column_size col = na_size col"

definition float_column_equals :: "f64 nullable_array \<Rightarrow> f64 nullable_array \<Rightarrow> bool" where
  [simp]: "float_column_equals col other = na_equals f64_eq col other"

definition bool_column_push_back :: "bool option \<Rightarrow> bool nullable_array \<Rightarrow> bool nullable_array" where
  [simp]: "bool_column_push_back val col = na_push_back val col"

definition bool_column_get :: "bool nullable_array \<Rightarrow> nat \<Rightarrow> bool option res" where
  [simp]: "bool_column_get col idx = na_get col idx"

definition bool_column_set :: "bool nullable_array \<Rightarrow> nat \<Rightarrow> bool option \<Rightarrow> (bool option \<times> bool nullable_array) res" where
  [simp]: "bool_column_set col idx val = na_set col idx val"

definition bool_column_size :: "bool nullable_array \<Rightarrow> nat" where
  [simp]: "bool_column_size col = na_size col"

definition bool_column_equals :: "bool nullable_array \<Rightarrow> bool nullable_array \<Rightarrow> bool" where
  [simp]: "bool_column_equals col other = na_equals (=) col other"

definition string_column_push_back :: "string option \<Rightarrow> string nullable_array \<Rightarrow> string nullable_array" where
  [simp]: "string_column_push_back val col = na_push_back val col"

definition string_column_get :: "string nullable_array \<Rightarrow> nat \<Rightarrow> string option res" where
  [simp]: "string_column_get col idx = na_get col idx"

definition string_column_set :: "string nullable_array \<Rightarrow> nat \<Rightarrow> string option \<Rightarrow> (string option \<times> string nullable_array) res" where
  [simp]: "string_column_set col idx val = na_set col idx val"

definition string_column_size :: "string nullable_array \<Rightarrow> nat" where
  [simp]: "string_column_size col = na_size col"

definition string_column_equals :: "string nullable_array \<Rightarrow> string nullable_array \<Rightarrow> bool" where
  [simp]: "string_column_equals col other = na_equals (=) col other"

text \<open>The virtual methods; the last case of \<open>push_back\<close> is that of the base class.\<close>

fun col_push_back :: "cell \<Rightarrow> column \<Rightarrow> column res" where
  "col_push_back (IntCell v) (IntColumn a) = Inr (IntColumn (int_column_push_back v a))"
| "col_push_back (FloatCell v) (FloatColumn a) = Inr (FloatColumn (float_column_push_back v a))"
| "col_push_back (BoolCell v) (BoolColumn a) = Inr (BoolColumn (bool_column_push_back v a))"
| "col_push_back (StringCell v) (StringColumn a) = Inr (StringColumn (string_column_push_back v a))"
| "col_push_back _ _ = Inl Abort"

fun col_get :: "column \<Rightarrow> nat \<Rightarrow> cell res" where
  "col_get (IntColumn a) idx = emap IntCell (int_column_get a idx)"
| "col_get (FloatColumn a) idx = emap FloatCell (float_column_get a idx)"
| "col_get (BoolColumn a) idx = emap BoolCell (bool_column_get a idx)"
| "col_get (StringColumn a) idx = emap StringCell (string_column_get a idx)"

text \<open>
  The typed \<open>set\<close> of a subclass. There is no virtual \<open>set\<close>: a caller reaches it through a
  type converter, whose null result it does not check, so a value of another type is a
  call through a null pointer.
\<close>

fun col_set :: "column \<Rightarrow> nat \<Rightarrow> cell \<Rightarrow> (cell \<times> column) res" where
  "col_set (IntColumn a) idx (IntCell v) = emap (map_prod IntCell IntColumn) (int_column_set a idx v)"
| "col_set (FloatColumn a) idx (FloatCell v) = emap (map_prod FloatCell FloatColumn) (float_column_set a idx v)"
| "col_set (BoolColumn a) idx (BoolCell v) = emap (map_prod BoolCell BoolColumn) (bool_column_set a idx v)"
| "col_set (StringColumn a) idx (StringCell v) = emap (map_prod StringCell StringColumn) (string_column_set a idx v)"
| "col_set _ _ _ = Inl (Undefined NullPointer)"

fun col_size :: "column \<Rightarrow> nat" where
  "col_size (IntColumn a) = int_column_size a"
| "col_size (FloatColumn a) = float_column_size a"
| "col_size (BoolColumn a) = bool_column_size a"
| "col_size (StringColumn a) = string_column_size a"

fun col_equals :: "column \<Rightarrow> column \<Rightarrow> bool" where
  "col_equals (IntColumn a) (IntColumn b) = int_column_equals a b"
| "col_equals (FloatColumn a) (FloatColumn b) = float_column_equals a b"
| "col_equals (BoolColumn a) (BoolColumn b) = bool_column_equals a b"
| "col_equals (StringColumn a) (StringColumn b) = string_column_equals a b"
| "col_equals _ _ = False"

text \<open>\<open>std::hash\<close> of the four element types is a parameter: the standard fixes no values.\<close>

record std_hash =
  hash_int :: "i32 \<Rightarrow> u64"
  hash_double :: "f64 \<Rightarrow> u64"
  hash_bool :: "bool \<Rightarrow> u64"
  hash_string :: "string \<Rightarrow> u64"

definition int_column_hash :: "std_hash \<Rightarrow> i32 nullable_array \<Rightarrow> u64" where
  [simp]: "int_column_hash h col = 500 + of_char CHR ''I'' + na_hash (hash_int h) col"

definition float_column_hash :: "std_hash \<Rightarrow> f64 nullable_array \<Rightarrow> u64" where
  [simp]: "float_column_hash h col = 500 + of_char CHR ''F'' + na_hash (hash_double h) col"

definition bool_column_hash :: "std_hash \<Rightarrow> bool nullable_array \<Rightarrow> u64" where
  [simp]: "bool_column_hash h col = 500 + of_char CHR ''B'' + na_hash (hash_bool h) col"

definition string_column_hash :: "std_hash \<Rightarrow> string nullable_array \<Rightarrow> u64" where
  [simp]: "string_column_hash h col = 500 + of_char CHR ''S'' + na_hash (hash_string h) col"

fun col_hash :: "std_hash \<Rightarrow> column \<Rightarrow> u64" where
  "col_hash h (IntColumn a) = int_column_hash h a"
| "col_hash h (FloatColumn a) = float_column_hash h a"
| "col_hash h (BoolColumn a) = bool_column_hash h a"
| "col_hash h (StringColumn a) = string_column_hash h a"

text \<open>The variadic constructors push their arguments one by one.\<close>

definition int_column_of :: "i32 list \<Rightarrow> column" where
  "int_column_of vs = IntColumn (fold (\<lambda>v. na_push_back (Some v)) vs na_empty)"

definition float_column_of :: "f64 list \<Rightarrow> column" where
  "float_column_of vs = FloatColumn (fold (\<lambda>v. na_push_back (Some v)) vs na_empty)"

definition string_column_of :: "string list \<Rightarrow> column" where
  "string_column_of vs = StringColumn (fold (\<lambda>v. na_push_back (Some v)) vs na_empty)"

definition int_column_serialize :: "i32 nullable_array \<Rightarrow> bytes" where
  [simp]: "int_column_serialize col = na_serialize serialize_int col"

definition float_column_serialize :: "f64 nullable_array \<Rightarrow> bytes" where
  [simp]: "float_column_serialize col = na_serialize serialize_double col"

definition bool_column_serialize :: "bool nullable_array \<Rightarrow> bytes" where
  [simp]: "bool_column_serialize col = na_serialize_bool col"

definition string_column_serialize :: "string nullable_array \<Rightarrow> bytes" where
  [simp]: "string_column_serialize col = na_serialize serialize_string col"

fun col_serialize :: "column \<Rightarrow> bytes" where
  "col_serialize (IntColumn a) = int_column_serialize a"
| "col_serialize (FloatColumn a) = float_column_serialize a"
| "col_serialize (BoolColumn a) = bool_column_serialize a"
| "col_serialize (StringColumn a) = string_column_serialize a"

text \<open>
  A column is deserialized as a nullable array whose elements are then pushed one by one
  onto an empty column.
\<close>

definition push_elements :: "('a option \<Rightarrow> cell) \<Rightarrow> column \<Rightarrow> 'a nullable_array \<times> nat \<Rightarrow> (column \<times> nat) res" where
  "push_elements mk c0 r = (case r of (arr, pos) \<Rightarrow>
     emap (\<lambda>c. (c, pos))
       (efold (\<lambda>i c. ebind (na_get arr i) (\<lambda>v. col_push_back (mk v) c)) [0..<na_size arr] c0))"

definition deserialize_int_column :: "bytes \<Rightarrow> nat \<Rightarrow> (column \<times> nat) res" where
  "deserialize_int_column bs pos =
     ebind (na_deserialize deserialize_int bs pos) (push_elements IntCell (IntColumn na_empty))"

definition deserialize_float_column :: "bytes \<Rightarrow> nat \<Rightarrow> (column \<times> nat) res" where
  "deserialize_float_column bs pos =
     ebind (na_deserialize deserialize_double bs pos) (push_elements FloatCell (FloatColumn na_empty))"

definition deserialize_bool_column :: "bytes \<Rightarrow> nat \<Rightarrow> (column \<times> nat) res" where
  "deserialize_bool_column bs pos =
     ebind (na_deserialize_bool bs pos) (push_elements BoolCell (BoolColumn na_empty))"

definition deserialize_string_column :: "bytes \<Rightarrow> nat \<Rightarrow> (column \<times> nat) res" where
  "deserialize_string_column bs pos =
     ebind (na_deserialize deserialize_string bs pos) (push_elements StringCell (StringColumn na_empty))"

section \<open>Invariant and view\<close>

fun col_wf :: "column \<Rightarrow> bool" where
  "col_wf (IntColumn a) = na_wf a"
| "col_wf (FloatColumn a) = na_wf a"
| "col_wf (BoolColumn a) = na_wf a"
| "col_wf (StringColumn a) = na_wf a"

fun col_view :: "column \<Rightarrow> cell list" where
  "col_view (IntColumn a) = map IntCell (na_view a)"
| "col_view (FloatColumn a) = map FloatCell (na_view a)"
| "col_view (BoolColumn a) = map BoolCell (na_view a)"
| "col_view (StringColumn a) = map StringCell (na_view a)"

text \<open>A column whose sizes the 64-bit length fields can hold, as any column in memory is.\<close>

fun col_ok :: "column \<Rightarrow> bool" where
  "col_ok (IntColumn a) = na_ok (\<lambda>_. True) a"
| "col_ok (FloatColumn a) = na_ok (\<lambda>_. True) a"
| "col_ok (BoolColumn a) = na_ok_bool a"
| "col_ok (StringColumn a) = na_ok ok_string a"

lemma col_ok_wf: "col_ok c \<Longrightarrow> col_wf c"
  by (cases c) (auto simp: na_ok_def na_ok_bool_def)

lemma col_ok_view:
  "col_ok c \<longleftrightarrow> col_wf c \<and> length (col_view c) < 2 ^ 64 \<and> (\<forall>s. StringCell (Some s) \<in> set (col_view c) \<longrightarrow> ok_string s)"
  by (cases c) (auto simp: na_ok_view)

lemma col_size_view: "col_wf c \<Longrightarrow> col_size c = length (col_view c)"
  by (cases c) (simp_all add: na.size_view)

lemma col_get_view:
  "col_wf c \<Longrightarrow> col_get c i = (if i < col_size c then Inr (col_view c ! i) else Inl Abort)"
  by (cases c) (simp_all add: na.get_view na.size_view)

lemma col_view_type: "x \<in> set (col_view c) \<Longrightarrow> cell_type x = col_get_type c"
  by (cases c) auto

text \<open>What the variadic constructors hold.\<close>

lemma fold_push_some: "fold (\<lambda>v. na_push_back (Some v)) vs a = fold na_push_back (map Some vs) a"
  by (induction vs arbitrary: a) simp_all

lemma column_of_view:
  "col_wf (int_column_of vs)" "col_view (int_column_of vs) = map (\<lambda>v. IntCell (Some v)) vs"
  "col_get_type (int_column_of vs) = CHR ''I''"
  "col_wf (string_column_of ss)" "col_view (string_column_of ss) = map (\<lambda>v. StringCell (Some v)) ss"
  "col_get_type (string_column_of ss) = CHR ''S''"
  using na.built_by_push [of "map Some vs"] na.built_by_push [of "map Some ss"]
  by (simp_all add: int_column_of_def string_column_of_def fold_push_some comp_def)

lemma col_push_back_view:
  assumes "col_wf c"
  shows "cell_type x = col_get_type c \<Longrightarrow>
      \<exists>c'. col_push_back x c = Inr c' \<and> col_wf c' \<and> col_get_type c' = col_get_type c
        \<and> col_view c' = col_view c @ [x]"
    and "cell_type x \<noteq> col_get_type c \<Longrightarrow> col_push_back x c = Inl Abort"
  using assms by (cases x; cases c; simp add: na.inv_push na.view_push)+

lemma col_set_view:
  assumes "col_wf c" and "cell_type x = col_get_type c"
  shows "i < col_size c \<Longrightarrow>
      \<exists>c'. col_set c i x = Inr (col_view c ! i, c') \<and> col_wf c' \<and> col_get_type c' = col_get_type c
        \<and> col_view c' = (col_view c)[i := x]"
    and "col_size c \<le> i \<Longrightarrow> col_set c i x = Inl Abort"
proof -
  assume i: "i < col_size c"
  show "\<exists>c'. col_set c i x = Inr (col_view c ! i, c') \<and> col_wf c' \<and> col_get_type c' = col_get_type c
        \<and> col_view c' = (col_view c)[i := x]"
  proof (cases c)
    case (IntColumn a)
    with assms obtain v where "x = IntCell v" by (cases x) auto
    with IntColumn assms(1) i na.set_view [of a i v] show ?thesis
      by (auto simp: na.size_view map_update)
  next
    case (FloatColumn a)
    with assms obtain v where "x = FloatCell v" by (cases x) auto
    with FloatColumn assms(1) i na.set_view [of a i v] show ?thesis
      by (auto simp: na.size_view map_update)
  next
    case (BoolColumn a)
    with assms obtain v where "x = BoolCell v" by (cases x) auto
    with BoolColumn assms(1) i na.set_view [of a i v] show ?thesis
      by (auto simp: na.size_view map_update)
  next
    case (StringColumn a)
    with assms obtain v where "x = StringCell v" by (cases x) auto
    with StringColumn assms(1) i na.set_view [of a i v] show ?thesis
      by (auto simp: na.size_view map_update)
  qed
next
  assume "col_size c \<le> i"
  with assms show "col_set c i x = Inl Abort"
    by (cases c; cases x) (simp_all add: na.set_out na.size_view)
qed

lemma inj_cells [simp]: "inj IntCell" "inj FloatCell" "inj BoolCell" "inj StringCell"
  by (simp_all add: inj_def)

lemma col_view_inj:
  "col_wf c \<Longrightarrow> col_wf d \<Longrightarrow> col_get_type c = col_get_type d \<Longrightarrow> col_view c = col_view d \<Longrightarrow> c = d"
  by (cases c; cases d) (auto intro: na_view_inj simp: inj_map_eq_map)

section \<open>Column codecs\<close>

lemma push_elements_rebuild:
  assumes shape: "length (na_bitmap arr) = length (na_data arr)"
    and mk: "\<And>v a. col_push_back (mk v) (con a) = Inr (con (na_push_back v a))"
  shows "push_elements mk (con na_empty) (arr, pos) = Inr (con (na_rebuild arr), pos)"
proof -
  have fold_con: "efold (\<lambda>i c. ebind (na_get arr i) (\<lambda>v. col_push_back (mk v) c)) is (con a) =
      Inr (con (fold na_push_back (map (nth (na_view arr)) is) a))"
    if "\<forall>i\<in>set is. i < na_size arr" for "is" a
    using that by (induction "is" arbitrary: a) (simp_all add: na_get_shape shape mk)
  have "map (nth (na_view arr)) [0..<na_size arr] = na_view arr"
    using shape map_nth [of "na_view arr"] by (simp add: na_size_def na_view_def)
  with fold_con [of "[0..<na_size arr]" na_empty] show ?thesis
    by (simp add: push_elements_def na_rebuild_def)
qed

lemmas push_rebuild =
  push_elements_rebuild [where mk = IntCell and con = IntColumn, OF _ col_push_back.simps(1) [unfolded int_column_push_back_def]]
  push_elements_rebuild [where mk = FloatCell and con = FloatColumn, OF _ col_push_back.simps(2) [unfolded float_column_push_back_def]]
  push_elements_rebuild [where mk = BoolCell and con = BoolColumn, OF _ col_push_back.simps(3) [unfolded bool_column_push_back_def]]
  push_elements_rebuild [where mk = StringCell and con = StringColumn, OF _ col_push_back.simps(4) [unfolded string_column_push_back_def]]

lemma na_deserialize_shape:
  "na_deserialize des bs pos = Inr (a, p) \<Longrightarrow> length (na_bitmap a) = length (na_data a)"
  "na_deserialize_bool bs pos = Inr (b, p) \<Longrightarrow> length (na_bitmap b) = length (na_data b)"
  by (auto simp: na_deserialize_def na_deserialize_bool_def ebind_eq_Inr emap_eq_Inr
      dest: na_make_shape)

text \<open>
  Each typed column decoder is the decoder of its array followed by the re-push loop, so it
  is a codec whenever the array decoder is.
\<close>

lemma column_codec:
  assumes arr: "framed_codec ser des okA"
    and shape: "\<And>bs pos a p. des bs pos = Inr (a, p) \<Longrightarrow> length (na_bitmap a) = length (na_data a)"
    and push: "\<And>a pos. length (na_bitmap a) = length (na_data a) \<Longrightarrow>
                 push_elements mk c0 (a, pos) = Inr (con (na_rebuild a), pos)"
    and ok: "\<And>c. okC c \<Longrightarrow> \<exists>a. c = con a \<and> okA a"
    and okA_wf: "\<And>a. okA a \<Longrightarrow> na_wf a"
    and ser: "\<And>a. serC (con a) = ser a"
    and desC: "\<And>bs pos. desC bs pos = ebind (des bs pos) (push_elements mk c0)"
  shows "framed_codec serC desC okC"
proof -
  have desC': "desC bs pos = emap (map_prod (\<lambda>a. con (na_rebuild a)) id) (des bs pos)" for bs pos
    unfolding desC using shape push by (cases "des bs pos") auto
  show ?thesis
  proof (unfold_locales)
    fix c pre suf
    assume "okC c"
    then obtain a where a: "c = con a" "okA a" using ok by blast
    with framed_codec.axioms(1) [OF arr]
    have "des (pre @ ser a @ suf) (length pre) = Inr (a, length pre + length (ser a))"
      by (simp add: codec.roundtrip)
    moreover have "na_rebuild a = a" using a(2) by (intro na_rebuild_wf okA_wf)
    ultimately show "desC (pre @ serC c @ suf) (length pre) = Inr (c, length pre + length (serC c))"
      by (simp add: desC' ser a(1))
  next
    fix data pos c pos'
    assume "desC data pos = Inr (c, pos')"
    then obtain a where "des data pos = Inr (a, pos')" by (auto simp: desC' emap_eq_Inr)
    with arr show "pos \<le> pos' \<and> pos' \<le> length data" by (rule framed_codec.in_bounds)
  next
    fix data pos
    show "\<not> is_ub (desC data pos)" using arr by (simp add: desC' framed_codec.no_ub)
  qed
qed

definition ok_of_type :: "char \<Rightarrow> column \<Rightarrow> bool" where
  "ok_of_type t c \<longleftrightarrow> col_ok c \<and> col_get_type c = t"

interpretation int_col: framed_codec col_serialize deserialize_int_column "ok_of_type CHR ''I''"
proof (rule column_codec [where con = IntColumn, OF int_elem.arr.framed_codec_axioms])
  fix c assume "ok_of_type CHR ''I'' c"
  then show "\<exists>a. c = IntColumn a \<and> na_ok (\<lambda>_. True) a" by (cases c) (auto simp: ok_of_type_def)
qed (auto simp: na_deserialize_shape push_rebuild na_ok_def deserialize_int_column_def)

interpretation float_col: framed_codec col_serialize deserialize_float_column "ok_of_type CHR ''F''"
proof (rule column_codec [where con = FloatColumn, OF double_elem.arr.framed_codec_axioms])
  fix c assume "ok_of_type CHR ''F'' c"
  then show "\<exists>a. c = FloatColumn a \<and> na_ok (\<lambda>_. True) a" by (cases c) (auto simp: ok_of_type_def)
qed (auto simp: na_deserialize_shape push_rebuild na_ok_def deserialize_float_column_def)

interpretation bool_col: framed_codec col_serialize deserialize_bool_column "ok_of_type CHR ''B''"
proof (rule column_codec [where con = BoolColumn, OF bool_arr.framed_codec_axioms])
  fix c assume "ok_of_type CHR ''B'' c"
  then show "\<exists>a. c = BoolColumn a \<and> na_ok_bool a" by (cases c) (auto simp: ok_of_type_def)
qed (auto simp: na_deserialize_shape push_rebuild na_ok_bool_def deserialize_bool_column_def)

interpretation string_col: framed_codec col_serialize deserialize_string_column "ok_of_type CHR ''S''"
proof (rule column_codec [where con = StringColumn, OF string_elem.arr.framed_codec_axioms])
  fix c assume "ok_of_type CHR ''S'' c"
  then show "\<exists>a. c = StringColumn a \<and> na_ok ok_string a" by (cases c) (auto simp: ok_of_type_def)
qed (auto simp: na_deserialize_shape push_rebuild na_ok_def deserialize_string_column_def)

text \<open>Whatever the bytes, a decoded column is well-formed and of the requested type.\<close>

lemma decoded_column_wf:
  "deserialize_int_column bs pos = Inr (c, p) \<Longrightarrow> col_wf c \<and> col_get_type c = CHR ''I''"
  "deserialize_float_column bs pos = Inr (c, p) \<Longrightarrow> col_wf c \<and> col_get_type c = CHR ''F''"
  "deserialize_bool_column bs pos = Inr (c, p) \<Longrightarrow> col_wf c \<and> col_get_type c = CHR ''B''"
  "deserialize_string_column bs pos = Inr (c, p) \<Longrightarrow> col_wf c \<and> col_get_type c = CHR ''S''"
  by (auto simp: deserialize_int_column_def deserialize_float_column_def
      deserialize_bool_column_def deserialize_string_column_def ebind_eq_Inr
      na_deserialize_shape push_rebuild na_rebuild)

section \<open>Properties\<close>

text \<open>
  Pushing a list of values onto a column: when all of them have the column's type they are
  appended and can be read back at their places, the values before them unchanged; one value
  of another type ends the program.
\<close>

lemma column_push_all:
  assumes "col_wf c"
  shows "if \<forall>x\<in>set xs. cell_type x = col_get_type c
     then \<exists>c'. efold col_push_back xs c = Inr c' \<and> col_wf c' \<and> col_get_type c' = col_get_type c
       \<and> (\<forall>i. col_get c' i = (if i < col_size c then col_get c i
            else if i < col_size c + length xs then Inr (xs ! (i - col_size c)) else Inl Abort))
     else efold col_push_back xs c = Inl Abort"
proof -
  have "if \<forall>x\<in>set xs. cell_type x = col_get_type c
     then \<exists>c'. efold col_push_back xs c = Inr c' \<and> col_wf c' \<and> col_get_type c' = col_get_type c
       \<and> col_view c' = col_view c @ xs
     else efold col_push_back xs c = Inl Abort"
    using assms
  proof (induction xs arbitrary: c)
    case (Cons x xs)
    show ?case
    proof (cases "cell_type x = col_get_type c")
      case True
      then obtain c1 where "col_push_back x c = Inr c1" "col_wf c1" "col_get_type c1 = col_get_type c"
        "col_view c1 = col_view c @ [x]"
        using col_push_back_view(1) [OF Cons.prems] by blast
      then show ?thesis using Cons.IH [of c1] True by auto
    next
      case False
      then show ?thesis using col_push_back_view(2) [OF Cons.prems] by auto
    qed
  qed simp
  then show ?thesis using assms by (auto simp: col_get_view col_size_view nth_append split: if_splits)
qed

end
