(* ===== verification/Row.thy ===== *)
theory Row
  imports Schema Column
begin

text \<open>
  \<open>include/data/row.h\<close>, \<open>src/data/row.cpp\<close> and the field visitor of
  \<open>include/data/fielder.h\<close>: one row of data, with the types of the schema it was built from.
  The constructor fills \<open>_types\<close> through a buffer of \<open>_width\<close> characters; the model takes
  the types to be those characters.
\<close>

record row =
  row_width :: nat
  row_types :: "char list"
  row_values :: "cell list"
  row_index :: nat

text \<open>A default-constructed \<open>std::variant\<close> holds its first alternative, here an absent int.\<close>

definition row_of_schema :: "schema \<Rightarrow> row res" where
  "row_of_schema scm =
     emap (\<lambda>ts. \<lparr>row_width = sch_width scm, row_types = ts,
             row_values = replicate (sch_width scm) (IntCell None), row_index = 0\<rparr>)
       (emapM (schema_col_type scm) [0..<sch_width scm])"

text \<open>
  The setters for numbers and booleans assert the index and the type; the setter for
  strings asserts neither.
\<close>

fun row_set :: "nat \<Rightarrow> cell \<Rightarrow> row \<Rightarrow> row res" where
  "row_set col (StringCell v) r =
     emap (\<lambda>vs. r\<lparr>row_values := vs\<rparr>) (vec_put (row_values r) col (StringCell v))"
| "row_set col x r =
     (if \<not> col < row_width r then Inl Abort
      else ebind (vec_at (row_types r) col) (\<lambda>t.
        if t \<noteq> cell_type x then Inl Abort
        else emap (\<lambda>vs. r\<lparr>row_values := vs\<rparr>) (vec_put (row_values r) col x)))"

definition row_set_index :: "nat \<Rightarrow> row \<Rightarrow> row" where
  "row_set_index idx r = r\<lparr>row_index := idx\<rparr>"

definition row_get_index :: "row \<Rightarrow> nat" where
  "row_get_index r = row_index r"

text \<open>\<open>std::get\<close> throws when the variant holds another alternative.\<close>

definition row_get_int :: "row \<Rightarrow> nat \<Rightarrow> i32 option res" where
  "row_get_int r col = ebind (vec_at (row_values r) col)
     (\<lambda>x. case x of IntCell v \<Rightarrow> Inr v | _ \<Rightarrow> Inl (Throw BadVariantAccess))"

definition row_get_bool :: "row \<Rightarrow> nat \<Rightarrow> bool option res" where
  "row_get_bool r col = ebind (vec_at (row_values r) col)
     (\<lambda>x. case x of BoolCell v \<Rightarrow> Inr v | _ \<Rightarrow> Inl (Throw BadVariantAccess))"

definition row_get_double :: "row \<Rightarrow> nat \<Rightarrow> f64 option res" where
  "row_get_double r col = ebind (vec_at (row_values r) col)
     (\<lambda>x. case x of FloatCell v \<Rightarrow> Inr v | _ \<Rightarrow> Inl (Throw BadVariantAccess))"

definition row_get_string :: "row \<Rightarrow> nat \<Rightarrow> string option res" where
  "row_get_string r col = ebind (vec_at (row_values r) col)
     (\<lambda>x. case x of StringCell v \<Rightarrow> Inr v | _ \<Rightarrow> Inl (Throw BadVariantAccess))"

definition row_col_type :: "row \<Rightarrow> nat \<Rightarrow> char res" where
  "row_col_type r idx = (if idx < row_width r then vec_at (row_types r) idx else Inl Abort)"

text \<open>
  The field of the given type at a column, as the \<open>switch\<close> statements on a type character
  read it; a character that is no column type reads nothing.
\<close>

definition row_get_typed :: "row \<Rightarrow> char \<Rightarrow> nat \<Rightarrow> cell option res" where
  "row_get_typed r t col =
     (if t = CHR ''I'' then emap (\<lambda>v. Some (IntCell v)) (row_get_int r col)
      else if t = CHR ''F'' then emap (\<lambda>v. Some (FloatCell v)) (row_get_double r col)
      else if t = CHR ''B'' then emap (\<lambda>v. Some (BoolCell v)) (row_get_bool r col)
      else if t = CHR ''S'' then emap (\<lambda>v. Some (StringCell v)) (row_get_string r col)
      else Inr None)"

text \<open>A field visitor is its \<open>accept\<close> and \<open>done\<close> on a state of its own.\<close>

record 's fielder =
  fielder_start :: "nat \<Rightarrow> 's \<Rightarrow> 's"
  fielder_accept :: "cell \<Rightarrow> 's \<Rightarrow> 's"
  fielder_done :: "'s \<Rightarrow> 's"

text \<open>The base class, whose methods do nothing.\<close>

definition base_fielder :: "'s fielder" where
  "base_fielder = \<lparr>fielder_start = (\<lambda>_ s. s), fielder_accept = (\<lambda>_ s. s), fielder_done = (\<lambda>s. s)\<rparr>"

text \<open>\<open>visit\<close> never calls \<open>start\<close>.\<close>

definition row_visit :: "row \<Rightarrow> nat \<Rightarrow> 's fielder \<Rightarrow> 's \<Rightarrow> 's res" where
  "row_visit r idx f s =
     (if idx \<noteq> row_index r then Inl Abort
      else emap (fielder_done f)
        (efold (\<lambda>i s. ebind (vec_at (row_types r) i) (\<lambda>t.
            emap (\<lambda>x. case x of None \<Rightarrow> s | Some c \<Rightarrow> fielder_accept f c s) (row_get_typed r t i)))
          [0..<row_width r] s))"

lemma row_visit_no_start: "row_visit r idx (f\<lparr>fielder_start := g\<rparr>) s = row_visit r idx f s"
  by (simp add: row_visit_def)

text \<open>
  \<open>equals\<close> stops at the first field that differs; two string fields are compared through
  their optionals, both dereferenced.
\<close>

fun cells_differ :: "cell \<Rightarrow> cell \<Rightarrow> bool res" where
  "cells_differ (IntCell a) (IntCell b) = Inr (a \<noteq> b)"
| "cells_differ (FloatCell a) (FloatCell b) =
     Inr (case (a, b) of (Some x, Some y) \<Rightarrow> \<not> f64_eq x y | (None, None) \<Rightarrow> False | _ \<Rightarrow> True)"
| "cells_differ (BoolCell a) (BoolCell b) = Inr (a \<noteq> b)"
| "cells_differ (StringCell (Some a)) (StringCell (Some b)) = Inr (a \<noteq> b)"
| "cells_differ _ _ = Inl (Undefined NulloptDeref)"

fun rows_equal_from :: "nat list \<Rightarrow> row \<Rightarrow> row \<Rightarrow> bool res" where
  "rows_equal_from [] r q = Inr True"
| "rows_equal_from (i # is) r q =
     ebind (vec_at (row_types r) i) (\<lambda>t. ebind (vec_at (row_types q) i) (\<lambda>t'.
       if t \<noteq> t' then Inr False
       else ebind (row_get_typed r t i) (\<lambda>x. ebind (row_get_typed q t i) (\<lambda>y.
         case (x, y) of
           (Some c, Some d) \<Rightarrow> ebind (cells_differ c d)
              (\<lambda>b. if b then Inr False else rows_equal_from is r q)
         | _ \<Rightarrow> rows_equal_from is r q))))"

definition row_equals :: "row \<Rightarrow> row \<Rightarrow> bool res" where
  "row_equals r q =
     (if row_index r = row_index q \<and> row_width r = row_width q
      then rows_equal_from [0..<row_width r] r q else Inr False)"

text \<open>
  \<open>hash\<close>. An \<open>int\<close> field is converted to \<open>size_t\<close> before the product; a \<open>double\<close> field makes
  the whole sum a \<open>double\<close>, which is converted back: that arithmetic is the parameter \<open>add_double\<close>,
  applied to the sum so far, the value (one if absent) and the column.
\<close>

definition hash_cell :: "(u64 \<Rightarrow> f64 option \<Rightarrow> nat \<Rightarrow> u64) \<Rightarrow> nat \<Rightarrow> cell \<Rightarrow> u64 \<Rightarrow> u64" where
  "hash_cell add_double i x h =
     (case x of
        IntCell v \<Rightarrow> h + (case v of Some n \<Rightarrow> scast n | None \<Rightarrow> 1) * word_of_nat i
      | FloatCell v \<Rightarrow> add_double h v i
      | BoolCell v \<Rightarrow> h + (case v of Some b \<Rightarrow> of_bool b + 2 | None \<Rightarrow> 1) * word_of_nat i
      | StringCell (Some s) \<Rightarrow>
          fold (\<lambda>j h. h + char_word (s ! j) * word_of_nat j) [0..<length s] (h + word_of_nat (length s))
      | StringCell None \<Rightarrow> h + 1)"

definition row_hash :: "(u64 \<Rightarrow> f64 option \<Rightarrow> nat \<Rightarrow> u64) \<Rightarrow> row \<Rightarrow> u64 res" where
  "row_hash add_double r =
     efold (\<lambda>i h. ebind (vec_at (row_types r) i) (\<lambda>t.
         let h = h + char_word t * word_of_nat i in
         emap (\<lambda>x. case x of None \<Rightarrow> h | Some c \<Rightarrow> hash_cell add_double i c h) (row_get_typed r t i)))
       [0..<row_width r] (word_of_nat (row_width r + row_index r))"

section \<open>Invariant\<close>

definition type_chars :: "char set" where
  "type_chars = {CHR ''I'', CHR ''F'', CHR ''B'', CHR ''S''}"

definition row_wf :: "row \<Rightarrow> bool" where
  "row_wf r \<longleftrightarrow> row_width r = length (row_types r) \<and> length (row_values r) = row_width r"

text \<open>A filled row: every value is of the type its column has.\<close>

definition row_filled :: "row \<Rightarrow> bool" where
  "row_filled r \<longleftrightarrow> row_wf r \<and> map cell_type (row_values r) = row_types r"

lemma row_of_schema_eq:
  assumes "schema_wf scm"
  shows "row_of_schema scm = Inr \<lparr>row_width = sch_width scm, row_types = sch_types scm,
     row_values = replicate (sch_width scm) (IntCell None), row_index = 0\<rparr>"
proof -
  have "emapM (schema_col_type scm) [0..<sch_width scm] = Inr (map (nth (sch_types scm)) [0..<sch_width scm])"
    using assms by (intro emapM_total) (simp add: schema_wf_def schema_col_type_def)
  also have "map (nth (sch_types scm)) [0..<sch_width scm] = sch_types scm"
    using assms by (simp add: schema_wf_def map_nth)
  finally show ?thesis by (simp add: row_of_schema_def)
qed

lemma row_set_typed:
  assumes "row_wf r" and "col < row_width r" and "row_types r ! col = cell_type x"
  shows "row_set col x r = Inr (r\<lparr>row_values := (row_values r)[col := x]\<rparr>)"
  using assms by (cases x) (simp_all add: row_wf_def)

lemma row_set_mistyped:
  assumes "row_wf r" and "col < row_width r" and "row_types r ! col \<noteq> cell_type x"
    and "cell_type x \<noteq> CHR ''S''"
  shows "row_set col x r = Inl Abort"
  using assms by (cases x) (simp_all add: row_wf_def)

lemma row_wf_set: "row_wf r \<Longrightarrow> row_set col x r = Inr r' \<Longrightarrow> row_wf r'"
  by (cases x) (auto simp: row_wf_def emap_eq_Inr ebind_eq_Inr vec_put_def split: if_splits)

lemma row_get_typed_cell:
  assumes "i < length (row_values r)"
  shows "row_get_typed r (cell_type (row_values r ! i)) i = Inr (Some (row_values r ! i))"
  using assms
  by (cases "row_values r ! i")
    (simp_all add: row_get_typed_def row_get_int_def row_get_double_def row_get_bool_def row_get_string_def)

text \<open>A visit of a filled row hands the fielder exactly the row's values, in order.\<close>

lemma row_visit_filled:
  assumes "row_filled r"
  shows "row_visit r (row_index r) f s = Inr (fielder_done f (fold (fielder_accept f) (row_values r) s))"
proof -
  have types: "row_types r ! i = cell_type (row_values r ! i)" if "i < row_width r" for i
    using assms that by (metis length_map nth_map row_filled_def row_wf_def)
  have "efold (\<lambda>i s. ebind (vec_at (row_types r) i) (\<lambda>t.
            emap (\<lambda>x. case x of None \<Rightarrow> s | Some c \<Rightarrow> fielder_accept f c s) (row_get_typed r t i)))
          [0..<row_width r] s =
      Inr (fold (\<lambda>i. fielder_accept f (row_values r ! i)) [0..<row_width r] s)"
    using assms by (intro efold_total) (simp add: types row_get_typed_cell row_filled_def row_wf_def)
  also have "fold (\<lambda>i. fielder_accept f (row_values r ! i)) [0..<row_width r] s =
      fold (fielder_accept f) (map (nth (row_values r)) [0..<row_width r]) s"
    by (simp add: fold_map comp_def)
  also have "map (nth (row_values r)) [0..<row_width r] = row_values r"
    using assms map_nth [of "row_values r"] by (simp add: row_filled_def row_wf_def)
  finally show ?thesis by (simp add: row_visit_def)
qed

text \<open>Equal rows of one type have equal hashes, as long as equal doubles contribute equally.\<close>

definition respects_f64_eq :: "(u64 \<Rightarrow> f64 option \<Rightarrow> nat \<Rightarrow> u64) \<Rightarrow> bool" where
  "respects_f64_eq add_double \<longleftrightarrow>
     (\<forall>h x y i. f64_eq x y \<longrightarrow> add_double h (Some x) i = add_double h (Some y) i)"

lemma hash_cell_equal:
  assumes "cells_differ c d = Inr False"
    and "respects_f64_eq add_double"
  shows "hash_cell add_double i c h = hash_cell add_double i d h"
  using assms by (cases "(c, d)" rule: cells_differ.cases) (auto simp: hash_cell_def respects_f64_eq_def split: option.splits)

lemma rows_equal_from_hash:
  assumes "rows_equal_from is r q = Inr True"
    and "respects_f64_eq add_double"
  shows "efold (\<lambda>i h. ebind (vec_at (row_types r) i) (\<lambda>t.
         let h = h + char_word t * word_of_nat i in
         emap (\<lambda>x. case x of None \<Rightarrow> h | Some c \<Rightarrow> hash_cell add_double i c h) (row_get_typed r t i))) is h =
       efold (\<lambda>i h. ebind (vec_at (row_types q) i) (\<lambda>t.
         let h = h + char_word t * word_of_nat i in
         emap (\<lambda>x. case x of None \<Rightarrow> h | Some c \<Rightarrow> hash_cell add_double i c h) (row_get_typed q t i))) is h"
  using assms(1)
proof (induction "is" arbitrary: h)
  case (Cons i "is")
  then obtain t x y where t: "vec_at (row_types r) i = Inr t" "vec_at (row_types q) i = Inr t"
    and xy: "row_get_typed r t i = Inr x" "row_get_typed q t i = Inr y"
    and rest: "(case (x, y) of (Some c, Some d) \<Rightarrow> ebind (cells_differ c d)
        (\<lambda>b. if b then Inr False else rows_equal_from is r q) | _ \<Rightarrow> rows_equal_from is r q) = Inr True"
    by (auto simp: ebind_eq_Inr split: if_splits)
  have none: "x = None \<longleftrightarrow> y = None"
    using xy by (auto simp: row_get_typed_def emap_eq_Inr split: if_splits)
  show ?case
  proof (cases x)
    case None
    with none rest Cons.IH xy t show ?thesis by (simp add: Let_def)
  next
    case (Some c)
    then obtain d where d: "y = Some d" using none by auto
    with Some rest have "cells_differ c d = Inr False" "rows_equal_from is r q = Inr True"
      by (auto simp: ebind_eq_Inr split: if_splits)
    with Some d t xy Cons.IH hash_cell_equal [OF _ assms(2)] show ?thesis by (simp add: Let_def)
  qed
qed simp

section \<open>Properties\<close>

text \<open>
  Rows that \<open>equals\<close> accepts have equal hashes, whatever \<open>double\<close> arithmetic does, as long as
  doubles that compare equal (the two zeros) contribute equally.
\<close>

lemma row_equals_hash:
  assumes "row_equals r q = Inr True"
    and "respects_f64_eq add_double"
  shows "row_hash add_double r = row_hash add_double q"
  using assms rows_equal_from_hash [of "[0..<row_width r]" r q add_double]
  by (simp add: row_equals_def row_hash_def split: if_splits)

end
