(* ===== verification/DataFrame.thy ===== *)
theory DataFrame
  imports Row
begin

text \<open>
  \<open>include/data/dataframe.h\<close> and \<open>src/data/dataframe.cpp\<close>: a table of columns under a
  schema. Iteration with rowers (\<open>map\<close>, \<open>pmap\<close>, \<open>filter\<close>) is in theory \<open>Rower\<close>, storing a
  new frame in the key-value store in theory \<open>KVStore\<close>.
\<close>

record dataframe =
  df_schema :: schema
  df_columns :: "column list"

definition df_empty :: dataframe where
  "df_empty = \<lparr>df_schema = schema_empty, df_columns = []\<rparr>"

definition get_col_from_type :: "char \<Rightarrow> column option" where
  "get_col_from_type t =
     (if t = CHR ''I'' then Some (IntColumn na_empty)
      else if t = CHR ''F'' then Some (FloatColumn na_empty)
      else if t = CHR ''B'' then Some (BoolColumn na_empty)
      else if t = CHR ''S'' then Some (StringColumn na_empty)
      else None)"

definition df_of_schema :: "schema \<Rightarrow> dataframe res" where
  "df_of_schema s =
     efold (\<lambda>i df. ebind (schema_col_type s i) (\<lambda>t.
        case get_col_from_type t of
          None \<Rightarrow> Inl Abort
        | Some col \<Rightarrow> Inr (df\<lparr>df_columns := df_columns df @ [col]\<rparr>)))
       [0..<sch_width s] \<lparr>df_schema = s, df_columns = []\<rparr>"

text \<open>The copy constructor, which \<open>clone\<close> and \<open>filter\<close> use, keeps the schema and no data.\<close>

definition df_copy :: "dataframe \<Rightarrow> dataframe res" where
  "df_copy df = df_of_schema (schema_copy (df_schema df))"

definition df_add_column :: "column \<Rightarrow> string option \<Rightarrow> dataframe \<Rightarrow> dataframe" where
  "df_add_column col name df =
     \<lparr>df_schema = schema_add_column (col_get_type col) name (df_schema df),
      df_columns = df_columns df @ [col]\<rparr>"

text \<open>The typed getters exit on a bad column index and on a column of another type.\<close>

definition df_get_with :: "(column \<Rightarrow> 'a nullable_array option) \<Rightarrow> dataframe \<Rightarrow> nat \<Rightarrow> nat \<Rightarrow> 'a option res" where
  "df_get_with as_type df col row =
     (if \<not> col < length (df_columns df) then Inl Abort
      else case as_type (df_columns df ! col) of None \<Rightarrow> Inl Abort | Some a \<Rightarrow> na_get a row)"

definition df_get_int :: "dataframe \<Rightarrow> nat \<Rightarrow> nat \<Rightarrow> i32 option res" where
  "df_get_int = df_get_with as_int"

definition df_get_bool :: "dataframe \<Rightarrow> nat \<Rightarrow> nat \<Rightarrow> bool option res" where
  "df_get_bool = df_get_with as_bool"

definition df_get_double :: "dataframe \<Rightarrow> nat \<Rightarrow> nat \<Rightarrow> f64 option res" where
  "df_get_double = df_get_with as_float"

definition df_get_string :: "dataframe \<Rightarrow> nat \<Rightarrow> nat \<Rightarrow> string option res" where
  "df_get_string = df_get_with as_string"

definition df_get_col :: "dataframe \<Rightarrow> string \<Rightarrow> i32 res" where
  "df_get_col df name = schema_col_idx (df_schema df) name"

definition df_get_row :: "dataframe \<Rightarrow> string \<Rightarrow> i32 res" where
  "df_get_row df name = schema_row_idx (df_schema df) name"

definition df_set :: "nat \<Rightarrow> nat \<Rightarrow> cell \<Rightarrow> dataframe \<Rightarrow> dataframe res" where
  "df_set col row x df =
     ebind (vec_at (df_columns df) col) (\<lambda>c.
     ebind (col_set c row x) (\<lambda>(old, c').
     Inr (df\<lparr>df_columns := (df_columns df)[col := c']\<rparr>)))"

text \<open>The body of the loop of \<open>fill_row\<close>: the \<open>switch\<close> on the type of column \<open>c\<close>.\<close>

definition fill_cell :: "dataframe \<Rightarrow> nat \<Rightarrow> nat \<Rightarrow> row \<Rightarrow> row res" where
  "fill_cell df idx c row =
     ebind (schema_col_type (df_schema df) c) (\<lambda>t.
        if t = CHR ''I'' then ebind (df_get_int df c idx) (\<lambda>v. row_set c (IntCell v) row)
        else if t = CHR ''F'' then ebind (df_get_double df c idx) (\<lambda>v. row_set c (FloatCell v) row)
        else if t = CHR ''B'' then ebind (df_get_bool df c idx) (\<lambda>v. row_set c (BoolCell v) row)
        else if t = CHR ''S'' then ebind (df_get_string df c idx) (\<lambda>v. row_set c (StringCell v) row)
        else Inl Abort)"

definition df_fill_row :: "dataframe \<Rightarrow> nat \<Rightarrow> row \<Rightarrow> row res" where
  "df_fill_row df idx row =
     efold (fill_cell df idx) [0..<length (df_columns df)] (row_set_index idx row)"

text \<open>The body of the loop of \<open>add_row\<close>: the \<open>switch\<close> on the type of column \<open>c\<close>.\<close>

definition push_cell :: "row \<Rightarrow> nat \<Rightarrow> dataframe \<Rightarrow> dataframe res" where
  "push_cell row c df =
     ebind (vec_at (df_columns df) c) (\<lambda>col.
     ebind (row_get_typed row (col_get_type col) c) (\<lambda>x. case x of
       None \<Rightarrow> Inl Abort
     | Some v \<Rightarrow> emap (\<lambda>col'. df\<lparr>df_columns := (df_columns df)[c := col']\<rparr>) (col_push_back v col)))"

definition df_add_row :: "row \<Rightarrow> dataframe \<Rightarrow> dataframe res" where
  "df_add_row row df = efold (push_cell row) [0..<length (df_columns df)] df"

definition df_ncols :: "dataframe \<Rightarrow> nat" where
  "df_ncols df = length (df_columns df)"

definition df_nrows :: "dataframe \<Rightarrow> nat" where
  "df_nrows df = (if df_ncols df > 0 then col_size (df_columns df ! 0) else sch_length (df_schema df))"

definition df_equals :: "dataframe \<Rightarrow> dataframe \<Rightarrow> bool res" where
  "df_equals a b =
     (if length (df_columns a) = length (df_columns b)
      then emap (\<lambda>eq. eq \<and> list_all2 col_equals (df_columns a) (df_columns b))
             (schema_equals (df_schema a) (df_schema b))
      else Inr False)"

definition df_hash :: "std_hash \<Rightarrow> dataframe \<Rightarrow> u64 res" where
  "df_hash h df = emap (\<lambda>s. fold (\<lambda>c acc. acc + col_hash h c) (df_columns df) s) (schema_hash (df_schema df))"

definition df_serialize :: "dataframe \<Rightarrow> bytes res" where
  "df_serialize df =
     emap (\<lambda>s. s @ serialize_size (length (df_columns df)) @ concat (map col_serialize (df_columns df)))
       (schema_serialize (df_schema df))"

definition column_decoder :: "char \<Rightarrow> (bytes \<Rightarrow> nat \<Rightarrow> (column \<times> nat) res) option" where
  "column_decoder t =
     (if t = CHR ''I'' then Some deserialize_int_column
      else if t = CHR ''F'' then Some deserialize_float_column
      else if t = CHR ''B'' then Some deserialize_bool_column
      else if t = CHR ''S'' then Some deserialize_string_column
      else None)"

definition read_column :: "bytes \<Rightarrow> char \<Rightarrow> dataframe \<times> nat \<Rightarrow> (dataframe \<times> nat) res" where
  "read_column data t st = (case st of (df, pos) \<Rightarrow>
     (case column_decoder t of
        None \<Rightarrow> Inl Abort
      | Some des \<Rightarrow> emap (\<lambda>(col, pos). (df_add_column col None df, pos)) (des data pos)))"

definition deserialize_dataframe :: "bytes \<Rightarrow> nat \<Rightarrow> (dataframe \<times> nat) res" where
  "deserialize_dataframe data pos =
     ebind (deserialize_schema data pos) (\<lambda>(schema, pos).
     ebind (deserialize_size data pos) (\<lambda>(col_cnt, pos).
     if col_cnt \<noteq> sch_width schema then Inl Abort
     else efold (\<lambda>i st. ebind (schema_col_type schema i) (\<lambda>t. read_column data t st))
            [0..<col_cnt] (df_empty, pos)))"

section \<open>Invariants\<close>

text \<open>
  A typed frame: its schema describes its columns and every column is well-formed. A
  rectangular frame also has columns of one length, which \<open>add_column\<close> leaves to its caller.
\<close>

definition df_typed :: "dataframe \<Rightarrow> bool" where
  "df_typed df \<longleftrightarrow> schema_wf (df_schema df)
     \<and> sch_types (df_schema df) = map col_get_type (df_columns df) \<and> list_all col_wf (df_columns df)"

definition df_rect :: "dataframe \<Rightarrow> bool" where
  "df_rect df \<longleftrightarrow> df_typed df \<and> (\<forall>c\<in>set (df_columns df). col_size c = df_nrows df)"

text \<open>The cells of row \<open>i\<close>, and the frame as the list of its rows.\<close>

definition df_row_cells :: "dataframe \<Rightarrow> nat \<Rightarrow> cell list" where
  "df_row_cells df i = map (\<lambda>c. col_view c ! i) (df_columns df)"

definition df_rows :: "dataframe \<Rightarrow> cell list list" where
  "df_rows df = map (df_row_cells df) [0..<df_nrows df]"

definition row_fits :: "dataframe \<Rightarrow> row \<Rightarrow> bool" where
  "row_fits df r \<longleftrightarrow> row_wf r \<and> row_types r = map col_get_type (df_columns df)"

lemma df_typed_width: "df_typed df \<Longrightarrow> sch_width (df_schema df) = length (df_columns df)"
  by (simp add: df_typed_def schema_wf_def)

lemma df_col_type:
  "df_typed df \<Longrightarrow> c < length (df_columns df) \<Longrightarrow>
     schema_col_type (df_schema df) c = Inr (col_get_type (df_columns df ! c))"
  by (simp add: df_typed_def schema_col_type_def)

lemmas df_get_defs =
  df_get_int_def df_get_double_def df_get_bool_def df_get_string_def df_get_with_def

lemmas type_char_simps = row_get_typed_def column_decoder_def get_col_from_type_def

section \<open>Rows in and out\<close>

text \<open>\<open>fill_row\<close> copies row \<open>i\<close> of the frame into a row of the frame's schema.\<close>

lemma df_fill_row_cells:
  assumes "df_typed df" and "row_fits df r" and "\<forall>c\<in>set (df_columns df). i < col_size c"
  shows "df_fill_row df i r = Inr (r\<lparr>row_index := i, row_values := df_row_cells df i\<rparr>)"
proof -
  let ?n = "length (df_columns df)"
  let ?wrap = "\<lambda>vs. r\<lparr>row_index := i, row_values := vs\<rparr>"
  have shape: "row_width r = length (row_types r)" "row_types r = map col_get_type (df_columns df)"
      "length (row_values r) = row_width r"
    using assms(2) by (simp_all add: row_fits_def row_wf_def)
  then have len: "length (row_values r) = ?n" "row_width r = ?n"
    by simp_all
  have "efold (fill_cell df i) [0..<?n] (?wrap (row_values r)) =
      Inr (?wrap (map (\<lambda>c. col_view (df_columns df ! c) ! i) [0..<?n]))"
  proof (rule efold_list_update)
    fix c :: nat and vs :: "cell list"
    assume c: "c < ?n" and vs: "length vs = ?n"
    then have mem: "df_columns df ! c \<in> set (df_columns df)" by simp
    with assms(1) have wf: "col_wf (df_columns df ! c)" by (simp add: df_typed_def list_all_iff)
    have t: "row_types r ! c = col_get_type (df_columns df ! c)"
      using assms(2) c by (simp add: row_fits_def)
    have i: "i < col_size (df_columns df ! c)" using assms(3) mem by blast
    have fits: "row_wf (?wrap vs)"
      using vs by (simp add: row_wf_def len(2) shape(2))
    have set: "row_set c x (?wrap vs) = Inr (?wrap (vs[c := x]))"
      if "cell_type x = col_get_type (df_columns df ! c)" for x
      using row_set_typed [OF fits, of c x] c len t that by simp
    show "fill_cell df i c (?wrap vs) = Inr (?wrap (vs[c := col_view (df_columns df ! c) ! i]))"
      using c wf i set df_col_type [OF assms(1) c]
      by (cases "df_columns df ! c")
        (simp_all add: fill_cell_def df_get_defs na.get_view na.size_view del: row_set.simps)
  qed (use len in simp)
  moreover have "map (\<lambda>c. col_view (df_columns df ! c) ! i) [0..<?n] = df_row_cells df i"
    by (rule nth_equalityI) (simp_all add: df_row_cells_def)
  ultimately show ?thesis by (simp add: df_fill_row_def row_set_index_def)
qed

text \<open>\<open>add_row\<close> appends the row's values, one to each column.\<close>

lemma df_add_row_view:
  assumes "df_typed df" and "row_filled r" and "row_types r = map col_get_type (df_columns df)"
  obtains df' where "df_add_row r df = Inr df'" and "df_schema df' = df_schema df"
    and "df_typed df'" and "map col_view (df_columns df') =
      map2 (\<lambda>c v. col_view c @ [v]) (df_columns df) (row_values r)"
    and "map col_get_type (df_columns df') = map col_get_type (df_columns df)"
proof -
  let ?n = "length (df_columns df)" and ?cs = "df_columns df" and ?vs = "row_values r"
  let ?ok = "\<lambda>c d. col_push_back (?vs ! c) (?cs ! c) = Inr d \<and> col_wf d
      \<and> col_get_type d = col_get_type (?cs ! c) \<and> col_view d = col_view (?cs ! c) @ [?vs ! c]"
  have len: "length ?vs = ?n"
    using assms(2,3) by (metis length_map row_filled_def)
  have types: "cell_type (?vs ! c) = col_get_type (?cs ! c)" if "c < ?n" for c
    using assms(2,3) that len by (metis nth_map row_filled_def)
  have wf: "col_wf (?cs ! c)" if "c < ?n" for c
    using assms(1) that by (simp add: df_typed_def list_all_length)
  have "\<exists>d. ?ok c d" if "c < ?n" for c
    using col_push_back_view(1) [OF wf [OF that] types [OF that]] by blast
  then obtain h where h: "\<And>c. c < ?n \<Longrightarrow> ?ok c (h c)" by metis
  have "efold (push_cell r) [0..<?n] (df\<lparr>df_columns := ?cs\<rparr>) =
      Inr (df\<lparr>df_columns := map h [0..<?n]\<rparr>)"
  proof (rule efold_list_update [where wrap = "\<lambda>cs. df\<lparr>df_columns := cs\<rparr>"])
    fix c :: nat and cs :: "column list"
    assume c: "c < ?n" "length cs = ?n" "\<forall>j. c \<le> j \<and> j < ?n \<longrightarrow> cs ! j = ?cs ! j"
    then have "cs ! c = ?cs ! c" by simp
    moreover have "row_get_typed r (col_get_type (?cs ! c)) c = Inr (Some (?vs ! c))"
      using row_get_typed_cell [of c r] c len types by simp
    ultimately show "push_cell r c (df\<lparr>df_columns := cs\<rparr>) = Inr (df\<lparr>df_columns := cs[c := h c]\<rparr>)"
      using c h by (simp add: push_cell_def)
  qed simp
  then have run: "df_add_row r df = Inr (df\<lparr>df_columns := map h [0..<?n]\<rparr>)"
    by (simp add: df_add_row_def)
  have types': "map col_get_type (map h [0..<?n]) = map col_get_type ?cs"
    using h by (intro nth_equalityI) simp_all
  have views: "map col_view (map h [0..<?n]) = map2 (\<lambda>c v. col_view c @ [v]) ?cs ?vs"
    using h len by (intro nth_equalityI) simp_all
  have "df_typed (df\<lparr>df_columns := map h [0..<?n]\<rparr>)"
    using assms(1) h types' by (simp add: df_typed_def list_all_length)
  with run types' views that show thesis by simp
qed

section \<open>Construction\<close>

lemma get_col_from_type_in:
  assumes "t \<in> type_chars"
  obtains c where "get_col_from_type t = Some c" and "col_get_type c = t" and "col_wf c"
    and "col_view c = []" and "col_size c = 0"
  using assms by (auto simp: type_chars_def get_col_from_type_def na.inv_empty na.view_empty
      na.size_view intro: that)

lemma col_get_type_in: "col_get_type c \<in> type_chars"
  by (cases c) (simp_all add: type_chars_def)

lemma df_of_schema_eq:
  assumes "schema_wf s" and "set (sch_types s) \<subseteq> type_chars"
  shows "df_of_schema s =
     Inr \<lparr>df_schema = s, df_columns = map (\<lambda>t. the (get_col_from_type t)) (sch_types s)\<rparr>"
proof -
  let ?col = "\<lambda>i. the (get_col_from_type (sch_types s ! i))"
  have "df_of_schema s = Inr (fold (\<lambda>i df. df\<lparr>df_columns := df_columns df @ [?col i]\<rparr>)
      [0..<sch_width s] \<lparr>df_schema = s, df_columns = []\<rparr>)"
    unfolding df_of_schema_def
  proof (rule efold_total)
    fix i df
    assume "i \<in> set [0..<sch_width s]"
    then have i: "i < length (sch_types s)" using assms(1) by (simp add: schema_wf_def)
    then have "sch_types s ! i \<in> type_chars" using assms(2) nth_mem by blast
    then show "ebind (schema_col_type s i) (\<lambda>t. case get_col_from_type t of None \<Rightarrow> Inl Abort
        | Some col \<Rightarrow> Inr (df\<lparr>df_columns := df_columns df @ [col]\<rparr>)) =
        Inr (df\<lparr>df_columns := df_columns df @ [?col i]\<rparr>)"
      using i by (elim get_col_from_type_in) (simp add: schema_col_type_def)
  qed
  also have "fold (\<lambda>i df. df\<lparr>df_columns := df_columns df @ [?col i]\<rparr>) is \<lparr>df_schema = s, df_columns = cs\<rparr> =
      \<lparr>df_schema = s, df_columns = cs @ map ?col is\<rparr>" for "is" cs
    by (induction "is" arbitrary: cs) simp_all
  also have "map ?col [0..<sch_width s] = map (\<lambda>t. the (get_col_from_type t)) (map (nth (sch_types s)) [0..<length (sch_types s)])"
    using assms(1) by (simp add: schema_wf_def)
  finally show ?thesis by (simp add: map_nth)
qed

lemma df_of_schema_typed:
  assumes "schema_wf s" and "set (sch_types s) \<subseteq> type_chars" and "df_of_schema s = Inr df"
  shows "df_typed df" and "\<forall>c\<in>set (df_columns df). col_size c = 0" and "df_schema df = s"
proof -
  have df: "df = \<lparr>df_schema = s, df_columns = map (\<lambda>t. the (get_col_from_type t)) (sch_types s)\<rparr>"
    using df_of_schema_eq assms by simp
  have "col_get_type (the (get_col_from_type t)) = t \<and> col_wf (the (get_col_from_type t))
      \<and> col_size (the (get_col_from_type t)) = 0" if "t \<in> set (sch_types s)" for t
    using that assms(2) by (auto elim!: get_col_from_type_in [of t])
  then show "df_typed df" "\<forall>c\<in>set (df_columns df). col_size c = 0" "df_schema df = s"
    using assms(1) by (auto simp: df df_typed_def list_all_iff map_idI)
qed

lemma df_add_column_typed:
  "df_typed df \<Longrightarrow> col_wf c \<Longrightarrow> df_typed (df_add_column c name df)"
  by (simp add: df_typed_def df_add_column_def schema_ops_wf(4)) (simp add: schema_add_column_def)

lemma df_empty_typed: "df_typed df_empty"
  by (simp add: df_typed_def df_empty_def schema_ops_wf(1)) (simp add: schema_empty_def)

section \<open>The frame as a list of rows\<close>

lemma length_df_rows [simp]: "length (df_rows df) = df_nrows df"
  by (simp add: df_rows_def)

lemma df_rows_nth: "i < df_nrows df \<Longrightarrow> df_row_cells df i \<in> set (df_rows df)"
  by (simp add: df_rows_def)

lemma row_widths [simp]: "length (df_row_cells df i) = length (df_columns df)"
  by (simp add: df_row_cells_def)

lemma df_get_cell:
  assumes "df_rect df" and "i < df_nrows df" and "c < length (df_columns df)"
  shows "df_row_cells df i ! c = StringCell s \<Longrightarrow> df_get_string df c i = Inr s"
    and "df_row_cells df i ! c = IntCell v \<Longrightarrow> df_get_int df c i = Inr v"
    and "df_row_cells df i ! c = FloatCell d \<Longrightarrow> df_get_double df c i = Inr d"
proof -
  let ?col = "df_columns df ! c"
  have "col_wf ?col" "i < col_size ?col"
    using assms by (auto simp: df_rect_def df_typed_def list_all_length)
  then show "df_row_cells df i ! c = StringCell s \<Longrightarrow> df_get_string df c i = Inr s"
    and "df_row_cells df i ! c = IntCell v \<Longrightarrow> df_get_int df c i = Inr v"
    and "df_row_cells df i ! c = FloatCell d \<Longrightarrow> df_get_double df c i = Inr d"
    using assms(3)
    by (cases ?col; simp add: df_get_defs df_row_cells_def na.get_view na.size_view)+
qed

text \<open>\<open>add_row\<close> on a rectangular frame appends one row and keeps the frame rectangular.\<close>

lemma df_add_row_rows:
  assumes rect: "df_rect df" and ne: "df_columns df \<noteq> []"
    and r: "row_filled r" "row_types r = map col_get_type (df_columns df)"
  obtains df' where "df_add_row r df = Inr df'" and "df_rect df'"
    and "df_rows df' = df_rows df @ [row_values r]" and "df_nrows df' = Suc (df_nrows df)"
    and "df_schema df' = df_schema df"
    and "map col_get_type (df_columns df') = map col_get_type (df_columns df)"
proof -
  have typed: "df_typed df" using rect by (simp add: df_rect_def)
  obtain df' where run: "df_add_row r df = Inr df'" and sch: "df_schema df' = df_schema df"
    and typed': "df_typed df'"
    and views: "map col_view (df_columns df') = map2 (\<lambda>c v. col_view c @ [v]) (df_columns df) (row_values r)"
    and types: "map col_get_type (df_columns df') = map col_get_type (df_columns df)"
    using df_add_row_view [OF typed r] by blast
  have len: "length (row_values r) = length (df_columns df)"
    using r by (metis length_map row_filled_def)
  have len': "length (df_columns df') = length (df_columns df)"
    using types by (metis length_map)
  have size: "length (col_view c) = df_nrows df" if "c \<in> set (df_columns df)" for c
    using rect that by (auto simp: df_rect_def df_typed_def list_all_iff col_size_view)
  have view: "col_view (df_columns df' ! j) = col_view (df_columns df ! j) @ [row_values r ! j]"
    if "j < length (df_columns df)" for j
    using arg_cong [OF views, of "\<lambda>xs. xs ! j"] that len len' by simp
  have size': "col_size (df_columns df' ! j) = Suc (df_nrows df)" if "j < length (df_columns df)" for j
    using typed' view [OF that] size that len'
    by (simp add: col_size_view df_typed_def list_all_length)
  have nrows: "df_nrows df' = Suc (df_nrows df)"
    using size' [of 0] ne len' by (simp add: df_nrows_def df_ncols_def)
  have rect': "df_rect df'"
    using typed' size' nrows len' by (auto simp: df_rect_def in_set_conv_nth)
  have "df_row_cells df' i = df_row_cells df i" if "i < df_nrows df" for i
    using view size that len' by (auto intro!: nth_equalityI simp: df_row_cells_def nth_append)
  moreover have "df_row_cells df' (df_nrows df) = row_values r"
    using view size len len' by (auto intro!: nth_equalityI simp: df_row_cells_def nth_append)
  ultimately have "df_rows df' = df_rows df @ [row_values r]"
    by (simp add: df_rows_def nrows)
  with run rect' nrows sch types that show thesis by blast
qed

section \<open>Serialization\<close>

text \<open>
  What a reader builds: the columns added one by one, unnamed, to an empty frame.
\<close>

definition df_of_columns :: "column list \<Rightarrow> dataframe" where
  "df_of_columns cols = fold (\<lambda>c. df_add_column c None) cols df_empty"

definition df_ok :: "dataframe \<Rightarrow> bool" where
  "df_ok df \<longleftrightarrow> df_typed df \<and> list_all col_ok (df_columns df) \<and> length (df_columns df) < 2 ^ 64"

lemma fold_add_column:
  "df_columns (fold (\<lambda>c. df_add_column c None) cols df) = df_columns df @ cols"
  "df_typed df \<Longrightarrow> list_all col_wf cols \<Longrightarrow> df_typed (fold (\<lambda>c. df_add_column c None) cols df)"
  by (induction cols arbitrary: df) (simp_all add: df_add_column_typed, simp_all add: df_add_column_def)

lemma df_of_columns_columns [simp]: "df_columns (df_of_columns cols) = cols"
  by (simp add: df_of_columns_def fold_add_column) (simp add: df_empty_def)

lemma df_of_columns_rows: "df_columns df \<noteq> [] \<Longrightarrow> df_rows (df_of_columns (df_columns df)) = df_rows df"
  by (simp add: df_rows_def df_nrows_def df_ncols_def df_row_cells_def)

lemma df_of_columns_typed: "list_all col_wf cols \<Longrightarrow> df_typed (df_of_columns cols)"
  by (simp add: df_of_columns_def fold_add_column df_empty_typed)

lemma columns_frame:
  assumes "list_all col_wf (c # cs)" and "\<forall>c'\<in>set cs. length (col_view c') = length (col_view c)"
  shows "df_rect (df_of_columns (c # cs))" and "df_nrows (df_of_columns (c # cs)) = length (col_view c)"
proof -
  show n: "df_nrows (df_of_columns (c # cs)) = length (col_view c)"
    using assms(1) by (simp add: df_nrows_def df_ncols_def col_size_view)
  show "df_rect (df_of_columns (c # cs))"
    using df_of_columns_typed [OF assms(1)] assms n
    by (auto simp: df_rect_def list_all_iff col_size_view)
qed

lemma column_decoder_codec:
  "\<exists>des. column_decoder (col_get_type c) = Some des \<and> framed_codec col_serialize des (ok_of_type (col_get_type c))"
  by (cases c) (simp_all add: column_decoder_def int_col.framed_codec_axioms
      float_col.framed_codec_axioms bool_col.framed_codec_axioms string_col.framed_codec_axioms)

lemma read_column_known:
  "column_decoder t = Some des \<Longrightarrow>
     read_column data t (df, pos) = emap (\<lambda>(col, pos). (df_add_column col None df, pos)) (des data pos)"
  by (simp add: read_column_def)

lemma read_columns_roundtrip:
  assumes "list_all col_ok cols"
  shows "efold (read_column (pre @ concat (map col_serialize cols) @ suf)) (map col_get_type cols) (df, length pre) =
     Inr (fold (\<lambda>c. df_add_column c None) cols df, length pre + length (concat (map col_serialize cols)))"
  using assms
proof (induction cols arbitrary: pre df)
  case (Cons c cols)
  obtain des where des: "column_decoder (col_get_type c) = Some des"
    "framed_codec col_serialize des (ok_of_type (col_get_type c))"
    using column_decoder_codec by blast
  have "des (pre @ col_serialize c @ concat (map col_serialize cols) @ suf) (length pre) =
      Inr (c, length pre + length (col_serialize c))"
    using Cons.prems
    by (intro codec.roundtrip [OF framed_codec.axioms(1) [OF des(2)]]) (simp add: ok_of_type_def)
  moreover have "efold (read_column ((pre @ col_serialize c) @ concat (map col_serialize cols) @ suf))
      (map col_get_type cols) (df_add_column c None df, length (pre @ col_serialize c)) =
      Inr (fold (\<lambda>c. df_add_column c None) cols (df_add_column c None df),
        length (pre @ col_serialize c) + length (concat (map col_serialize cols)))"
    using Cons.prems by (intro Cons.IH) simp
  ultimately show ?case by (simp add: read_column_known [OF des(1)] del: length_concat)
qed simp

lemma plain_col_types: "plain_types (map col_get_type cols)"
proof -
  have "set (map col_get_type cols) \<subseteq> type_chars" using col_get_type_in by auto
  then show ?thesis by (auto simp: plain_types_def type_chars_def)
qed

lemma df_serialize_total: "df_typed df \<Longrightarrow> \<exists>bs. df_serialize df = Inr bs"
  by (simp add: df_serialize_def schema_serialize_eq df_typed_def)

lemma read_columns_loop:
  assumes "schema_wf sch"
  shows "efold (\<lambda>i st. ebind (schema_col_type sch i) (\<lambda>t. read_column data t st)) [0..<sch_width sch] st =
     efold (read_column data) (sch_types sch) st"
proof -
  have "efold (\<lambda>i st. ebind (schema_col_type sch i) (\<lambda>t. read_column data t st)) [0..<sch_width sch] st =
      efold (\<lambda>i. read_column data (sch_types sch ! i)) [0..<sch_width sch] st"
    using assms by (intro efold_cong) (simp add: schema_col_type_def schema_wf_def)
  also have "\<dots> = efold (read_column data) (sch_types sch) st"
    using assms efold_nth [of "read_column data" "sch_types sch"] by (simp add: schema_wf_def)
  finally show ?thesis .
qed

text \<open>
  Reading back what \<open>serialize\<close> wrote returns every column with its type and its values;
  the names and the row count of the schema are not transmitted.
\<close>

lemma df_roundtrip:
  assumes "df_ok df" and "df_serialize df = Inr bs"
  shows "deserialize_dataframe (pre @ bs @ suf) (length pre) =
     Inr (df_of_columns (df_columns df), length pre + length bs)"
proof -
  let ?types = "sch_types (df_schema df)" and ?cols = "df_columns df"
  let ?cnt = "serialize_size (length ?cols)" and ?body = "concat (map col_serialize ?cols)"
  have typed: "df_typed df" and ok: "list_all col_ok ?cols" and len: "length ?cols < 2 ^ 64"
    using assms(1) by (simp_all add: df_ok_def)
  then have sch: "schema_wf (df_schema df)" and types: "?types = map col_get_type ?cols"
    by (simp_all add: df_typed_def)
  obtain sb where sb: "schema_serialize (df_schema df) = Inr sb"
    using schema_serialize_eq [OF sch] by simp
  have bs: "bs = sb @ ?cnt @ ?body" using assms(2) sb by (simp add: df_serialize_def)
  let ?data = "pre @ sb @ ?cnt @ ?body @ suf"
  have 1: "deserialize_schema ?data (length pre) = Inr (schema_of_types ?types, length pre + length sb)"
    using deserialize_schema_roundtrip [OF sch _ sb, of pre "?cnt @ ?body @ suf"] types len by simp
  have read_types: "sch_types (schema_of_types ?types) = map col_get_type ?cols"
    unfolding types by (rule schema_of_plain_types [OF plain_col_types])
  have 2: "deserialize_size ?data (length (pre @ sb)) =
      Inr (length ?cols, length (pre @ sb) + length ?cnt)"
    using size_codec.roundtrip [of "length ?cols" "pre @ sb" "?body @ suf"] len
    by (simp add: ok_size_def)
  have 3: "efold (read_column ?data) (map col_get_type ?cols) (df_empty, length (pre @ sb @ ?cnt)) =
      Inr (df_of_columns ?cols, length (pre @ sb @ ?cnt) + length ?body)"
    using read_columns_roundtrip [OF ok, of "pre @ sb @ ?cnt" suf df_empty]
    by (simp add: df_of_columns_def)
  have width: "sch_width (schema_of_types ?types) = length ?cols"
    unfolding schema_of_types_fields(5) read_types by simp
  show ?thesis
    using 1 2 3 width read_columns_loop [OF schema_ops_wf(2), of ?types ?data]
    by (simp add: deserialize_dataframe_def bs read_types add.assoc
        del: schema_of_types_fields length_concat)
qed

text \<open>Malformed input: a decoder never leaves the buffer, and what it returns is typed.\<close>

lemma read_column_decoded:
  assumes "read_column data t (df, pos) = Inr (df', pos')"
  shows "(\<exists>c. df' = df_add_column c None df \<and> col_wf c) \<and> pos \<le> pos' \<and> pos' \<le> length data"
proof -
  from assms obtain des c where des: "column_decoder t = Some des" and c: "des data pos = Inr (c, pos')"
    and df': "df' = df_add_column c None df"
    by (auto simp: read_column_def emap_eq_Inr split: option.splits)
  from des c have "col_wf c" and "pos \<le> pos' \<and> pos' \<le> length data"
    by (auto simp: column_decoder_def decoded_column_wf split: if_splits
        dest: int_col.in_bounds float_col.in_bounds bool_col.in_bounds string_col.in_bounds)
  with df' show ?thesis by blast
qed

lemma read_columns_decoded:
  assumes "efold (read_column data) ts (df, pos) = Inr (df', pos')" and "df_typed df" and "pos \<le> length data"
  shows "df_typed df' \<and> pos \<le> pos' \<and> pos' \<le> length data"
  using assms
proof (induction ts arbitrary: df pos)
  case (Cons t ts)
  then obtain df1 p1 where 1: "read_column data t (df, pos) = Inr (df1, p1)"
    and 2: "efold (read_column data) ts (df1, p1) = Inr (df', pos')"
    by (auto simp: ebind_eq_Inr)
  from read_column_decoded [OF 1] Cons.prems(2) have "df_typed df1" "pos \<le> p1" "p1 \<le> length data"
    by (auto simp: df_add_column_typed)
  with Cons.IH [OF 2] show ?case by auto
qed simp

lemma deserialize_dataframe_decoded:
  assumes "deserialize_dataframe data pos = Inr (df, pos')"
  shows "df_typed df \<and> pos \<le> pos' \<and> pos' \<le> length data"
proof -
  from assms obtain sch p1 p2 where 1: "deserialize_schema data pos = Inr (sch, p1)"
    and 2: "deserialize_size data p1 = Inr (sch_width sch, p2)"
    and 3: "efold (\<lambda>i st. ebind (schema_col_type sch i) (\<lambda>t. read_column data t st))
       [0..<sch_width sch] (df_empty, p2) = Inr (df, pos')"
    by (auto simp: deserialize_dataframe_def ebind_eq_Inr split: if_splits)
  obtain ts where "sch = schema_of_types ts" using deserialize_schema_fresh [OF 1] by blast
  then have "schema_wf sch" by (simp add: schema_ops_wf del: schema_of_types_fields)
  with 3 have "efold (read_column data) (sch_types sch) (df_empty, p2) = Inr (df, pos')"
    by (simp add: read_columns_loop)
  from read_columns_decoded [OF this df_empty_typed] deserialize_schema_in_bounds [OF 1]
    size_codec.in_bounds [OF 2]
  show ?thesis by auto
qed

lemma read_columns_no_ub: "\<not> is_ub (efold (read_column data) ts st)"
proof (induction ts arbitrary: st)
  case (Cons t ts)
  have "\<not> is_ub (read_column data t st)"
    by (auto simp: read_column_def column_decoder_def int_col.no_ub float_col.no_ub bool_col.no_ub
        string_col.no_ub split: prod.split)
  with Cons show ?case by (simp add: is_ub_ebind)
qed simp

lemma deserialize_dataframe_no_ub: "\<not> is_ub (deserialize_dataframe data pos)"
proof -
  have "\<not> is_ub (efold (\<lambda>i st. ebind (schema_col_type sch i) (\<lambda>t. read_column data t st))
      [0..<sch_width sch] st)" if sch: "deserialize_schema data pos = Inr (sch, p)" for sch p st
  proof -
    obtain ts where "sch = schema_of_types ts" using deserialize_schema_fresh [OF sch] by blast
    then have "schema_wf sch" by (simp add: schema_ops_wf del: schema_of_types_fields)
    then show ?thesis by (simp add: read_columns_loop read_columns_no_ub)
  qed
  then show ?thesis
    by (auto simp: deserialize_dataframe_def is_ub_ebind deserialize_schema_no_ub size_codec.no_ub)
qed

text \<open>The bytes of a frame, and the frames a reader reproduces exactly.\<close>

definition df_bytes :: "dataframe \<Rightarrow> bytes" where
  "df_bytes df = (case df_serialize df of Inr bs \<Rightarrow> bs | Inl _ \<Rightarrow> [])"

definition df_unnamed_ok :: "dataframe \<Rightarrow> bool" where
  "df_unnamed_ok df \<longleftrightarrow> df_ok df \<and> df = df_of_columns (df_columns df)"

interpretation df_codec: framed_codec df_bytes deserialize_dataframe df_unnamed_ok
proof unfold_locales
  fix df and pre suf
  assume ok: "df_unnamed_ok df"
  then obtain bs where bs: "df_serialize df = Inr bs"
    using df_serialize_total by (auto simp: df_unnamed_ok_def df_ok_def)
  with ok df_roundtrip [of df bs pre suf]
  show "deserialize_dataframe (pre @ df_bytes df @ suf) (length pre) =
      Inr (df, length pre + length (df_bytes df))"
    by (simp add: df_unnamed_ok_def df_bytes_def)
qed (auto simp: deserialize_dataframe_no_ub dest: deserialize_dataframe_decoded)

section \<open>Properties\<close>

text \<open>
  C2: Serialization round trip: a frame that holds columns can be serialized, and from any place
  in a buffer it is read back with the same rows and column types, the position moved exactly past
  it; the frame read back is rectangular if the first was.
\<close>

theorem dataframe_roundtrip:
  assumes "df_ok df" and "df_columns df \<noteq> []"
  shows "\<exists>bs df'. df_serialize df = Inr bs
     \<and> deserialize_dataframe (pre @ bs @ suf) (length pre) = Inr (df', length pre + length bs)
     \<and> df_rows df' = df_rows df \<and> map col_get_type (df_columns df') = map col_get_type (df_columns df)
     \<and> df_typed df' \<and> (df_rect df \<longrightarrow> df_rect df')"
proof -
  have typed: "df_typed df" using assms(1) by (simp add: df_ok_def)
  then obtain bs where bs: "df_serialize df = Inr bs" using df_serialize_total by blast
  let ?df = "df_of_columns (df_columns df)"
  have "df_typed ?df" using typed by (intro df_of_columns_typed) (simp add: df_typed_def)
  moreover have "df_nrows ?df = df_nrows df" using assms(2) by (simp add: df_nrows_def df_ncols_def)
  with \<open>df_typed ?df\<close> have "df_rect ?df" if "df_rect df" using that by (simp add: df_rect_def)
  ultimately have rect: "df_typed ?df" "df_rect df \<longrightarrow> df_rect ?df" by blast+
  show ?thesis
  proof (intro exI conjI)
    show "df_serialize df = Inr bs" by (rule bs)
    show "deserialize_dataframe (pre @ bs @ suf) (length pre) = Inr (?df, length pre + length bs)"
      by (rule df_roundtrip [OF assms(1) bs])
    show "df_rows ?df = df_rows df" by (rule df_of_columns_rows [OF assms(2)])
  qed (use rect in simp_all)
qed

text \<open>Two columns of one row for the witnesses.\<close>

definition sample_frame :: dataframe where
  "sample_frame = df_of_columns
     [IntColumn (na_push_back (Some 7) na_empty), StringColumn (na_push_back (Some ''eau'') na_empty)]"

lemma sample_frame:
  "df_ok sample_frame" "df_rect sample_frame" "df_columns sample_frame \<noteq> []"
  "df_rows sample_frame = [[IntCell (Some 7), StringCell (Some ''eau'')]]" "df_nrows sample_frame = 1"
  "map col_get_type (df_columns sample_frame) = ''IS''"
proof -
  have wf: "na_wf (na_push_back v na_empty)" "na_view (na_push_back v na_empty) = [v]" "na_size (na_push_back v na_empty) = 1"
    for v :: "'a::default option"
    using na.inv_push [OF na.inv_empty, of v] na.view_push [OF na.inv_empty, of v] na.view_empty
    by (simp_all add: na.size_view)
  have typed: "df_typed sample_frame" unfolding sample_frame_def by (rule df_of_columns_typed) (simp add: wf)
  show "df_ok sample_frame"
    using typed by (simp add: df_ok_def sample_frame_def na_ok_def wf na_push_back_def na_empty_def
        na_wf_def ok_bools_def ok_string_def)
  show rows: "df_nrows sample_frame = 1" by (simp add: sample_frame_def df_nrows_def df_ncols_def wf)
  then show "df_rect sample_frame" using typed by (auto simp: df_rect_def sample_frame_def wf)
  show "df_columns sample_frame \<noteq> []" "map col_get_type (df_columns sample_frame) = ''IS''"
    by (simp_all add: sample_frame_def)
  show "df_rows sample_frame = [[IntCell (Some 7), StringCell (Some ''eau'')]]"
    unfolding df_rows_def rows by (simp add: df_row_cells_def sample_frame_def wf)
qed

theorem dataframe_roundtrip_witness:
  "\<exists>bs df'. df_serialize sample_frame = Inr bs
     \<and> deserialize_dataframe ([1] @ bs @ [2]) 1 = Inr (df', 1 + length bs)
     \<and> df_rows df' = [[IntCell (Some 7), StringCell (Some ''eau'')]]"
  using dataframe_roundtrip [OF sample_frame(1,3), of "[1]" "[2]"] by (auto simp: sample_frame(4))

text \<open>
  C3: No bytes, however malformed, take the decoder of frames into undefined behaviour, and when it
  returns a frame, that frame is well-formed and the position is between where it was and the end
  of the buffer.
\<close>

theorem dataframe_decoder_safe:
  "\<not> is_ub (deserialize_dataframe data pos)
   \<and> (\<forall>df pos'. deserialize_dataframe data pos = Inr (df, pos') \<longrightarrow> df_typed df \<and> pos \<le> pos' \<and> pos' \<le> length data)"
  using deserialize_dataframe_no_ub deserialize_dataframe_decoded by blast

theorem dataframe_decoder_safe_witness:
  "\<exists>df pos'. deserialize_dataframe (df_bytes sample_frame) 0 = Inr (df, pos') \<and> df_typed df
     \<and> pos' \<le> length (df_bytes sample_frame)"
proof -
  obtain bs df' where "df_serialize sample_frame = Inr bs" "deserialize_dataframe bs 0 = Inr (df', length bs)"
    using df_roundtrip [OF sample_frame(1), of _ "[]" "[]"] df_serialize_total [of sample_frame] sample_frame(1)
    by (auto simp: df_ok_def)
  then show ?thesis using dataframe_decoder_safe [of bs 0] by (auto simp: df_bytes_def)
qed

text \<open>
  C26: \<open>add_row\<close> appends the row to a rectangular frame, and \<open>fill_row\<close> then reads it back from
  the new last index, and the rows before it from theirs.
\<close>

theorem add_row_fill_row:
  assumes "df_rect df" and "df_columns df \<noteq> []" and "row_filled r" and "row_types r = map col_get_type (df_columns df)"
  shows "\<exists>df'. df_add_row r df = Inr df' \<and> df_rect df' \<and> df_nrows df' = Suc (df_nrows df)
     \<and> (\<forall>q i. row_fits df q \<and> i \<le> df_nrows df \<longrightarrow> df_fill_row df' i q =
          Inr (q\<lparr>row_index := i, row_values := if i < df_nrows df then df_rows df ! i else row_values r\<rparr>))"
proof -
  obtain df' where df': "df_add_row r df = Inr df'" "df_rect df'" "df_rows df' = df_rows df @ [row_values r]"
    "df_nrows df' = Suc (df_nrows df)" "map col_get_type (df_columns df') = map col_get_type (df_columns df)"
    using df_add_row_rows [OF assms] by metis
  have "df_fill_row df' i q = Inr (q\<lparr>row_index := i, row_values := if i < df_nrows df then df_rows df ! i else row_values r\<rparr>)"
    if "row_fits df q" and "i \<le> df_nrows df" for q i
  proof -
    have "df_fill_row df' i q = Inr (q\<lparr>row_index := i, row_values := df_rows df' ! i\<rparr>)"
    proof -
      have "df_typed df'" "\<forall>c\<in>set (df_columns df'). i < col_size c" "row_fits df' q"
        using that df'(2,4,5) by (auto simp: df_rect_def row_fits_def)
      moreover have "df_rows df' ! i = df_row_cells df' i" using that df'(4) by (simp add: df_rows_def del: upt_Suc)
      ultimately show ?thesis using df_fill_row_cells [of df' q i] by simp
    qed
    with df'(3) that show ?thesis by (simp add: nth_append)
  qed
  with df' show ?thesis by blast
qed

theorem add_row_fill_row_witness:
  "\<exists>df'. df_add_row \<lparr>row_width = 2, row_types = ''IS'', row_values = [IntCell None, StringCell (Some ''b'')], row_index = 0\<rparr>
         sample_frame = Inr df'
     \<and> df_fill_row df' 1 \<lparr>row_width = 2, row_types = ''IS'', row_values = [IntCell None, IntCell None], row_index = 0\<rparr> =
       Inr \<lparr>row_width = 2, row_types = ''IS'', row_values = [IntCell None, StringCell (Some ''b'')], row_index = 1\<rparr>"
proof -
  let ?r = "\<lparr>row_width = 2, row_types = ''IS'', row_values = [IntCell None, StringCell (Some ''b'')], row_index = 0\<rparr>"
  let ?q = "\<lparr>row_width = 2, row_types = ''IS'', row_values = [IntCell None, IntCell None], row_index = 0\<rparr>"
  have "row_filled ?r" by (simp add: row_filled_def row_wf_def)
  moreover have "row_types ?r = map col_get_type (df_columns sample_frame)" by (simp add: sample_frame(6))
  moreover have "row_fits sample_frame ?q" by (simp add: row_fits_def row_wf_def sample_frame(6))
  ultimately show ?thesis using add_row_fill_row [OF sample_frame(2,3)] sample_frame(5) by fastforce
qed

text \<open>
  \<open>set\<close> with a value of the column's type changes that one cell of a rectangular frame and
  nothing else.
\<close>

lemma frame_set_cell:
  assumes "df_rect df" and "c < length (df_columns df)" and "i < df_nrows df"
    and "cell_type x = col_get_type (df_columns df ! c)"
  shows "\<exists>df'. df_set c i x df = Inr df' \<and> df_rect df' \<and> df_schema df' = df_schema df
     \<and> df_rows df' = (df_rows df)[i := (df_rows df ! i)[c := x]]"
proof -
  let ?cs = "df_columns df"
  have typed: "df_typed df" using assms(1) by (simp add: df_rect_def)
  have size: "col_size d = df_nrows df" if "d \<in> set ?cs" for d
    using assms(1) that by (simp add: df_rect_def)
  have wf: "col_wf (?cs ! c)" "col_size (?cs ! c) = df_nrows df"
    using assms(2) typed size by (auto simp: df_typed_def list_all_length)
  then obtain d where d: "col_set (?cs ! c) i x = Inr (col_view (?cs ! c) ! i, d)" "col_wf d"
    "col_get_type d = col_get_type (?cs ! c)" "col_view d = (col_view (?cs ! c))[i := x]"
    using col_set_view(1) [OF wf(1) assms(4), of i] assms(3) by auto
  let ?df = "df\<lparr>df_columns := ?cs[c := d]\<rparr>"
  have run: "df_set c i x df = Inr ?df" using assms(2) d(1) by (simp add: df_set_def)
  have dsize: "col_size d = df_nrows df" using d(2,4) wf by (simp add: col_size_view)
  have types: "map col_get_type (?cs[c := d]) = map col_get_type ?cs"
    using d(3) by (metis list_update_id map_update)
  have typed': "df_typed ?df"
    using typed types d(2) assms(2) by (auto simp: df_typed_def list_all_length nth_list_update)
  have nrows: "df_nrows ?df = df_nrows df"
    using dsize size [of "?cs ! 0"] assms(2) by (cases "c = 0") (auto simp: df_nrows_def df_ncols_def)
  have rect: "df_rect ?df"
    using typed' nrows dsize size by (auto simp: df_rect_def dest!: set_update_subset_insert [THEN subsetD])
  have "df_row_cells ?df j = (if j = i then (df_row_cells df i)[c := x] else df_row_cells df j)" if "j < df_nrows df" for j
    using d(4) wf that assms(2,3) by (auto intro!: nth_equalityI simp: df_row_cells_def nth_list_update col_size_view)
  then have "df_rows ?df = (df_rows df)[i := (df_rows df ! i)[c := x]]"
    using assms(3) by (intro nth_equalityI) (simp_all add: df_rows_def nrows nth_list_update)
  with run rect show ?thesis by (intro exI [of _ ?df]) simp
qed

end
