(* ===== verification/Rower.thy ===== *)
theory Rower
  imports DataFrame
begin

text \<open>
  \<open>include/data/rower.h\<close> and the iteration methods of \<open>src/data/dataframe.cpp\<close>: \<open>map\<close>,
  \<open>pmap\<close> with its threads, \<open>filter\<close> and \<open>print\<close>. A rower is its virtual methods over a
  state of its own; the row it is lent is only read, as by every rower of the repository.
\<close>

record 's rower =
  rower_accept :: "row \<Rightarrow> 's \<Rightarrow> (bool \<times> 's) res"
  rower_join :: "'s \<Rightarrow> 's \<Rightarrow> 's res"
  rower_clone :: "'s \<Rightarrow> 's option"

section \<open>Iteration\<close>

text \<open>\<open>map\<close> reuses one row object for all rows.\<close>

definition df_map :: "dataframe \<Rightarrow> 's rower \<Rightarrow> 's \<Rightarrow> 's res" where
  "df_map df r s =
     ebind (row_of_schema (df_schema df)) (\<lambda>row.
     emap snd (efold (\<lambda>i (row, s).
         ebind (df_fill_row df i row) (\<lambda>row'.
         emap (\<lambda>(b, s'). (row', s')) (rower_accept r row' s)))
       [0..<df_nrows df] (row, s)))"

text \<open>The body of a worker thread builds a new row object per row.\<close>

definition pmap_helper :: "dataframe \<Rightarrow> 's rower \<Rightarrow> nat \<Rightarrow> nat \<Rightarrow> 's \<Rightarrow> 's res" where
  "pmap_helper df r row_start row_end s =
     efold (\<lambda>i s. ebind (row_of_schema (df_schema df)) (\<lambda>row.
         ebind (df_fill_row df i row) (\<lambda>row'. emap snd (rower_accept r row' s))))
       [row_start..<row_end] s"

definition MAX_THREADS :: nat where "MAX_THREADS = 8"
definition THREAD_ROWS :: nat where "THREAD_ROWS = 5000"

text \<open>
  The loop that clones the rower: a null clone falls back to \<open>map\<close> in round 1 (\<open>None\<close>) and
  fails an assertion in any other round.
\<close>

fun clone_rowers :: "('s \<Rightarrow> 's option) \<Rightarrow> 's \<Rightarrow> nat list \<Rightarrow> 's list option res" where
  "clone_rowers clone s [] = Inr (Some [])"
| "clone_rowers clone s (i # is) =
     (case clone s of
        None \<Rightarrow> if i = 1 then Inr None else Inl Abort
      | Some c \<Rightarrow> emap (map_option (Cons c)) (clone_rowers clone s is))"

text \<open>The bounds of the worker threads; the last one takes what is left.\<close>

definition thread_bounds :: "nat \<Rightarrow> nat \<Rightarrow> nat \<Rightarrow> (nat \<times> nat) list res" where
  "thread_bounds thread_cnt step_size row_cnt =
     emap snd (efold (\<lambda>i (row_start, bounds).
         let row_end = (if i = thread_cnt - 1 then row_cnt else row_start + step_size) in
         if row_end \<le> row_cnt then Inr (row_end, bounds @ [(row_start, row_end)]) else Inl Abort)
       [0..<thread_cnt] (0, []))"

text \<open>
  \<open>pmap\<close>. The threads work on the rower and on clones of it with states of their own, so the
  order in which they run does not matter and each is run to its end in turn.
\<close>

definition df_pmap :: "dataframe \<Rightarrow> 's rower \<Rightarrow> 's \<Rightarrow> 's res" where
  "df_pmap df r s =
     (let row_cnt = df_nrows df; cnt = row_cnt div THREAD_ROWS in
      if cnt \<le> 1 then df_map df r s
      else
        let thread_cnt = (if cnt > MAX_THREADS then MAX_THREADS else cnt);
            step_size = (if cnt > MAX_THREADS then row_cnt div MAX_THREADS else THREAD_ROWS) in
        ebind (clone_rowers (rower_clone r) s [0..<thread_cnt - 1]) (\<lambda>clones.
        case clones of
          None \<Rightarrow> df_map df r s
        | Some cs \<Rightarrow>
            ebind (thread_bounds thread_cnt step_size row_cnt) (\<lambda>bounds.
            ebind (emapM (\<lambda>((a, b), st). pmap_helper df r a b st) (zip bounds (s # cs))) (\<lambda>sts.
            efold (\<lambda>other st. rower_join r st other) (tl sts) (hd sts)))))"

text \<open>\<open>filter\<close> runs over the row count of the schema, not over the rows of the columns.\<close>

definition filter_step :: "dataframe \<Rightarrow> 's rower \<Rightarrow> nat \<Rightarrow> dataframe \<times> 's \<Rightarrow> (dataframe \<times> 's) res" where
  "filter_step df r i st = (case st of (out, s) \<Rightarrow>
     ebind (row_of_schema (df_schema df)) (\<lambda>row.
     ebind (df_fill_row df i row) (\<lambda>row.
     ebind (rower_accept r row s) (\<lambda>(keep, s).
     if keep then emap (\<lambda>out. (out, s)) (df_add_row row out) else Inr (out, s)))))"

definition df_filter :: "dataframe \<Rightarrow> 's rower \<Rightarrow> 's \<Rightarrow> (dataframe \<times> 's) res" where
  "df_filter df r s =
     ebind (df_copy df) (\<lambda>out. efold (filter_step df r) [0..<sch_length (df_schema df)] (out, s))"

section \<open>The rows a rower sees\<close>

definition frame_row :: "dataframe \<Rightarrow> nat \<Rightarrow> row" where
  "frame_row df i = \<lparr>row_width = length (df_columns df), row_types = map col_get_type (df_columns df),
     row_values = df_row_cells df i, row_index = i\<rparr>"

lemma frame_row_filled:
  assumes "df_rect df" and "i < df_nrows df"
  shows "row_filled (frame_row df i)"
proof -
  have "cell_type (col_view c ! i) = col_get_type c" if "c \<in> set (df_columns df)" for c
    using assms that
    by (intro col_view_type nth_mem) (auto simp: df_rect_def df_typed_def list_all_iff col_size_view)
  then show ?thesis
    by (simp add: row_filled_def row_wf_def frame_row_def df_row_cells_def)
qed

lemma row_of_schema_fits:
  assumes "df_typed df"
  obtains row where "row_of_schema (df_schema df) = Inr row" and "row_fits df row"
  using assms row_of_schema_eq [of "df_schema df"]
  by (auto simp: df_typed_def row_fits_def row_wf_def schema_wf_def intro: that)

lemma fill_frame_row:
  assumes "df_rect df" and "row_fits df row" and "i < df_nrows df"
  shows "df_fill_row df i row = Inr (frame_row df i)"
proof -
  have "df_fill_row df i row = Inr (row\<lparr>row_index := i, row_values := df_row_cells df i\<rparr>)"
    using assms by (intro df_fill_row_cells) (auto simp: df_rect_def)
  moreover have "row\<lparr>row_index := i, row_values := df_row_cells df i\<rparr> = frame_row df i"
    using assms(2) by (intro row.equality) (auto simp: frame_row_def row_fits_def row_wf_def)
  ultimately show ?thesis by simp
qed

lemma frame_row_fits: "row_fits df (frame_row df i)"
  by (simp add: row_fits_def row_wf_def frame_row_def df_row_cells_def)

text \<open>\<open>map\<close> hands the rower every row of a rectangular frame once, in order.\<close>

lemma df_map_rows:
  assumes "df_rect df"
  shows "df_map df r s = efold (\<lambda>i s. emap snd (rower_accept r (frame_row df i) s)) [0..<df_nrows df] s"
proof -
  obtain row where row: "row_of_schema (df_schema df) = Inr row" "row_fits df row"
    using assms row_of_schema_fits by (auto simp: df_rect_def)
  have "emap snd (efold (\<lambda>i (row, s). ebind (df_fill_row df i row) (\<lambda>row'.
         emap (\<lambda>(b, s'). (row', s')) (rower_accept r row' s))) is (row, s)) =
      efold (\<lambda>i s. emap snd (rower_accept r (frame_row df i) s)) is s"
    if "row_fits df row" and "\<forall>i\<in>set is. i < df_nrows df" for row "is" s
    using that
  proof (induction "is" arbitrary: row s)
    case (Cons i "is")
    then have fill: "df_fill_row df i row = Inr (frame_row df i)"
      using assms by (intro fill_frame_row) auto
    show ?case
    proof (cases "rower_accept r (frame_row df i) s")
      case (Inr bs)
      then obtain b s' where "rower_accept r (frame_row df i) s = Inr (b, s')" by (cases bs) auto
      with fill Cons frame_row_fits show ?thesis by simp
    qed (simp add: fill)
  qed simp
  with row show ?thesis by (simp add: df_map_def)
qed

lemma pmap_helper_rows:
  assumes "df_rect df" and "b \<le> df_nrows df"
  shows "pmap_helper df r a b s = efold (\<lambda>i s. emap snd (rower_accept r (frame_row df i) s)) [a..<b] s"
  unfolding pmap_helper_def
proof (rule efold_cong)
  fix i s
  assume "i \<in> set [a..<b]"
  then have i: "i < df_nrows df" using assms(2) by simp
  obtain row where row: "row_of_schema (df_schema df) = Inr row" "row_fits df row"
    using assms row_of_schema_fits by (auto simp: df_rect_def)
  with fill_frame_row [OF assms(1) row(2) i]
  show "ebind (row_of_schema (df_schema df)) (\<lambda>row. ebind (df_fill_row df i row)
      (\<lambda>row'. emap snd (rower_accept r row' s))) = emap snd (rower_accept r (frame_row df i) s)"
    by simp
qed

section \<open>The threads of \<open>pmap\<close>\<close>

text \<open>
  The bounds of \<open>n\<close> threads of \<open>step\<close> rows (the last takes the rest) split the row indices
  into \<open>n\<close> consecutive runs that cover all of them.
\<close>

lemma thread_bounds_cover:
  assumes "0 < n" and "(n - 1) * step \<le> row_cnt"
  obtains bounds where "thread_bounds n step row_cnt = Inr bounds" and "length bounds = n"
    and "concat (map (\<lambda>(a, b). [a..<b]) bounds) = [0..<row_cnt]"
    and "\<forall>(a, b)\<in>set bounds. b \<le> row_cnt"
proof -
  let ?f = "\<lambda>i (row_start, bounds).
         let row_end = (if i = n - 1 then row_cnt else row_start + step) in
         if row_end \<le> row_cnt then Inr (row_end, bounds @ [(row_start, row_end)]) else Inl Abort"
  let ?pre = "\<lambda>k. map (\<lambda>i. (i * step, Suc i * step)) [0..<k]"
  have run: "efold ?f [0..<k] (0, []) = Inr (k * step, ?pre k)" if "k \<le> n - 1" for k
    using that
  proof (induction k)
    case (Suc k)
    then have "Suc k * step \<le> row_cnt" using assms(2) by (meson le_trans mult_le_mono1)
    with Suc show ?case by (simp add: efold_append add.commute Let_def)
  qed simp
  define bounds where "bounds = ?pre (n - 1) @ [((n - 1) * step, row_cnt)]"
  have "[0..<n] = [0..<n - 1] @ [n - 1]" using assms(1) by (simp flip: upt_Suc_append)
  then have "thread_bounds n step row_cnt = Inr bounds"
    using run [of "n - 1"] assms(2)
    by (simp add: thread_bounds_def efold_append bounds_def Let_def)
  moreover have "length bounds = n" using assms(1) by (simp add: bounds_def)
  moreover have "concat (map (\<lambda>(a, b). [a..<b]) (?pre k)) = [0..<k * step]" for k
    by (induction k) (simp_all add: upt_append add.commute)
  then have "concat (map (\<lambda>(a, b). [a..<b]) bounds) = [0..<row_cnt]"
    using assms(2) by (simp add: bounds_def upt_append)
  moreover have "\<forall>(a, b)\<in>set bounds. b \<le> row_cnt"
  proof -
    have "Suc i * step \<le> row_cnt" if "i < n - 1" for i
      using that assms(2) by (meson Suc_leI le_trans mult_le_mono1)
    then show ?thesis by (auto simp: bounds_def)
  qed
  ultimately show thesis by (rule that)
qed

lemma clone_rowers_some:
  "clone s = Some c \<Longrightarrow> clone_rowers clone s is = Inr (Some (replicate (length is) c))"
  by (induction "is") simp_all

text \<open>A rower whose clone is null never reaches the fallback: round 0 asserts.\<close>

lemma clone_rowers_none: "clone s = None \<Longrightarrow> clone_rowers clone s (0 # is) = Inl Abort"
  by simp

text \<open>
  The rows of the parallel path: as many states as threads, each the result of its own run
  of rows, joined into the first in order.
\<close>

definition accept_rows :: "dataframe \<Rightarrow> 's rower \<Rightarrow> nat list \<Rightarrow> 's \<Rightarrow> 's res" where
  "accept_rows df r = efold (\<lambda>i s. emap snd (rower_accept r (frame_row df i) s))"

lemma emapM_cong: "(\<And>x. x \<in> set xs \<Longrightarrow> f x = g x) \<Longrightarrow> emapM f xs = emapM g xs"
  by (induction xs) simp_all

lemma df_pmap_threads:
  assumes rect: "df_rect df" and clone: "rower_clone r s = Some c" and big: "2 * THREAD_ROWS \<le> df_nrows df"
  obtains runs where "runs \<noteq> []" and "concat runs = [0..<df_nrows df]" and "length runs \<le> MAX_THREADS"
    and "df_pmap df r s =
      ebind (accept_rows df r (hd runs) s) (\<lambda>s0.
      ebind (emapM (\<lambda>is. accept_rows df r is c) (tl runs)) (\<lambda>sts.
      efold (\<lambda>other st. rower_join r st other) sts s0))"
proof -
  let ?cnt = "df_nrows df div THREAD_ROWS"
  define n where "n = (if ?cnt > MAX_THREADS then MAX_THREADS else ?cnt)"
  define step where "step = (if ?cnt > MAX_THREADS then df_nrows df div MAX_THREADS else THREAD_ROWS)"
  have cnt: "2 \<le> ?cnt" using div_le_mono [OF big, of THREAD_ROWS] by (simp add: THREAD_ROWS_def)
  then have n: "2 \<le> n" "n \<le> MAX_THREADS" by (simp_all add: n_def MAX_THREADS_def)
  have "(n - 1) * step \<le> n * step" by simp
  also have "n * step \<le> df_nrows df" by (simp add: n_def step_def)
  finally obtain bounds where b: "thread_bounds n step (df_nrows df) = Inr bounds" "length bounds = n"
    "concat (map (\<lambda>(a, b). [a..<b]) bounds) = [0..<df_nrows df]" "\<forall>(a, b)\<in>set bounds. b \<le> df_nrows df"
    using thread_bounds_cover [of n step "df_nrows df"] n by auto
  then obtain a0 b0 bs where bounds: "bounds = (a0, b0) # bs"
    using n by (cases bounds) auto
  have clones: "clone_rowers (rower_clone r) s [0..<n - 1] = Inr (Some (replicate (n - 1) c))"
    using clone_rowers_some [of "rower_clone r" s c "[0..<n - 1]"] clone by simp
  have bs_len: "length bs = n - 1" using b(2) bounds by simp
  have helper: "pmap_helper df r a b st = accept_rows df r [a..<b] st" if "(a, b) \<in> set bounds" for a b st
    using bspec [OF b(4) that] by (simp add: accept_rows_def pmap_helper_rows [OF rect])
  have "emapM (\<lambda>((a, b), st). pmap_helper df r a b st) (zip bs' (replicate (length bs') c)) =
      emapM (\<lambda>is. accept_rows df r is c) (map (\<lambda>(a, b). [a..<b]) bs')" if "set bs' \<subseteq> set bounds" for bs'
    using that by (induction bs') (auto simp: helper split: prod.split)
  then have others: "emapM (\<lambda>((a, b), st). pmap_helper df r a b st) (zip bs (replicate (length bs) c)) =
      emapM (\<lambda>is. accept_rows df r is c) (map (\<lambda>(a, b). [a..<b]) bs)"
    using bounds by (simp add: subset_insertI)
  define runs where "runs = map (\<lambda>(a, b). [a..<b]) bounds"
  have "df_pmap df r s = ebind (emapM (\<lambda>((a, b), st). pmap_helper df r a b st)
      (zip bounds (s # replicate (n - 1) c))) (\<lambda>sts. efold (\<lambda>other st. rower_join r st other) (tl sts) (hd sts))"
    using cnt clones b(1) by (simp add: df_pmap_def Let_def n_def [symmetric] step_def [symmetric])
  also have "\<dots> = ebind (accept_rows df r (hd runs) s) (\<lambda>s0.
      ebind (emapM (\<lambda>is. accept_rows df r is c) (tl runs)) (\<lambda>sts.
      efold (\<lambda>other st. rower_join r st other) sts s0))"
    using helper [of a0 b0] others bs_len bounds
    by (simp add: runs_def emap_def ebind_assoc)
  finally show thesis
    using that [of runs] b n bounds by (simp add: runs_def)
qed

section \<open>Rowers that may be split\<close>

text \<open>
  The contract \<open>pmap\<close> relies on: on rows of the expected shape \<open>accept\<close> is a total step of the
  state, \<open>clone\<close> starts afresh, and \<open>join\<close> merges a state that only saw later rows.
\<close>

locale splittable_rower =
  fixes r :: "'s rower" and ok_row :: "cell list \<Rightarrow> bool"
    and step :: "cell list \<Rightarrow> 's \<Rightarrow> 's" and fresh :: 's and merge :: "'s \<Rightarrow> 's \<Rightarrow> 's"
  assumes accept_step: "row_filled row \<Longrightarrow> ok_row (row_values row) \<Longrightarrow>
      emap snd (rower_accept r row s) = Inr (step (row_values row) s)"
    and clone_fresh: "rower_clone r s = Some fresh"
    and join_merge: "rower_join r s t = Inr (merge s t)"
    and merge_fresh: "merge s fresh = s"
    and merge_step: "merge s (step x t) = step x (merge s t)"
begin

lemma accept_rows_fold:
  assumes "df_rect df" and "list_all ok_row (df_rows df)" and "\<forall>i\<in>set is. i < df_nrows df"
  shows "accept_rows df r is s = Inr (fold (\<lambda>i. step (df_row_cells df i)) is s)"
  unfolding accept_rows_def
proof (rule efold_total)
  fix i s
  assume "i \<in> set is"
  then have i: "i < df_nrows df" using assms(3) by blast
  then have "ok_row (df_row_cells df i)" using assms(2) by (simp add: df_rows_def list_all_iff)
  then show "emap snd (rower_accept r (frame_row df i) s) = Inr (step (df_row_cells df i) s)"
    using accept_step [OF frame_row_filled [OF assms(1) i]] by (simp add: frame_row_def)
qed

text \<open>The serial \<open>map\<close> is a fold over the rows of the frame.\<close>

lemma map_fold:
  assumes "df_rect df" and "list_all ok_row (df_rows df)"
  shows "df_map df r s = Inr (fold step (df_rows df) s)"
proof -
  have "df_map df r s = accept_rows df r [0..<df_nrows df] s"
    using df_map_rows [OF assms(1)] by (simp add: accept_rows_def)
  then show ?thesis using accept_rows_fold [OF assms] by (simp add: df_rows_def fold_map comp_def)
qed

lemma merge_fold: "merge s (fold step xs fresh) = fold step xs s"
proof (induction xs rule: rev_induct)
  case (snoc x xs)
  then show ?case by (simp add: merge_step)
qed (simp add: merge_fresh)

lemma merge_folds:
  "efold (\<lambda>other st. rower_join r st other) (map (\<lambda>xs. fold step xs fresh) xss) s = Inr (fold step (concat xss) s)"
  by (induction xss arbitrary: s) (simp_all add: join_merge merge_fold)

text \<open>Splitting the rows over threads and joining gives the serial result, however many rows.\<close>

lemma pmap_fold:
  assumes rect: "df_rect df" and ok: "list_all ok_row (df_rows df)"
  shows "df_pmap df r s = Inr (fold step (df_rows df) s)"
proof (cases "2 * THREAD_ROWS \<le> df_nrows df")
  case True
  obtain runs where ne: "runs \<noteq> []" and cover: "concat runs = [0..<df_nrows df]"
    and run: "df_pmap df r s = ebind (accept_rows df r (hd runs) s) (\<lambda>s0.
      ebind (emapM (\<lambda>is. accept_rows df r is fresh) (tl runs)) (\<lambda>sts.
      efold (\<lambda>other st. rower_join r st other) sts s0))"
    using df_pmap_threads [OF rect clone_fresh True] by metis
  let ?rows = "map (df_row_cells df)"
  have "\<forall>i\<in>set is. i < df_nrows df" if "is \<in> set runs" for "is"
    using that arg_cong [OF cover, of set] by auto
  then have each: "accept_rows df r is s = Inr (fold step (?rows is) s)" if "is \<in> set runs" for "is" s
    using that accept_rows_fold [OF rect ok] by (simp add: fold_map comp_def)
  have first: "accept_rows df r (hd runs) s = Inr (fold step (?rows (hd runs)) s)"
    using each ne by simp
  have rest: "emapM (\<lambda>is. accept_rows df r is fresh) (tl runs) =
      Inr (map (\<lambda>xs. fold step xs fresh) (map ?rows (tl runs)))"
    using each ne by (subst emapM_total) (auto dest: list.set_sel(2))
  have "df_rows df = ?rows (hd runs) @ concat (map ?rows (tl runs))"
    using ne by (simp add: df_rows_def map_concat [symmetric] cover [symmetric] flip: map_append)
      (metis concat.simps(2) list.exhaust_sel)
  then show ?thesis by (simp only: run first rest ebind_simps merge_folds fold_append comp_apply)
next
  case False
  then have "df_nrows df div THREAD_ROWS \<le> 1" by (simp add: THREAD_ROWS_def)
  then show ?thesis using map_fold [OF assms] by (simp add: df_pmap_def)
qed

end

end
