(* ===== verification/Decimal.thy ===== *)
theory Decimal
  imports EauPrelude
begin

text \<open>
  Decimal numbers as text, as the program's calls of the standard library write and read
  them: \<open>std::to_string\<close> and \<open>operator<<\<close> on integers, \<open>isspace\<close> in the C locale and
  \<open>std::stoi\<close> with its two exceptions.
\<close>

section \<open>Writing\<close>

definition digit_char :: "nat \<Rightarrow> char" where
  "digit_char d = char_of (48 + d)"

fun show_nat :: "nat \<Rightarrow> string" where
  "show_nat n = (if n < 10 then [digit_char n] else show_nat (n div 10) @ [digit_char (n mod 10)])"

declare show_nat.simps [simp del]

definition show_int :: "int \<Rightarrow> string" where
  "show_int i = (if i < 0 then CHR ''-'' # show_nat (nat (- i)) else show_nat (nat i))"

section \<open>Reading\<close>

definition is_space :: "char \<Rightarrow> bool" where
  "is_space c \<longleftrightarrow> c \<in> {CHR '' '', CHR 0x09, CHR 0x0A, CHR 0x0B, CHR 0x0C, CHR 0x0D}"

definition is_digit :: "char \<Rightarrow> bool" where
  "is_digit c \<longleftrightarrow> 48 \<le> (of_char c :: nat) \<and> (of_char c :: nat) \<le> 57"

definition digits_value :: "string \<Rightarrow> nat" where
  "digits_value ds = fold (\<lambda>c n. 10 * n + (of_char c - 48)) ds 0"

text \<open>An optional sign after white space, then the longest run of digits; the rest is ignored.\<close>

definition stoi :: "string \<Rightarrow> int res" where
  "stoi s =
     (let s = dropWhile is_space s;
          neg = (s \<noteq> [] \<and> hd s = CHR ''-'');
          s = (if s \<noteq> [] \<and> (hd s = CHR ''-'' \<or> hd s = CHR ''+'') then tl s else s);
          ds = takeWhile is_digit s;
          v = (if neg then - int (digits_value ds) else int (digits_value ds)) in
      if ds = [] then Inl (Throw InvalidArgument)
      else if v < - (2 ^ 31) \<or> 2 ^ 31 \<le> v then Inl (Throw OutOfRange)
      else Inr v)"

section \<open>Round trip\<close>

lemma of_char_digit: "d < 10 \<Longrightarrow> (of_char (digit_char d) :: nat) = 48 + d"
  by (simp add: digit_char_def of_char_of)

lemma is_digit_char: "d < 10 \<Longrightarrow> is_digit (digit_char d)"
  by (simp add: is_digit_def of_char_digit)

lemma digits_value_snoc: "digits_value (ds @ [c]) = 10 * digits_value ds + (of_char c - 48)"
  by (simp add: digits_value_def)

lemma show_nat_digits: "list_all is_digit (show_nat n)"
proof (induction n rule: show_nat.induct)
  case (1 n)
  then show ?case by (simp add: show_nat.simps [of n] is_digit_char)
qed

lemma show_nat_ne: "show_nat n \<noteq> []"
  by (simp add: show_nat.simps [of n])

lemma digits_value_show: "digits_value (show_nat n) = n"
proof (induction n rule: show_nat.induct)
  case (1 n)
  then show ?case
    by (cases "n < 10")
      (simp_all add: show_nat.simps [of n] digits_value_snoc of_char_digit digits_value_def [of "[c]" for c])
qed

lemma digit_no_sign:
  "is_digit c \<Longrightarrow> \<not> is_space c \<and> c \<noteq> CHR ''-'' \<and> c \<noteq> CHR ''+''"
  by (auto simp: is_digit_def is_space_def)

lemma takeWhile_digits [simp]: "takeWhile is_digit (show_nat n) = show_nat n"
  using show_nat_digits [of n] by (simp add: takeWhile_eq_all_conv list_all_iff)

lemma show_nat_head: "\<not> is_space (hd (show_nat n)) \<and> hd (show_nat n) \<noteq> CHR ''-'' \<and> hd (show_nat n) \<noteq> CHR ''+''"
  using show_nat_digits [of n] show_nat_ne [of n] by (cases "show_nat n") (auto dest: digit_no_sign)

text \<open>\<open>stoi\<close> reads back every \<open>int\<close> as it is printed.\<close>

lemma stoi_show:
  assumes "- (2 ^ 31) \<le> i" and "i < 2 ^ 31"
  shows "stoi (show_int i) = Inr i"
proof (cases "i < 0")
  case True
  then have "stoi (show_int i) = Inr (- int (nat (- i)))"
    using assms show_nat_ne [of "nat (- i)"] digits_value_show [of "nat (- i)"]
    by (simp add: stoi_def show_int_def is_space_def Let_def)
  then show ?thesis using True by simp
next
  case False
  have "dropWhile is_space (show_nat (nat i)) = show_nat (nat i)"
    using show_nat_head [of "nat i"] show_nat_ne [of "nat i"] by (cases "show_nat (nat i)") auto
  then have "stoi (show_int i) = Inr (int (nat i))"
    using False assms digits_value_show [of "nat i"] show_nat_head [of "nat i"] show_nat_ne [of "nat i"]
    by (simp add: stoi_def show_int_def Let_def)
  then show ?thesis using False by simp
qed

lemma show_nat_inj: "show_nat m = show_nat n \<Longrightarrow> m = n"
  using digits_value_show by metis

end
