(* ===== verification/FrameOps.thy ===== *)
theory FrameOps
  imports Rower Decimal
begin

text \<open>
  \<open>filter\<close> and \<open>print\<close> of \<open>src/data/dataframe.cpp\<close>: what \<open>filter\<close> keeps, the row count it
  goes by, and the text that \<open>print\<close> produces through \<open>PrintRower\<close> and \<open>PrintFielder\<close>.
\<close>

section \<open>\<open>filter\<close>\<close>

text \<open>The rows a stateful predicate keeps, and its state after the last row.\<close>

fun keep_rows :: "(cell list \<Rightarrow> 's \<Rightarrow> bool \<times> 's) \<Rightarrow> cell list list \<Rightarrow> 's \<Rightarrow> cell list list \<times> 's" where
  "keep_rows g [] s = ([], s)"
| "keep_rows g (x # xs) s =
     (case g x s of (keep, s') \<Rightarrow>
      case keep_rows g xs s' of (ys, t) \<Rightarrow> (if keep then x # ys else ys, t))"

lemma keep_rows_stateless:
  "(\<And>x. g x s = (p x, s)) \<Longrightarrow> keep_rows g xs s = (filter p xs, s)"
  by (induction xs) simp_all

lemma df_copy_rect:
  assumes "df_typed df"
  obtains out where "df_copy df = Inr out" and "df_rect out" and "df_schema out = schema_copy (df_schema df)"
    and "map col_get_type (df_columns out) = map col_get_type (df_columns df)"
    and "df_columns df \<noteq> [] \<Longrightarrow> df_nrows out = 0"
proof -
  let ?s = "schema_copy (df_schema df)"
  have wf: "schema_wf ?s"
    using assms by (simp add: df_typed_def schema_wf_def schema_copy_def)
  have types: "sch_types ?s = map col_get_type (df_columns df)"
    using assms by (simp add: df_typed_def schema_copy_def)
  have chars: "set (sch_types ?s) \<subseteq> type_chars"
    using col_get_type_in by (auto simp: types)
  obtain out where out: "df_of_schema ?s = Inr out" using df_of_schema_eq [OF wf chars] by blast
  note t = df_of_schema_typed [OF wf chars out]
  have types': "map col_get_type (df_columns out) = map col_get_type (df_columns df)"
    using t(1,3) types by (simp add: df_typed_def)
  have zero: "df_nrows out = 0" if "df_columns out \<noteq> []"
    using t(2) that by (simp add: df_nrows_def df_ncols_def)
  have rect: "df_rect out"
  proof (cases "df_columns out")
    case Nil
    then show ?thesis using t(1) by (simp add: df_rect_def)
  next
    case (Cons c cs)
    then show ?thesis using t zero by (simp add: df_rect_def)
  qed
  have "df_nrows out = 0" if "df_columns df \<noteq> []"
    using types' that by (intro zero) auto
  with rect out types' t(3) show thesis by (intro that) (simp_all add: df_copy_def)
qed

lemma filter_loop:
  assumes rect: "df_rect df" and ne: "df_columns df \<noteq> []" and bound: "\<forall>i\<in>set is. i < df_nrows df"
    and accept: "\<And>row s. row_filled row \<Longrightarrow> row_types row = map col_get_type (df_columns df) \<Longrightarrow>
      rower_accept r row s = Inr (g (row_values row) s)"
    and out: "df_rect out" "map col_get_type (df_columns out) = map col_get_type (df_columns df)"
  shows "\<exists>out'. efold (filter_step df r) is (out, s) =
       Inr (out', snd (keep_rows g (map (df_row_cells df) is) s)) \<and> df_rect out'
     \<and> map col_get_type (df_columns out') = map col_get_type (df_columns df)
     \<and> df_rows out' = df_rows out @ fst (keep_rows g (map (df_row_cells df) is) s)
     \<and> df_schema out' = df_schema out"
  using bound out
proof (induction "is" arbitrary: out s)
  case (Cons i "is")
  then have i: "i < df_nrows df" by simp
  obtain row where row: "row_of_schema (df_schema df) = Inr row" "row_fits df row"
    using rect row_of_schema_fits by (auto simp: df_rect_def)
  have fill: "df_fill_row df i row = Inr (frame_row df i)"
    by (rule fill_frame_row [OF rect row(2) i])
  have filled: "row_filled (frame_row df i)" by (rule frame_row_filled [OF rect i])
  obtain keep s' where g: "g (df_row_cells df i) s = (keep, s')" by (cases "g (df_row_cells df i) s")
  then have acc: "rower_accept r (frame_row df i) s = Inr (keep, s')"
    using accept [OF filled] by (simp add: frame_row_def)
  have ne': "df_columns out \<noteq> []" using ne Cons.prems(3) by auto
  obtain out1 where 1: "df_add_row (frame_row df i) out = Inr out1" "df_rect out1"
    "df_rows out1 = df_rows out @ [df_row_cells df i]" "df_schema out1 = df_schema out"
    "map col_get_type (df_columns out1) = map col_get_type (df_columns out)"
    using df_add_row_rows [OF Cons.prems(2) ne' filled] Cons.prems(3) by (auto simp: frame_row_def)
  obtain ys t where ys: "keep_rows g (map (df_row_cells df) is) s' = (ys, t)" by fastforce
  have bound: "\<forall>i\<in>set is. i < df_nrows df" using Cons.prems(1) by simp
  show ?case
  proof (cases keep)
    case True
    have types: "map col_get_type (df_columns out1) = map col_get_type (df_columns df)"
      using 1(5) Cons.prems(3) by simp
    have "filter_step df r i (out, s) = Inr (out1, s')"
      by (simp add: filter_step_def row(1) fill acc 1(1) True)
    with Cons.IH [OF bound 1(2) types, of s'] show ?thesis
      using True by (simp add: 1(3,4) g ys)
  next
    case False
    have "filter_step df r i (out, s) = Inr (out, s')"
      by (simp add: filter_step_def row(1) fill acc False)
    with Cons.IH [OF bound Cons.prems(2,3), of s'] show ?thesis
      using False by (simp add: g ys)
  qed
qed simp

text \<open>
  C27: A filtered frame holds exactly the accepted rows, in order, of the first \<open>length()\<close> rows of the
  schema, for a predicate that may change its own state from row to row.
\<close>

theorem df_filter_rows:
  assumes rect: "df_rect df" and ne: "df_columns df \<noteq> []"
    and len: "sch_length (df_schema df) \<le> df_nrows df"
    and accept: "\<And>row s. row_filled row \<Longrightarrow> row_types row = map col_get_type (df_columns df) \<Longrightarrow>
      rower_accept r row s = Inr (g (row_values row) s)"
  shows "\<exists>out. df_filter df r s =
      Inr (out, snd (keep_rows g (take (sch_length (df_schema df)) (df_rows df)) s)) \<and> df_rect out
    \<and> df_rows out = fst (keep_rows g (take (sch_length (df_schema df)) (df_rows df)) s)
    \<and> df_schema out = schema_copy (df_schema df)"
proof -
  have typed: "df_typed df" using rect by (simp add: df_rect_def)
  obtain out where out: "df_copy df = Inr out" "df_rect out" "df_schema out = schema_copy (df_schema df)"
    "map col_get_type (df_columns out) = map col_get_type (df_columns df)" "df_nrows out = 0"
    using df_copy_rect [of df thesis] typed ne by blast
  have rows: "map (df_row_cells df) [0..<sch_length (df_schema df)] = take (sch_length (df_schema df)) (df_rows df)"
    using len by (simp add: df_rows_def take_map)
  have "df_rows out = []" using out(5) by (simp add: df_rows_def)
  moreover have "\<forall>i\<in>set [0..<sch_length (df_schema df)]. i < df_nrows df" using len by simp
  from filter_loop [OF rect ne this accept out(2,4), of s] obtain out' where
    "efold (filter_step df r) [0..<sch_length (df_schema df)] (out, s) =
       Inr (out', snd (keep_rows g (take (sch_length (df_schema df)) (df_rows df)) s))"
    "df_rect out'" "df_schema out' = df_schema out"
    "df_rows out' = df_rows out @ fst (keep_rows g (take (sch_length (df_schema df)) (df_rows df)) s)"
    unfolding rows by blast
  ultimately show ?thesis unfolding df_filter_def out(1) ebind_simps rows out(3) by simp
qed

theorem df_filter_rows_witness:
  "\<exists>df out. df_filter df \<lparr>rower_accept = (\<lambda>row s. Inr (row_values row ! 0 = IntCell (Some 7), Suc s)),
       rower_join = (\<lambda>s t. Inr s), rower_clone = Some\<rparr> 0 = Inr (out, 1)
     \<and> df_rows out = [[IntCell (Some 7), StringCell (Some ''eau'')]]"
proof -
  define df where "df = sample_frame\<lparr>df_schema := schema_add_row None (df_schema sample_frame)\<rparr>"
  have same: "df_columns df = df_columns sample_frame" "df_nrows df = df_nrows sample_frame"
    "df_rows df = df_rows sample_frame"
    using sample_frame(3) by (simp_all add: df_def df_nrows_def df_ncols_def df_rows_def df_row_cells_def)
  have "df_typed sample_frame" using sample_frame(2) by (simp add: df_rect_def)
  then have "schema_wf (df_schema df)" "sch_types (df_schema df) = map col_get_type (df_columns df)"
    using schema_ops_wf(5) [of "df_schema sample_frame" None] same(1)
    by (simp_all add: df_typed_def df_def schema_add_row_def)
  then have "df_rect df"
    using sample_frame(2) same by (simp add: df_rect_def df_typed_def)
  moreover have "sch_length (df_schema df) = 1"
    by (simp add: df_def schema_add_row_def sample_frame_def df_of_columns_def df_empty_def schema_empty_def
        df_add_column_def schema_add_column_def)
  ultimately show ?thesis
    using df_filter_rows [of df "\<lparr>rower_accept = (\<lambda>row s. Inr (row_values row ! 0 = IntCell (Some 7), Suc s)),
       rower_join = (\<lambda>s t. Inr s), rower_clone = Some\<rparr>" "\<lambda>cells s. (cells ! 0 = IntCell (Some 7), Suc s)" 0]
    by (auto simp: same sample_frame)
qed

text \<open>
  The frames a program gets without adding rows to a schema by hand, from columns that meet \<open>cols\<close>: the row
  count in their schema is never touched.
\<close>

inductive frame_built :: "(column \<Rightarrow> bool) \<Rightarrow> dataframe \<Rightarrow> bool" for cols where
  built_empty: "frame_built cols df_empty"
| built_types: "df_of_schema (schema_of_types ts) = Inr df \<Longrightarrow> frame_built cols df"
| built_copy: "frame_built cols df \<Longrightarrow> df_copy df = Inr df' \<Longrightarrow> frame_built cols df'"
| built_add_column: "frame_built cols df \<Longrightarrow> cols c \<Longrightarrow> frame_built cols (df_add_column c name df)"
| built_add_row: "frame_built cols df \<Longrightarrow> df_add_row r df = Inr df' \<Longrightarrow> frame_built cols df'"
| built_set: "frame_built cols df \<Longrightarrow> df_set c i x df = Inr df' \<Longrightarrow> frame_built cols df'"
| built_read: "deserialize_dataframe data pos = Inr (df, pos') \<Longrightarrow> frame_built cols df"

lemma df_of_schema_schema: "df_of_schema s = Inr df \<Longrightarrow> df_schema df = s"
  unfolding df_of_schema_def
  by (drule efold_invariant [where I = "\<lambda>df. df_schema df = s"])
    (auto simp: ebind_eq_Inr split: option.splits)

lemma df_add_row_schema: "df_add_row r df = Inr df' \<Longrightarrow> df_schema df' = df_schema df"
  unfolding df_add_row_def
  by (drule efold_invariant [where I = "\<lambda>d. df_schema d = df_schema df"])
    (auto simp: push_cell_def ebind_eq_Inr emap_eq_Inr split: option.splits)

lemma read_column_length:
  "read_column data t (df, p) = Inr (df', p') \<Longrightarrow> sch_length (df_schema df') = sch_length (df_schema df)"
  by (auto simp: read_column_def emap_eq_Inr df_add_column_def schema_add_column_def split: option.splits)

lemma frame_built_length: "frame_built cols df \<Longrightarrow> sch_length (df_schema df) = 0"
proof (induction rule: frame_built.induct)
  case (built_types ts df)
  then show ?case by (simp add: df_of_schema_schema)
next
  case (built_copy df df')
  then show ?case by (auto simp: df_copy_def schema_copy_def dest: df_of_schema_schema)
next
  case (built_add_row df r df')
  then show ?case by (simp add: df_add_row_schema)
next
  case (built_set df c i x df')
  then show ?case by (auto simp: df_set_def ebind_eq_Inr)
next
  case (built_read data pos df pos')
  then obtain sch p2 where run: "efold (\<lambda>i st. ebind (schema_col_type sch i) (\<lambda>t. read_column data t st))
       [0..<sch_width sch] (df_empty, p2) = Inr (df, pos')"
    by (auto simp: deserialize_dataframe_def ebind_eq_Inr split: if_splits)
  have "sch_length (df_schema (fst (df, pos'))) = 0"
    by (rule efold_invariant [OF run, where I = "\<lambda>st. sch_length (df_schema (fst st)) = 0"])
      (auto simp: ebind_eq_Inr read_column_length df_empty_def schema_empty_def)
  then show ?case by simp
qed (simp_all add: df_empty_def schema_empty_def df_add_column_def schema_add_column_def)



section \<open>\<open>print\<close>\<close>

text \<open>
  Standard output is the state of the visitor. The text of a \<open>double\<close> is a parameter: the
  default format of \<open>operator<<\<close>. A string goes through \<open>c_str()\<close> and ends at the first NUL.
\<close>

definition c_str :: "string \<Rightarrow> string" where
  "c_str s = takeWhile (\<lambda>c. c \<noteq> CHR 0x00) s"

definition print_value :: "(f64 \<Rightarrow> string) \<Rightarrow> cell \<Rightarrow> string" where
  "print_value show_double x =
     (case x of
        IntCell (Some i) \<Rightarrow> show_int (sint i)
      | FloatCell (Some d) \<Rightarrow> show_double d
      | BoolCell (Some b) \<Rightarrow> (if b then ''1'' else ''0'')
      | StringCell (Some s) \<Rightarrow> c_str s
      | _ \<Rightarrow> '''')"

definition print_fielder :: "(f64 \<Rightarrow> string) \<Rightarrow> string fielder" where
  "print_fielder show_double =
     base_fielder\<lparr>fielder_accept := (\<lambda>x out. out @ ''<'' @ print_value show_double x @ ''>''),
      fielder_done := (\<lambda>out. out @ [CHR 0x0A])\<rparr>"

definition print_rower :: "(f64 \<Rightarrow> string) \<Rightarrow> string rower" where
  "print_rower show_double =
     \<lparr>rower_accept = (\<lambda>row out. emap (Pair True) (row_visit row (row_get_index row) (print_fielder show_double) out)),
      rower_join = (\<lambda>_ _. Inl Abort),
      rower_clone = (\<lambda>_. None)\<rparr>"

definition df_print :: "(f64 \<Rightarrow> string) \<Rightarrow> dataframe \<Rightarrow> string \<Rightarrow> string res" where
  "df_print show_double df out = df_map df (print_rower show_double) out"

text \<open>One line per row, each field in angle brackets, a missing one empty.\<close>

definition print_row :: "(f64 \<Rightarrow> string) \<Rightarrow> cell list \<Rightarrow> string" where
  "print_row show_double row =
     concat (map (\<lambda>x. ''<'' @ print_value show_double x @ ''>'') row) @ [CHR 0x0A]"

lemma print_fields:
  "fold (fielder_accept (print_fielder show_double)) xs out =
     out @ concat (map (\<lambda>x. ''<'' @ print_value show_double x @ ''>'') xs)"
  by (induction xs arbitrary: out) (simp_all add: print_fielder_def)

lemma print_accept:
  "row_filled row \<Longrightarrow> rower_accept (print_rower show_double) row out =
     Inr (True, out @ print_row show_double (row_values row))"
  using row_visit_filled [of row "print_fielder show_double" out]
  by (simp add: print_rower_def row_get_index_def print_fields print_row_def)
    (simp add: print_fielder_def)

lemma df_print_eq:
  assumes "df_rect df"
  shows "df_print show_double df out = Inr (out @ concat (map (print_row show_double) (df_rows df)))"
proof -
  let ?p = "print_row show_double"
  have "df_print show_double df out = Inr (fold (\<lambda>i out. out @ ?p (df_row_cells df i)) [0..<df_nrows df] out)"
    unfolding df_print_def df_map_rows [OF assms]
  proof (rule efold_total)
    fix i out
    assume "i \<in> set [0..<df_nrows df]"
    then show "emap snd (rower_accept (print_rower show_double) (frame_row df i) out) =
        Inr (out @ ?p (df_row_cells df i))"
      using frame_row_filled [OF assms] by (simp add: print_accept) (simp add: frame_row_def)
  qed
  also have "fold (\<lambda>i out. out @ ?p (df_row_cells df i)) is out =
      out @ concat (map ?p (map (df_row_cells df) is))" for "is"
    by (induction "is" arbitrary: out) simp_all
  finally show ?thesis by (simp add: df_rows_def)
qed

text \<open>
  \<open>print\<close> writes one line per row of a rectangular frame, in order, every field in angle brackets and
  a missing one empty.
\<close>

lemma df_print_rows:
  assumes "df_rect df"
  shows "df_print show_double df out = Inr (out @ concat (map (print_row show_double) (df_rows df)))"
  by (rule df_print_eq [OF assms])

text \<open>
  A rower whose \<open>clone\<close> returns null cannot be used with \<open>pmap\<close> on a frame that is split
  over threads: the assertion of round 0 fails before the fallback of round 1.
\<close>

lemma df_pmap_null_clone:
  assumes "rower_clone r s = None" and "2 * THREAD_ROWS \<le> df_nrows df"
  shows "df_pmap df r s = Inl Abort"
proof -
  have "2 \<le> df_nrows df div THREAD_ROWS"
    using div_le_mono [OF assms(2), of THREAD_ROWS] by (simp add: THREAD_ROWS_def)
  moreover have "[0..<n - 1] = 0 # [1..<n - 1]" if "2 \<le> n" for n :: nat
    using that by (simp add: upt_conv_Cons)
  ultimately show ?thesis
    using assms(1) by (auto simp: df_pmap_def Let_def MAX_THREADS_def)
qed

end
