(* ===== verification/FrameTypes.thy ===== *)
theory FrameTypes
  imports FrameOps
begin

text \<open>
  Type safety of data frames (\<open>src/data/dataframe.cpp\<close>, \<open>src/data/column.cpp\<close>). The schema is the type of a
  frame: every operation keeps columns and schema together (preservation), and an access succeeds exactly
  when the schema and the length of the column allow it (progress).
\<close>

section \<open>Columns\<close>

text \<open>The columns a program can get: new ones, and those an operation or a decoder returns.\<close>

inductive col_built :: "column \<Rightarrow> bool" where
  col_new: "get_col_from_type t = Some c \<Longrightarrow> col_built c"
| col_pushed: "col_built c \<Longrightarrow> col_push_back x c = Inr c' \<Longrightarrow> col_built c'"
| col_changed: "col_built c \<Longrightarrow> col_set c i x = Inr (old, c') \<Longrightarrow> col_built c'"
| col_read: "column_decoder t = Some des \<Longrightarrow> des data pos = Inr (c, pos') \<Longrightarrow> col_built c"

lemma col_push_back_type:
  assumes "col_push_back x c = Inr c'" and "col_wf c"
  shows "col_wf c'" and "col_get_type c' = col_get_type c"
  using col_push_back_view [OF assms(2), of x] assms(1) by (cases "cell_type x = col_get_type c"; force)+

lemma col_set_type:
  assumes "col_set c i x = Inr (old, c')" and "col_wf c"
  shows "col_wf c'" and "col_get_type c' = col_get_type c" and "cell_type x = col_get_type c" and "i < col_size c"
proof -
  show t: "cell_type x = col_get_type c" using assms(1) by (cases c; cases x) auto
  show "i < col_size c" using col_set_view(2) [OF assms(2) t, of i] assms(1) by (cases "col_size c \<le> i") auto
  from col_set_view(1) [OF assms(2) t this] assms(1) show "col_wf c'" "col_get_type c' = col_get_type c" by auto
qed

lemma col_new_wf: "get_col_from_type t = Some c \<Longrightarrow> col_wf c \<and> col_get_type c = t"
  by (auto simp: get_col_from_type_def na.inv_empty split: if_splits)

lemma col_read_wf: "column_decoder t = Some des \<Longrightarrow> des data pos = Inr (c, pos') \<Longrightarrow> col_wf c"
  by (auto simp: column_decoder_def decoded_column_wf split: if_splits)

lemma col_built_wf: "col_built c \<Longrightarrow> col_wf c"
  by (induction rule: col_built.induct)
    (auto simp: col_new_wf col_read_wf col_push_back_type col_set_type)

text \<open>The variadic constructors only push.\<close>

lemma col_new_empty: "col_built (IntColumn na_empty)" "col_built (FloatColumn na_empty)" "col_built (StringColumn na_empty)"
  using col_new [of "CHR ''I''"] col_new [of "CHR ''F''"] col_new [of "CHR ''S''"] by (simp_all add: get_col_from_type_def)

lemma col_built_pushes:
  assumes "col_built (mk a)" and "\<And>v a. col_push_back (cell (Some v)) (mk a) = Inr (mk (na_push_back (Some v) a))"
  shows "col_built (mk (fold (\<lambda>v. na_push_back (Some v)) vs a))"
  using assms(1)
proof (induction vs arbitrary: a)
  case (Cons v vs)
  then show ?case using col_pushed [OF Cons.prems assms(2)] by simp
qed simp

lemma col_built_columns: "col_built (int_column_of vs)" "col_built (float_column_of ds)" "col_built (string_column_of ss)"
  unfolding int_column_of_def float_column_of_def string_column_of_def
  by (rule col_built_pushes [where mk = IntColumn and cell = IntCell] col_built_pushes [where mk = FloatColumn and cell = FloatCell]
      col_built_pushes [where mk = StringColumn and cell = StringCell]; simp add: col_new_empty)+

section \<open>Preservation\<close>

lemma df_replace_typed:
  assumes "df_typed df" and "col < length (df_columns df)" and "col_wf c'" and "col_get_type c' = col_get_type (df_columns df ! col)"
  shows "df_typed (df\<lparr>df_columns := (df_columns df)[col := c']\<rparr>)"
proof -
  have "map col_get_type ((df_columns df)[col := c']) = map col_get_type (df_columns df)"
    using assms(2,4) by (simp add: map_update list_update_same_conv)
  then show ?thesis using assms(1,2,3) by (auto simp: df_typed_def list_all_iff dest!: set_update_subset_insert [THEN subsetD])
qed

lemma df_columns_wf: "df_typed df \<Longrightarrow> col < length (df_columns df) \<Longrightarrow> col_wf (df_columns df ! col)"
  by (simp add: df_typed_def list_all_length)

lemma df_set_typed: "df_typed df \<Longrightarrow> df_set col i x df = Inr df' \<Longrightarrow> df_typed df'"
  by (auto simp: df_set_def vec_at_def ebind_eq_Inr df_replace_typed df_columns_wf col_set_type split: if_splits)

lemma push_cell_typed: "df_typed df \<Longrightarrow> push_cell r col df = Inr df' \<Longrightarrow> df_typed df'"
  by (auto simp: push_cell_def vec_at_def ebind_eq_Inr emap_eq_Inr df_replace_typed df_columns_wf col_push_back_type
      split: if_splits option.splits)

lemma df_add_row_typed: "df_typed df \<Longrightarrow> df_add_row r df = Inr df' \<Longrightarrow> df_typed df'"
  unfolding df_add_row_def by (drule efold_invariant [where I = df_typed]) (auto intro: push_cell_typed)

text \<open>The constructor from a schema ends the program at a type it does not know.\<close>

lemma efold_steps: "efold f xs s = Inr t \<Longrightarrow> x \<in> set xs \<Longrightarrow> \<exists>s' s''. f x s' = Inr s''"
  by (induction xs arbitrary: s) (auto simp: ebind_eq_Inr)

lemma df_of_schema_types:
  assumes "df_of_schema s = Inr df" and "schema_wf s"
  shows "df_typed df"
proof -
  have "t \<in> type_chars" if "t \<in> set (sch_types s)" for t
  proof -
    from that assms(2) obtain i where i: "i < sch_width s" "sch_types s ! i = t"
      by (auto simp: in_set_conv_nth schema_wf_def)
    with efold_steps [OF assms(1) [unfolded df_of_schema_def], of i] obtain c where "get_col_from_type t = Some c"
      using assms(2) by (auto simp: schema_col_type_def schema_wf_def split: option.splits)
    then show ?thesis by (auto simp: get_col_from_type_def type_chars_def split: if_splits)
  qed
  then show ?thesis using df_of_schema_typed(1) [OF assms(2) _ assms(1)] by blast
qed

lemma frame_built_typed: "frame_built col_built df \<Longrightarrow> df_typed df"
proof (induction rule: frame_built.induct)
  case (built_types ts df)
  then show ?case by (rule df_of_schema_types) (rule schema_ops_wf)
next
  case (built_copy df df')
  then have "schema_wf (schema_copy (df_schema df))" by (simp add: df_typed_def schema_ops_wf)
  then show ?case using built_copy(2) by (auto simp: df_copy_def intro: df_of_schema_types)
next
  case (built_add_row df r df')
  then show ?case by (blast intro: df_add_row_typed)
next
  case (built_set df c i x df')
  then show ?case by (blast intro: df_set_typed)
next
  case (built_read data pos df pos')
  then show ?case by (simp add: deserialize_dataframe_decoded)
qed (simp_all add: df_empty_typed df_add_column_typed col_built_wf)

section \<open>Progress\<close>

text \<open>What the schema and the length of a column say of a position.\<close>

definition has_cell :: "dataframe \<Rightarrow> nat \<Rightarrow> nat \<Rightarrow> char \<Rightarrow> bool" where
  "has_cell df col i t \<longleftrightarrow> schema_col_type (df_schema df) col = Inr t \<and> i < col_size (df_columns df ! col)"

lemma has_cell_typed:
  "df_typed df \<Longrightarrow> has_cell df col i t \<longleftrightarrow>
     col < length (df_columns df) \<and> col_get_type (df_columns df ! col) = t \<and> i < col_size (df_columns df ! col)"
  by (auto simp: has_cell_def df_typed_def schema_col_type_def)

lemma df_get_progress:
  assumes "df_typed df"
  shows "emap IntCell (df_get_int df col i) = (if has_cell df col i CHR ''I'' then Inr (col_view (df_columns df ! col) ! i) else Inl Abort)"
    and "emap FloatCell (df_get_double df col i) = (if has_cell df col i CHR ''F'' then Inr (col_view (df_columns df ! col) ! i) else Inl Abort)"
    and "emap BoolCell (df_get_bool df col i) = (if has_cell df col i CHR ''B'' then Inr (col_view (df_columns df ! col) ! i) else Inl Abort)"
    and "emap StringCell (df_get_string df col i) = (if has_cell df col i CHR ''S'' then Inr (col_view (df_columns df ! col) ! i) else Inl Abort)"
  using df_columns_wf [OF assms, of col]
  by (cases "df_columns df ! col"; simp add: has_cell_typed [OF assms] df_get_defs na.get_view na.size_view)+

lemma col_set_outcome:
  assumes "col_wf c"
  shows "(\<exists>r. col_set c i x = Inr r) \<longleftrightarrow> cell_type x = col_get_type c \<and> i < col_size c"
    and "is_ub (col_set c i x) \<longleftrightarrow> cell_type x \<noteq> col_get_type c"
proof -
  have "col_set c i x = Inl (Undefined NullPointer)" if "cell_type x \<noteq> col_get_type c"
    using that by (cases c; cases x) auto
  moreover have "(\<exists>r. col_set c i x = Inr r) \<and> i < col_size c \<or> col_set c i x = Inl Abort \<and> \<not> i < col_size c"
    if "cell_type x = col_get_type c"
    using col_set_view [OF assms that, of i] by (cases "i < col_size c") auto
  ultimately show "(\<exists>r. col_set c i x = Inr r) \<longleftrightarrow> cell_type x = col_get_type c \<and> i < col_size c"
    and "is_ub (col_set c i x) \<longleftrightarrow> cell_type x \<noteq> col_get_type c"
    by (cases "cell_type x = col_get_type c"; force)+
qed

lemma df_set_outcome:
  assumes "df_typed df"
  shows "(\<exists>df'. df_set col i x df = Inr df') \<longleftrightarrow> has_cell df col i (cell_type x)"
    and "is_ub (df_set col i x df) \<longleftrightarrow> schema_col_type (df_schema df) col \<noteq> Inr (cell_type x)"
proof -
  show "(\<exists>df'. df_set col i x df = Inr df') \<longleftrightarrow> has_cell df col i (cell_type x)"
    using col_set_outcome(1) [OF df_columns_wf [OF assms, of col], of i x]
    by (auto simp: has_cell_typed [OF assms] df_set_def vec_at_def ebind_eq_Inr)
  show "is_ub (df_set col i x df) \<longleftrightarrow> schema_col_type (df_schema df) col \<noteq> Inr (cell_type x)"
  proof (cases "col < length (df_columns df)")
    case True
    have "is_ub (df_set col i x df) \<longleftrightarrow> is_ub (col_set (df_columns df ! col) i x)"
      using True by (cases "col_set (df_columns df ! col) i x") (simp_all add: df_set_def vec_at_def is_ub_def split: prod.split)
    then show ?thesis
      unfolding col_set_outcome(2) [OF df_columns_wf [OF assms True]] df_col_type [OF assms True] by auto
  next
    case False
    then have "schema_col_type (df_schema df) col = Inl Abort"
      using assms by (simp add: schema_col_type_def df_typed_def)
    then show ?thesis using False by (simp add: df_set_def vec_at_def)
  qed
qed

section \<open>Properties\<close>

text \<open>
  C11: Frames are type safe. Every frame the constructors, the decoder and the operations can make is described
  by its schema. On it a typed getter returns the cell exactly when the schema has its type at the column and the
  column is long enough, and ends the program otherwise. \<open>set\<close> succeeds in the same cases only, but checks
  less: with a column that is not there or a value of another type its behaviour is undefined.
\<close>

theorem frame_type_safe:
  assumes "frame_built col_built df"
  shows "df_typed df
    \<and> emap IntCell (df_get_int df col i) =
        (if has_cell df col i CHR ''I'' then Inr (col_view (df_columns df ! col) ! i) else Inl Abort)
    \<and> emap FloatCell (df_get_double df col i) =
        (if has_cell df col i CHR ''F'' then Inr (col_view (df_columns df ! col) ! i) else Inl Abort)
    \<and> emap BoolCell (df_get_bool df col i) =
        (if has_cell df col i CHR ''B'' then Inr (col_view (df_columns df ! col) ! i) else Inl Abort)
    \<and> emap StringCell (df_get_string df col i) =
        (if has_cell df col i CHR ''S'' then Inr (col_view (df_columns df ! col) ! i) else Inl Abort)
    \<and> ((\<exists>df'. df_set col i x df = Inr df') \<longleftrightarrow> has_cell df col i (cell_type x))
    \<and> (is_ub (df_set col i x df) \<longleftrightarrow> schema_col_type (df_schema df) col \<noteq> Inr (cell_type x))"
proof -
  have typed: "df_typed df" by (rule frame_built_typed [OF assms])
  from df_get_progress [OF typed] df_set_outcome [OF typed] typed show ?thesis by (intro conjI) assumption+
qed

theorem frame_type_safe_witness:
  "\<exists>df. df_columns df = [int_column_of [7]] \<and> emap IntCell (df_get_int df 0 0) = Inr (IntCell (Some 7))
     \<and> emap StringCell (df_get_string df 0 0) = Inl Abort \<and> is_ub (df_set 0 0 (StringCell None) df)"
proof -
  let ?c = "int_column_of [7]"
  let ?df = "df_add_column ?c None df_empty"
  have "frame_built col_built ?df" by (simp add: built_add_column built_empty col_built_columns)
  note safe = frame_type_safe [OF this, of 0 0 "StringCell None"]
  have col: "df_columns ?df = [?c]" "col_get_type ?c = CHR ''I''" "col_view ?c = [IntCell (Some 7)]" "col_size ?c = 1"
    by (simp_all add: df_add_column_def df_empty_def column_of_view col_size_view)
  have type: "schema_col_type (df_schema ?df) 0 = Inr CHR ''I''"
    by (simp add: schema_col_type_def df_add_column_def schema_add_column_def df_empty_def schema_empty_def col(2))
  have "has_cell ?df 0 0 CHR ''I''" "\<not> has_cell ?df 0 0 CHR ''S''" by (simp_all add: has_cell_def type col)
  then show ?thesis using safe by (intro exI [of _ ?df]) (simp add: type col)
qed

end
