(* ===== verification/Packet.thy ===== *)
theory Packet
  imports Serializable
begin

text \<open>
  \<open>include/network/packet.h\<close> and \<open>src/network/packet.cpp\<close>: the type-length-value packets.
  The type is a byte, as the enum's underlying type is: one read from the wire may be none
  of the enumerators. Lengths from the wire are kept at 64 bits, where sums wrap around.
\<close>

abbreviation PT_NONE :: u8 where "PT_NONE \<equiv> 0x00"
abbreviation PT_REGISTER :: u8 where "PT_REGISTER \<equiv> 0x01"
abbreviation PT_DEREGISTER :: u8 where "PT_DEREGISTER \<equiv> 0x02"
abbreviation PT_CLIENT_UPDATE :: u8 where "PT_CLIENT_UPDATE \<equiv> 0x03"
abbreviation PT_CHAR_MSG :: u8 where "PT_CHAR_MSG \<equiv> 0x04"
abbreviation PT_ASK_FOR_ID :: u8 where "PT_ASK_FOR_ID \<equiv> 0x05"
abbreviation PT_ID :: u8 where "PT_ID \<equiv> 0x06"
abbreviation PT_VALUE_REQUEST :: u8 where "PT_VALUE_REQUEST \<equiv> 0x07"
abbreviation PT_VALUE_RESPONSE :: u8 where "PT_VALUE_RESPONSE \<equiv> 0x08"
abbreviation PT_KEY_LIST :: u8 where "PT_KEY_LIST \<equiv> 0x09"
abbreviation PT_KEEP_ALIVE :: u8 where "PT_KEEP_ALIVE \<equiv> 0xFC"
abbreviation PT_ERROR_MSG :: u8 where "PT_ERROR_MSG \<equiv> 0xFD"
abbreviation PT_SHUTDOWN :: u8 where "PT_SHUTDOWN \<equiv> 0xFE"
abbreviation PT_TEARDOWN :: u8 where "PT_TEARDOWN \<equiv> 0xFF"

record packet =
  pk_remaining :: u64
  pk_type :: u8
  pk_value :: bytes

definition packet_new :: packet where
  "packet_new = \<lparr>pk_remaining = 0, pk_type = PT_NONE, pk_value = []\<rparr>"

definition packet_of :: "u8 \<Rightarrow> bytes \<Rightarrow> packet" where
  "packet_of t v = packet_new\<lparr>pk_type := t, pk_value := v\<rparr>"

definition packet_get_size :: "packet \<Rightarrow> nat" where
  "packet_get_size p = 1 + 8 + length (pk_value p)"

definition packet_pack :: "packet \<Rightarrow> bytes" where
  "packet_pack p = [pk_type p] @ le_bytes 8 (length (pk_value p)) @ pk_value p"

text \<open>A read of \<open>n\<close> bytes at \<open>pos\<close> of a buffer; past its end it is undefined.\<close>

definition read_buffer :: "bytes \<Rightarrow> nat \<Rightarrow> nat \<Rightarrow> bytes res" where
  "read_buffer buf pos n =
     (if pos + n \<le> length buf then Inr (take n (drop pos buf)) else Inl (Undefined OutOfBounds))"

definition packet_unpack :: "packet \<Rightarrow> bytes \<Rightarrow> nat \<Rightarrow> (int \<times> packet) res" where
  "packet_unpack p buf buflen =
     (let p = p\<lparr>pk_type := PT_NONE, pk_value := []\<rparr> in
      if 1 > buflen then Inr (-1, p)
      else ebind (read_buffer buf 0 1) (\<lambda>t.
        if 1 + 8 > buflen then Inr (-1, p)
        else ebind (read_buffer buf 1 8) (\<lambda>l.
          let rem = word_of_nat (le_value l) :: u64 in
          if 9 + rem > word_of_nat buflen then Inr (-1, p\<lparr>pk_remaining := rem\<rparr>)
          else ebind (read_buffer buf 9 (unat rem)) (\<lambda>v.
            Inr (sint (ucast (9 + rem) :: i32),
              p\<lparr>pk_type := hd t, pk_value := v, pk_remaining := 0\<rparr>)))))"

text \<open>
  \<open>partial_unpack\<close>: the header, when \<open>front\<close>, and as much of the value as the buffer holds.
  The flag \<open>finished\<close> is only written when the header was complete.
\<close>

definition unpack_value :: "packet \<Rightarrow> bytes \<Rightarrow> nat \<Rightarrow> nat \<Rightarrow> (nat \<times> packet \<times> bool) res" where
  "unpack_value p buf buflen pos =
     (if word_of_nat pos + pk_remaining p > word_of_nat buflen
      then let to_read = buflen - pos; rem = pk_remaining p - word_of_nat to_read in
        emap (\<lambda>v. (pos + to_read, p\<lparr>pk_value := pk_value p @ v, pk_remaining := rem\<rparr>, rem = 0))
          (read_buffer buf pos to_read)
      else emap (\<lambda>v. (pos + unat (pk_remaining p), p\<lparr>pk_value := pk_value p @ v, pk_remaining := 0\<rparr>, True))
          (read_buffer buf pos (unat (pk_remaining p))))"

definition partial_unpack :: "bool \<Rightarrow> packet \<Rightarrow> bytes \<Rightarrow> nat \<Rightarrow> bool \<Rightarrow> (nat \<times> packet \<times> bool) res" where
  "partial_unpack front p buf buflen finished =
     (if front then
        let p = p\<lparr>pk_type := PT_NONE, pk_value := [], pk_remaining := 0\<rparr> in
        if 1 > buflen then Inr (0, p, finished)
        else ebind (read_buffer buf 0 1) (\<lambda>t.
          if 1 + 8 > buflen then Inr (1, p, finished)
          else ebind (read_buffer buf 1 8) (\<lambda>l.
            unpack_value (p\<lparr>pk_type := hd t, pk_remaining := word_of_nat (le_value l)\<rparr>) buf buflen 9))
      else unpack_value p buf buflen 0)"

definition packet_equals :: "packet \<Rightarrow> packet \<Rightarrow> bool" where
  "packet_equals p q \<longleftrightarrow> pk_type p = pk_type q \<and> length (pk_value p) = length (pk_value q)
     \<and> list_all (\<lambda>i. pk_value p ! i = pk_value q ! i) [0..<length (pk_value p)]"

definition packet_hash :: "packet \<Rightarrow> u64" where
  "packet_hash p =
     fold (\<lambda>i h. h + word_of_nat i * ucast (pk_value p ! i)) [0..<length (pk_value p)]
       (ucast (pk_type p) + word_of_nat (length (pk_value p)))"

section \<open>Packing and unpacking\<close>

lemma length_pack [simp]: "length (packet_pack p) = packet_get_size p"
  by (simp add: packet_pack_def packet_get_size_def)

lemma drop_pack: "drop (9 + length (pk_value p)) (packet_pack p @ rest) = rest"
  using append_eq_conv_conj [of "packet_pack p" rest "packet_pack p @ rest"]
  by (simp add: packet_get_size_def)

lemma take_pack: "take (9 + j) (packet_pack p) = [pk_type p] @ le_bytes 8 (length (pk_value p)) @ take j (pk_value p)"
proof -
  have "packet_pack p = ([pk_type p] @ le_bytes 8 (length (pk_value p))) @ pk_value p"
    by (simp add: packet_pack_def)
  then show ?thesis by (simp only: take_append) simp
qed

lemma packet_equals_iff: "packet_equals p q \<longleftrightarrow> pk_type p = pk_type q \<and> pk_value p = pk_value q"
  by (auto simp: packet_equals_def list_all_iff intro: nth_equalityI)

lemma packet_equals_hash: "packet_equals p q \<Longrightarrow> packet_hash p = packet_hash q"
  by (simp add: packet_equals_iff packet_hash_def)

text \<open>The packet that a whole reading leaves behind.\<close>

definition packet_received :: "packet \<Rightarrow> packet" where
  "packet_received p = p\<lparr>pk_remaining := 0\<rparr>"

text \<open>The header of a packed packet, and sums of lengths that do not wrap around.\<close>

lemma read_header:
  "read_buffer (packet_pack p @ rest) 0 (Suc 0) = Inr [pk_type p]"
  "read_buffer (packet_pack p @ rest) (Suc 0) 8 = Inr (le_bytes 8 (length (pk_value p)))"
  by (simp_all add: read_buffer_def packet_pack_def)

lemma read_header_prefix:
  assumes "9 \<le> n" and "n \<le> length buf"
  shows "read_buffer (take n buf) 0 (Suc 0) = read_buffer buf 0 (Suc 0)"
    and "read_buffer (take n buf) (Suc 0) 8 = read_buffer buf (Suc 0) 8"
  using assms by (simp_all add: read_buffer_def drop_take min_def)

lemma le_value_length: "n < 2 ^ 64 \<Longrightarrow> le_value (le_bytes 8 n) = n"
  by (simp add: le_value_le_bytes)

lemma u64_add_length: "word_of_nat a + word_of_nat b = (word_of_nat (a + b) :: u64)"
  by simp



text \<open>
  The value of the length field of a buffer; a length within nine of \<open>2 ^ 64\<close> wraps the
  test around and takes the copy of the value out of the buffer. No other input does.
\<close>

definition length_field :: "bytes \<Rightarrow> nat" where
  "length_field buf = le_value (take 8 (drop 1 buf))"

lemma length_field_less: "9 \<le> length buf \<Longrightarrow> length_field buf < 2 ^ 64"
  using le_value_bound [of "take 8 (drop 1 buf)"] by (simp add: length_field_def)

lemma read_buffer_in: "pos + n \<le> length buf \<Longrightarrow> read_buffer buf pos n = Inr (take n (drop pos buf))"
  by (simp add: read_buffer_def)

lemma nine_wraps:
  assumes "r < 2 ^ 64" and "9 \<le> m" and "m < 2 ^ 63"
  shows "(word_of_nat m :: u64) < 9 + word_of_nat r \<longleftrightarrow> m < 9 + r \<and> r < 2 ^ 64 - 9"
proof (cases "9 + r < 2 ^ 64")
  case True
  have "(word_of_nat m :: u64) < word_of_nat (9 + r) \<longleftrightarrow> m < 9 + r"
    using True assms by (intro u64_less) simp_all
  then show ?thesis using True by simp
next
  case False
  define k where "k = 9 + r - 2 ^ 64"
  have k: "k < 9" "9 + r = k + 2 ^ 64" using False assms(1) by (simp_all add: k_def)
  have "(9 + word_of_nat r :: u64) = word_of_nat (9 + r)" by simp
  also have "\<dots> = word_of_nat k" unfolding k(2) by (simp add: word_eq_iff_unsigned)
  finally have "\<not> (word_of_nat m :: u64) < 9 + word_of_nat r"
    using k(1) assms u64_less [of m k] by simp
  then show ?thesis using False by simp
qed

text \<open>
  C25: Reading a packet from a buffer leaves the buffer exactly when the length field is within nine of
  \<open>2 ^ 64\<close>, where the sum with the header's length wraps around; every other input is safe.
\<close>

theorem packet_unpack_ub_iff:
  assumes "length buf < 2 ^ 63"
  shows "is_ub (packet_unpack p buf (length buf)) \<longleftrightarrow> 9 \<le> length buf \<and> 2 ^ 64 - 9 \<le> length_field buf"
proof (cases "9 \<le> length buf")
  case True
  let ?r = "length_field buf"
  have r: "?r < 2 ^ 64" using True by (rule length_field_less)
  have f: "le_value (take 8 (drop (Suc 0) buf)) = ?r" by (simp add: length_field_def)
  have l: "read_buffer buf (Suc 0) 8 = Inr (take 8 (drop 1 buf))" and
    t: "read_buffer buf 0 (Suc 0) = Inr (take 1 buf)"
    using True by (simp_all add: read_buffer_in)
  have "is_ub (packet_unpack p buf (length buf)) \<longleftrightarrow>
      \<not> (word_of_nat (length buf) :: u64) < 9 + word_of_nat ?r \<and> is_ub (read_buffer buf 9 ?r)"
    using True r by (auto simp: packet_unpack_def Let_def l t f is_ub_ebind unat_u64)
  also have "\<dots> \<longleftrightarrow> 2 ^ 64 - 9 \<le> ?r"
    using nine_wraps [OF r True assms] assms by (auto simp: read_buffer_def)
  finally show ?thesis using True by simp
next
  case False
  then show ?thesis by (cases buf) (auto simp: packet_unpack_def Let_def read_buffer_def)
qed

theorem packet_unpack_ub_iff_witness:
  "is_ub (packet_unpack packet_new [4, 255, 255, 255, 255, 255, 255, 255, 255] 9)"
proof -
  define buf :: bytes where "buf = [4, 255, 255, 255, 255, 255, 255, 255, 255]"
  have "length buf = 9" "length_field buf = 2 ^ 64 - 1"
    by (simp_all add: buf_def length_field_def)
  then show ?thesis using packet_unpack_ub_iff [of buf packet_new] unfolding buf_def [symmetric] by simp
qed

section \<open>Reading a packet in parts\<close>

text \<open>\<open>pos\<close> bytes of the buffer are used up and \<open>r\<close> bytes of the value are still to come.\<close>

lemma unpack_value_part:
  assumes "pk_remaining p = word_of_nat r" and "r + pos < 2 ^ 64" and "pos \<le> length buf" and "length buf < 2 ^ 64"
  shows "unpack_value p buf (length buf) pos =
     (if length buf - pos < r
      then Inr (length buf, p\<lparr>pk_value := pk_value p @ drop pos buf,
                              pk_remaining := word_of_nat (r - (length buf - pos))\<rparr>, False)
      else Inr (pos + r, p\<lparr>pk_value := pk_value p @ take r (drop pos buf), pk_remaining := 0\<rparr>, True))"
proof -
  have "(word_of_nat pos :: u64) + word_of_nat r = word_of_nat (pos + r)" by simp
  then have test: "word_of_nat (length buf) < word_of_nat pos + pk_remaining p \<longleftrightarrow> length buf - pos < r"
    unfolding assms(1) using u64_less [of "length buf" "pos + r"] assms by auto
  have r: "unat (pk_remaining p) = r" using assms by (simp add: unat_u64)
  show ?thesis
  proof (cases "length buf - pos < r")
    case True
    let ?k = "length buf - pos"
    have rem: "pk_remaining p - word_of_nat ?k = word_of_nat (r - ?k)"
      using True by (simp add: assms(1) of_nat_diff)
    have ne: "(word_of_nat (r - ?k) :: u64) \<noteq> 0"
      using True assms(2) unat_u64 [of "r - ?k"] by fastforce
    then have ne': "pk_remaining p \<noteq> word_of_nat ?k" unfolding rem [symmetric] by auto
    show ?thesis
      using True test assms(3) ne'
      by (simp add: unpack_value_def Let_def rem ne read_buffer_in del: of_nat_diff)
  next
    case False
    then show ?thesis using test assms(3) by (simp add: unpack_value_def r read_buffer_in)
  qed
qed

lemma partial_unpack_front:
  assumes "9 \<le> length buf" and "length buf < 2 ^ 64" and "length_field buf < 2 ^ 64 - 9"
  shows "partial_unpack True p buf (length buf) fin =
     unpack_value \<lparr>pk_remaining = word_of_nat (length_field buf), pk_type = hd buf, pk_value = []\<rparr> buf (length buf) 9"
proof -
  have "le_value (take 8 (drop (Suc 0) buf)) = length_field buf" by (simp add: length_field_def)
  moreover have "hd (take (Suc 0) buf) = hd buf" using assms(1) by (cases buf) auto
  ultimately show ?thesis using assms by (cases p) (auto simp: partial_unpack_def Let_def read_buffer_in)
qed

text \<open>The loop of a reader: one call per chunk until the packet is finished.\<close>

fun feed_chunks :: "bool \<Rightarrow> packet \<Rightarrow> bytes list \<Rightarrow> (packet \<times> bool) res" where
  "feed_chunks front p [] = Inr (p, False)"
| "feed_chunks front p (c # cs) =
     ebind (partial_unpack front p c (length c) False) (\<lambda>(_, p, finished).
       if finished then Inr (p, True) else feed_chunks False p cs)"

lemma feed_chunks_rest:
  assumes "pk_remaining p = word_of_nat (length (concat cs))" and "length (concat cs) < 2 ^ 64" and "concat cs \<noteq> []"
  shows "feed_chunks False p cs = Inr (p\<lparr>pk_value := pk_value p @ concat cs, pk_remaining := 0\<rparr>, True)"
  using assms
proof (induction cs arbitrary: p)
  case (Cons c cs)
  let ?r = "length (concat (c # cs))"
  have part: "partial_unpack False p c (length c) False =
     (if length c < ?r
      then Inr (length c, p\<lparr>pk_value := pk_value p @ c, pk_remaining := word_of_nat (?r - length c)\<rparr>, False)
      else Inr (?r, p\<lparr>pk_value := pk_value p @ take ?r c, pk_remaining := 0\<rparr>, True))"
    using unpack_value_part [of p ?r 0 c] Cons.prems by (simp add: partial_unpack_def)
  show ?case
  proof (cases "concat cs = []")
    case True
    then have "\<not> length c < ?r" "take ?r c = c" by simp_all
    with part True show ?thesis by simp
  next
    case False
    then have lt: "length c < ?r" "?r - length c = length (concat cs)" by (simp_all flip: length_concat)
    from Cons.IH [of "p\<lparr>pk_value := pk_value p @ c, pk_remaining := word_of_nat (length (concat cs))\<rparr>"]
      Cons.prems(2) False part lt
    show ?thesis by (simp del: length_concat)
  qed
qed simp

text \<open>
  C23: However a packed packet is cut into pieces, as long as the first piece holds the whole header, the
  reader puts it together again, and is finished exactly with the last byte.
\<close>

theorem feed_chunks_pack:
  assumes "concat (c # cs) = packet_pack p" and "9 \<le> length c" and "packet_get_size p < 2 ^ 64"
  shows "feed_chunks True q (c # cs) = Inr (packet_received p, True)"
proof -
  let ?v = "pk_value p"
  have len: "length c + length (concat cs) = 9 + length ?v"
    using arg_cong [OF assms(1), of length] by (simp add: packet_get_size_def del: length_concat)
  have n: "length c < 2 ^ 64" "length ?v < 2 ^ 64 - 9"
    using len assms(3) by (simp_all add: packet_get_size_def del: length_concat)
  let ?h = "[pk_type p] @ le_bytes 8 (length ?v)"
  have "c @ concat cs = ?h @ ?v" using assms(1) by (simp add: packet_pack_def)
  then have "take (length c) (?h @ ?v) = c" "drop (length c) (?h @ ?v) = concat cs"
    by (metis append_eq_conv_conj)+
  then have c: "c = ?h @ take (length c - 9) ?v" and cs: "concat cs = drop (length c - 9) ?v"
    using assms(2) by (simp_all only: take_append drop_append) simp_all
  have field: "length_field c = length ?v"
    by (subst c) (use n in \<open>simp add: length_field_def le_value_length\<close>)
  have hd: "hd c = pk_type p" and drop: "drop 9 c = take (length c - 9) ?v"
    by (subst c, simp)+
  let ?p = "\<lparr>pk_remaining = word_of_nat (length ?v), pk_type = pk_type p, pk_value = []\<rparr>"
  have front: "partial_unpack True q c (length c) False = unpack_value ?p c (length c) 9"
    using partial_unpack_front [of c q False] assms(2) n field hd by simp
  show ?thesis
  proof (cases "length c - 9 < length ?v")
    case True
    have "concat cs \<noteq> []" using cs True by simp
    moreover have "length ?v - (length c - 9) = length (concat cs)" using cs by simp
    ultimately show ?thesis
      using front unpack_value_part [of ?p "length ?v" 9 c] True n assms(2) drop cs
        feed_chunks_rest [of "?p\<lparr>pk_value := drop 9 c, pk_remaining := word_of_nat (length (concat cs))\<rparr>" cs]
      by (simp add: packet_received_def del: length_concat)
  next
    case False
    then have "take (length ?v) (drop 9 c) = ?v" using drop by simp
    then show ?thesis
      using front unpack_value_part [of ?p "length ?v" 9 c] False n assms(2)
      by (simp add: packet_received_def)
  qed
qed

theorem feed_chunks_pack_witness:
  "feed_chunks True packet_new
     [take 10 (packet_pack (packet_of PT_CHAR_MSG [1, 2, 3])), drop 10 (packet_pack (packet_of PT_CHAR_MSG [1, 2, 3]))] =
     Inr (packet_of PT_CHAR_MSG [1, 2, 3], True)"
proof -
  define p where "p = packet_of PT_CHAR_MSG [1, 2, 3]"
  have "packet_get_size p = 12" "packet_received p = p"
    by (simp_all add: p_def packet_of_def packet_new_def packet_get_size_def packet_received_def)
  then show ?thesis
    using feed_chunks_pack [of "take 10 (packet_pack p)" "[drop 10 (packet_pack p)]" p packet_new]
    unfolding p_def [symmetric] by simp
qed

end
