(* ===== verification/SockAddr.thy ===== *)
theory SockAddr
  imports Serializable
begin

text \<open>
  \<open>struct sockaddr_in\<close> as the program copies it into packets byte by byte, and
  \<open>src/network/socket_util.cpp\<close>. The port is kept in network byte order, as in the struct.
\<close>

section \<open>Addresses\<close>

record sockaddr =
  sin_family :: u16
  sin_port :: u16
  sin_addr :: u32
  sin_zero :: bytes

definition SOCKADDR_SIZE :: nat where "SOCKADDR_SIZE = 16"

definition AF_INET :: u16 where "AF_INET = 2"

definition sockaddr_zero :: sockaddr where
  "sockaddr_zero = \<lparr>sin_family = 0, sin_port = 0, sin_addr = 0, sin_zero = replicate 8 0\<rparr>"

definition sockaddr_wf :: "sockaddr \<Rightarrow> bool" where
  "sockaddr_wf a \<longleftrightarrow> length (sin_zero a) = 8"

text \<open>\<open>htons\<close> swaps the two bytes on the little-endian target.\<close>

definition htons :: "u16 \<Rightarrow> u16" where
  "htons p = push_bit 8 p OR drop_bit 8 p"

definition sockaddr_eq :: "sockaddr \<Rightarrow> sockaddr \<Rightarrow> bool" where
  "sockaddr_eq one two \<longleftrightarrow> sin_family one = sin_family two \<and> sin_port one = sin_port two
     \<and> sin_addr one = sin_addr two"

definition clone_sockaddr :: "sockaddr \<Rightarrow> sockaddr \<Rightarrow> sockaddr" where
  "clone_sockaddr dest from =
     dest\<lparr>sin_family := sin_family from, sin_port := sin_port from, sin_addr := sin_addr from\<rparr>"

text \<open>The object representation: \<open>memcpy\<close> of \<open>sizeof(sockaddr_in)\<close> bytes.\<close>

definition sockaddr_bytes :: "sockaddr \<Rightarrow> bytes" where
  "sockaddr_bytes a = le_bytes 2 (unat (sin_family a)) @ le_bytes 2 (unat (sin_port a))
     @ le_bytes 4 (unat (sin_addr a)) @ sin_zero a"

definition sockaddr_of_bytes :: "bytes \<Rightarrow> sockaddr" where
  "sockaddr_of_bytes bs =
     \<lparr>sin_family = word_of_nat (le_value (take 2 bs)), sin_port = word_of_nat (le_value (take 2 (drop 2 bs))),
      sin_addr = word_of_nat (le_value (take 4 (drop 4 bs))), sin_zero = take 8 (drop 8 bs)\<rparr>"

lemma sockaddr_eq_equiv:
  "sockaddr_eq a a"
  "sockaddr_eq a b \<Longrightarrow> sockaddr_eq b a"
  "sockaddr_eq a b \<Longrightarrow> sockaddr_eq b c \<Longrightarrow> sockaddr_eq a c"
  by (simp_all add: sockaddr_eq_def)

lemma sockaddr_eq_clone: "sockaddr_eq (clone_sockaddr d a) a"
  by (simp add: sockaddr_eq_def clone_sockaddr_def)

lemma length_sockaddr_bytes [simp]: "sockaddr_wf a \<Longrightarrow> length (sockaddr_bytes a) = SOCKADDR_SIZE"
  by (simp add: sockaddr_bytes_def sockaddr_wf_def SOCKADDR_SIZE_def)

lemma word_of_le_bytes [simp]:
  "word_of_nat (le_value (le_bytes 2 (unat (p :: u16)))) = p"
  "word_of_nat (le_value (le_bytes 4 (unat (q :: u32)))) = q"
proof -
  have "unat p < 256 ^ 2" "unat q < 256 ^ 4"
    using unsigned_less [of p] unsigned_less [of q] by simp_all
  then show "word_of_nat (le_value (le_bytes 2 (unat p))) = p"
    "word_of_nat (le_value (le_bytes 4 (unat q))) = q"
    by (simp_all add: le_value_le_bytes)
qed

lemma sockaddr_of_bytes_of: "sockaddr_wf a \<Longrightarrow> sockaddr_of_bytes (sockaddr_bytes a @ bs) = a"
  by (intro sockaddr.equality)
    (simp_all add: sockaddr_of_bytes_def sockaddr_bytes_def sockaddr_wf_def)

lemma sockaddr_of_bytes_wf: "16 \<le> length bs \<Longrightarrow> sockaddr_wf (sockaddr_of_bytes bs)"
  by (simp add: sockaddr_of_bytes_def sockaddr_wf_def)

section \<open>A list of addresses\<close>

text \<open>
  The loop of a client update: as long as a whole address is left, copy it out.
\<close>

function parse_addrs :: "bytes \<Rightarrow> nat \<Rightarrow> sockaddr list" where
  "parse_addrs value pos =
     (if pos + SOCKADDR_SIZE \<le> length value
      then sockaddr_of_bytes (drop pos value) # parse_addrs value (pos + SOCKADDR_SIZE) else [])"
  by pat_completeness auto
termination
  by (relation "measure (\<lambda>(value, pos). length value - pos)") (auto simp: SOCKADDR_SIZE_def)

declare parse_addrs.simps [simp del]

lemma parse_addrs_concat:
  assumes "list_all sockaddr_wf as"
  shows "parse_addrs (pre @ concat (map sockaddr_bytes as)) (length pre) = as"
  using assms
proof (induction as arbitrary: pre)
  case Nil
  show ?case by (simp add: parse_addrs.simps [of pre] SOCKADDR_SIZE_def)
next
  case (Cons a as)
  have "parse_addrs ((pre @ sockaddr_bytes a) @ concat (map sockaddr_bytes as)) (length (pre @ sockaddr_bytes a)) = as"
    using Cons by (intro Cons.IH) simp
  with Cons.prems show ?case
    by (subst parse_addrs.simps) (simp add: sockaddr_of_bytes_of)
qed

section \<open>Sockets\<close>

text \<open>
  What the operating system answers to the calls of one \<open>create_socket\<close>, in the order of
  the calls; \<open>os_name\<close> is the address \<open>getsockname\<close> reports, which is an IPv4 address of the size that is asserted.
\<close>

record sock_calls =
  os_socket :: int
  os_fcntl :: int
  os_reuse :: int
  os_sndbuf :: int
  os_rcvbuf :: int
  os_bind :: int
  os_name :: "sockaddr option"

definition get_socket_info :: "sock_calls \<Rightarrow> sockaddr \<Rightarrow> bool \<times> sockaddr" where
  "get_socket_info os saddr = (case os_name os of None \<Rightarrow> (False, saddr) | Some name \<Rightarrow> (True, name))"

definition make_non_blocking :: "sock_calls \<Rightarrow> bool" where
  "make_non_blocking os \<longleftrightarrow> \<not> os_fcntl os < 0"

definition create_socket :: "sock_calls \<Rightarrow> bool \<Rightarrow> int" where
  "create_socket os non_block =
     (if os_socket os < 0 then -1
      else if non_block \<and> \<not> make_non_blocking os then -1
      else if os_reuse os < 0 then -1
      else if os_sndbuf os < 0 then -1
      else if os_rcvbuf os < 0 then -1
      else if os_bind os < 0 then -1
      else os_socket os)"

text \<open>
  The overload that fills in \<open>self\<close>: \<open>pton\<close> is \<open>inet_pton\<close> on the given text. When the
  system picks the port, the bound address is read back even if the socket failed.
\<close>

definition create_bound_socket ::
  "(string \<Rightarrow> u32 option) \<Rightarrow> sock_calls \<Rightarrow> string option \<Rightarrow> u16 \<Rightarrow> sockaddr \<Rightarrow> bool \<Rightarrow> int \<times> sockaddr" where
  "create_bound_socket pton os ip port self non_block =
     (let self = self\<lparr>sin_family := AF_INET\<rparr> in
      case (case ip of Some text \<Rightarrow> pton text | None \<Rightarrow> Some 0) of
        None \<Rightarrow> (-1, self)
      | Some addr \<Rightarrow>
          let self = self\<lparr>sin_addr := addr, sin_port := htons port\<rparr>;
              fd = create_socket os non_block in
          if ip = None \<or> port = 0
          then (case get_socket_info os self of (ok, self) \<Rightarrow> (if ok then fd else -1, self))
          else (fd, self))"

text \<open>A socket comes back only when every call succeeded, and then it is the one created.\<close>

lemma create_socket_ok:
  "0 \<le> create_socket os nb \<longleftrightarrow> 0 \<le> os_socket os \<and> (nb \<longrightarrow> 0 \<le> os_fcntl os) \<and> 0 \<le> os_reuse os
     \<and> 0 \<le> os_sndbuf os \<and> 0 \<le> os_rcvbuf os \<and> 0 \<le> os_bind os"
  by (auto simp: create_socket_def make_non_blocking_def)

lemma create_bound_socket_self:
  assumes "create_bound_socket pton os ip port self nb = (fd, self')" and "0 \<le> fd"
  shows "(if ip = None \<or> port = 0 then os_name os = Some self'
      else sin_port self' = htons port \<and> sin_family self' = AF_INET \<and> pton (the ip) = Some (sin_addr self'))
    \<and> fd = os_socket os"
  using assms
  by (auto simp: create_bound_socket_def get_socket_info_def create_socket_def make_non_blocking_def Let_def split: option.splits if_splits)

end
