(* ===== verification/Connection.thy ===== *)
theory Connection
  imports Packet SockAddr
begin

text \<open>
  \<open>include/network/connection.h\<close> and \<open>src/network/connection.cpp\<close>: one end of a connection, its
  4096-byte receive buffer and the loops that send, receive and parse. What the socket
  answers is part of the state: the events of coming calls of \<open>recv\<close>, and for each attempt
  of \<open>_send_packet\<close> the outcome of \<open>getsockopt\<close> and of \<open>send\<close>. The watchdogs are switched off in
  the source (\<open>dog_is_alive\<close> returns \<open>true\<close>) and have no effect.
\<close>

definition BUFFER_SIZE :: nat where "BUFFER_SIZE = 4096"

lemma BUFFER_SIZE_pos [simp]: "0 < BUFFER_SIZE"
  by (simp add: BUFFER_SIZE_def)

datatype recv_event = Data bytes | WouldBlock | RecvError | Closed

datatype sock_status = SockOk | SockBad | SockOptFails

datatype send_event = Sent nat | SendAgain | SendError

record conn =
  cn_other :: sockaddr
  cn_finished :: bool
  cn_pos :: u64
  cn_buf :: bytes
  cn_in :: "recv_event list"
  cn_sends :: "(sock_status \<times> send_event) list"
  cn_out :: bytes

definition conn_new :: "sockaddr \<Rightarrow> recv_event list \<Rightarrow> (sock_status \<times> send_event) list \<Rightarrow> conn" where
  "conn_new other ins sends = \<lparr>cn_other = other, cn_finished = False, cn_pos = 0,
     cn_buf = replicate BUFFER_SIZE 0, cn_in = ins, cn_sends = sends, cn_out = []\<rparr>"

section \<open>Sending\<close>

text \<open>
  The loop ends with an error of the socket, with an error of \<open>send\<close>, or as soon as \<open>send\<close>
  took at least one byte. \<open>SockOptFails\<close> is \<open>getsockopt\<close> itself failing, which finishes the
  connection and lets the attempt go on.
\<close>

fun send_attempts :: "bytes \<Rightarrow> (sock_status \<times> send_event) list \<Rightarrow> conn \<Rightarrow> (bool \<times> conn) res" where
  "send_attempts packed [] c = Inl Blocked"
| "send_attempts packed ((st, r) # as) c =
     (let c = c\<lparr>cn_sends := as, cn_finished := (cn_finished c \<or> st = SockOptFails)\<rparr> in
      if st = SockBad then Inr (False, c)
      else (case r of
          SendError \<Rightarrow> Inr (False, c)
        | SendAgain \<Rightarrow> send_attempts packed as c
        | Sent n \<Rightarrow> if n = 0 then send_attempts packed as c
                    else Inr (True, c\<lparr>cn_out := cn_out c @ take n packed\<rparr>)))"

definition send_packet :: "packet \<Rightarrow> conn \<Rightarrow> (bool \<times> conn) res" where
  "send_packet p c = send_attempts (packet_pack p) (cn_sends c) c"

definition keep_alive :: "conn \<Rightarrow> (bool \<times> conn) res" where
  "keep_alive c = send_packet (packet_of PT_KEEP_ALIVE []) c"

definition ask_to_finish :: "conn \<Rightarrow> conn" where
  "ask_to_finish c = c\<lparr>cn_finished := True\<rparr>"

definition send_shutdown :: "conn \<Rightarrow> conn res" where
  "send_shutdown c = emap (\<lambda>(_, c). c\<lparr>cn_finished := True\<rparr>) (send_packet (packet_of PT_SHUTDOWN []) c)"

definition send_teardown_request :: "conn \<Rightarrow> conn res" where
  "send_teardown_request c =
     emap (\<lambda>(sent, c). if sent then c else c\<lparr>cn_finished := True\<rparr>) (send_packet (packet_of PT_TEARDOWN []) c)"

text \<open>
  \<open>connect_to_target\<close>: the outcomes of \<open>connect\<close>, \<open>select\<close> and the socket check that follow
  each other. The connection is finished exactly when one of them fails for good.
\<close>

record connect_calls =
  cc_connected :: bool
  cc_in_progress :: bool
  cc_select :: int
  cc_writable :: bool
  cc_sock_error :: int

definition connect_to_target :: "connect_calls \<Rightarrow> conn \<Rightarrow> conn" where
  "connect_to_target os c =
     (if cc_connected os then c
      else if cc_in_progress os then
        if cc_select os < 0 then c\<lparr>cn_finished := True\<rparr>
        else if cc_writable os \<and> cc_sock_error os \<noteq> 0 then c\<lparr>cn_finished := True\<rparr>
        else c
      else c\<lparr>cn_finished := True\<rparr>)"

section \<open>Receiving\<close>

text \<open>\<open>memcpy\<close> into the receive buffer at the current position.\<close>

definition store_received :: "bytes \<Rightarrow> conn \<Rightarrow> conn res" where
  "store_received bs c =
     (let pos = unat (cn_pos c) in
      if pos + length bs \<le> length (cn_buf c)
      then Inr (c\<lparr>cn_buf := take pos (cn_buf c) @ bs @ drop (pos + length bs) (cn_buf c),
                  cn_pos := cn_pos c + word_of_nat (length bs)\<rparr>)
      else Inl (Undefined OutOfBounds))"

text \<open>
  At most five tries; a socket without events would block. \<open>recv\<close> asks for
  \<open>BUFFER_SIZE - _r_buf_pos\<close> bytes and leaves the rest of the data in the socket.
\<close>

fun receive_attempts :: "nat \<Rightarrow> conn \<Rightarrow> (int \<times> conn) res" where
  "receive_attempts 0 c = Inr (-1, c)"
| "receive_attempts (Suc k) c =
     (case cn_in c of
        [] \<Rightarrow> receive_attempts k c
      | WouldBlock # es \<Rightarrow> receive_attempts k (c\<lparr>cn_in := es\<rparr>)
      | RecvError # es \<Rightarrow> Inr (-1, c\<lparr>cn_in := es\<rparr>)
      | Closed # es \<Rightarrow> Inr (0, c)
      | Data bs # es \<Rightarrow>
          let n = unat (word_of_nat BUFFER_SIZE - cn_pos c) in
          ebind (store_received (take n bs) c) (\<lambda>c.
            Inr (int (length (take n bs)),
              c\<lparr>cn_in := (if n < length bs then Data (drop n bs) # es else es)\<rparr>)))"

definition receive_data :: "conn \<Rightarrow> (int \<times> conn) res" where
  "receive_data c = receive_attempts 5 c"

text \<open>
  Dropping the parsed bytes: \<open>memmove\<close>, a position that is subtracted without a check, and
  \<open>memset\<close> from the new position on.
\<close>

definition drop_parsed :: "nat \<Rightarrow> conn \<Rightarrow> conn res" where
  "drop_parsed parsed_pos c =
     (if BUFFER_SIZE \<le> parsed_pos
      then Inr (c\<lparr>cn_buf := replicate BUFFER_SIZE 0, cn_pos := 0\<rparr>)
      else
        let moved = drop parsed_pos (cn_buf c) @ drop (BUFFER_SIZE - parsed_pos) (cn_buf c);
            pos = cn_pos c - word_of_nat parsed_pos in
        if unat pos \<le> BUFFER_SIZE
        then Inr (c\<lparr>cn_buf := take (unat pos) moved @ replicate (BUFFER_SIZE - unat pos) 0, cn_pos := pos\<rparr>)
        else Inl (Undefined OutOfBounds))"

text \<open>The loop of \<open>unpack\<close>; every round uses up the whole buffer or finishes the packet.\<close>

lemma unpack_value_decreases:
  "unpack_value p buf BUFFER_SIZE 0 = Inr (k, p', fin) \<Longrightarrow> fin \<or> unat (pk_remaining p') < unat (pk_remaining p)"
  by (auto simp: unpack_value_def Let_def emap_eq_Inr BUFFER_SIZE_def word_less_nat_alt word_le_nat_alt unat_sub
      split: if_splits)

function unpack_loop :: "nat \<Rightarrow> packet \<Rightarrow> bool \<Rightarrow> conn \<Rightarrow> (nat \<times> packet \<times> bool \<times> conn) res" where
  "unpack_loop parsed_pos p finished c =
     (if \<not> finished \<and> 0 < parsed_pos
      then ebind (drop_parsed parsed_pos c) (\<lambda>c.
           ebind (receive_data c) (\<lambda>(_, c).
           ebind (partial_unpack False p (cn_buf c) BUFFER_SIZE finished) (\<lambda>(parsed_pos, p, finished).
             unpack_loop parsed_pos p finished c)))
      else Inr (parsed_pos, p, finished, c))"
  by pat_completeness auto
termination
proof (relation "measure (\<lambda>(_, p, finished, _). if finished then 0 else Suc (unat (pk_remaining p)))", goal_cases)
  case 2
  then show ?case by (auto simp: partial_unpack_def dest!: unpack_value_decreases)
qed simp

declare unpack_loop.simps [simp del]

definition conn_unpack :: "packet \<Rightarrow> conn \<Rightarrow> (bool \<times> packet \<times> conn) res" where
  "conn_unpack p c =
     ebind (partial_unpack True p (cn_buf c) BUFFER_SIZE False) (\<lambda>(parsed_pos, p, finished).
     ebind (unpack_loop parsed_pos p finished c) (\<lambda>(parsed_pos, p, finished, c).
     emap (\<lambda>c. (finished, p, c)) (drop_parsed parsed_pos c)))"

section \<open>Parsing\<close>

datatype parse_result = ParseError | Success | Response

text \<open>\<open>Connection::_parse_data\<close>; printing is left out, \<open>_respond\<close> of the base class does nothing.\<close>

definition base_parse_data :: "packet \<Rightarrow> conn \<Rightarrow> parse_result \<times> conn" where
  "base_parse_data p c =
     (let t = pk_type p in
      if t = PT_CLIENT_UPDATE then (Success, c)
      else if t = PT_REGISTER then (Success, c)
      else if t = PT_KEEP_ALIVE then (Success, c)
      else if t = PT_ASK_FOR_ID then (Response, c)
      else if t = PT_ID then
        if length (pk_value p) \<noteq> SOCKADDR_SIZE then (ParseError, c)
        else (Success, c\<lparr>cn_other := sockaddr_of_bytes (pk_value p)\<rparr>)
      else if t = PT_CHAR_MSG \<or> t = PT_ERROR_MSG then (Success, c)
      else if t = PT_SHUTDOWN \<or> t = PT_TEARDOWN then (Success, ask_to_finish c)
      else (ParseError, c))"

text \<open>
  \<open>receive_and_parse\<close> over the virtual \<open>_parse_data\<close> and \<open>_respond\<close>, which work on the
  connection and the state \<open>'s\<close> of its owner. The loop need not end: a peer can keep it busy.
\<close>

partial_function (option) parse_loop ::
  "(packet \<Rightarrow> conn \<Rightarrow> 's \<Rightarrow> (parse_result \<times> conn \<times> 's) res) \<Rightarrow> (packet \<Rightarrow> conn \<Rightarrow> 's \<Rightarrow> (int \<times> conn \<times> 's) res)
    \<Rightarrow> packet \<Rightarrow> conn \<Rightarrow> 's \<Rightarrow> (bool \<times> conn \<times> 's) res option" where
  "parse_loop parse respond p c s =
     (if \<not> 0 < cn_pos c then Some (Inr (True, c, s))
      else (case conn_unpack p c of
          Inl e \<Rightarrow> Some (Inl e)
        | Inr (ok, p, c) \<Rightarrow>
            if \<not> ok then Some (Inr (True, c, s))
            else (case parse p c s of
                Inl e \<Rightarrow> Some (Inl e)
              | Inr (r, c, s) \<Rightarrow>
                  if r = Success then Some (Inr (True, c, s))
                  else if r = ParseError then Some (Inr (False, c, s))
                  else (case respond p c s of
                      Inl e \<Rightarrow> Some (Inl e)
                    | Inr (_, c, s) \<Rightarrow> parse_loop parse respond p c s))))"

definition receive_and_parse ::
  "(packet \<Rightarrow> conn \<Rightarrow> 's \<Rightarrow> (parse_result \<times> conn \<times> 's) res) \<Rightarrow> (packet \<Rightarrow> conn \<Rightarrow> 's \<Rightarrow> (int \<times> conn \<times> 's) res)
    \<Rightarrow> conn \<Rightarrow> 's \<Rightarrow> (bool \<times> conn \<times> 's) res option" where
  "receive_and_parse parse respond c s =
     (case receive_data c of
        Inl e \<Rightarrow> Some (Inl e)
      | Inr (n, c) \<Rightarrow> if n < 0 then Some (Inr (False, c, s)) else parse_loop parse respond packet_new c s)"

section \<open>The receive buffer\<close>

text \<open>
  A connection whose buffer holds the unread bytes \<open>d\<close>, followed by zeros: the shape every
  operation restores.
\<close>

definition conn_with :: "conn \<Rightarrow> bytes \<Rightarrow> conn" where
  "conn_with c d = c\<lparr>cn_pos := word_of_nat (length d), cn_buf := d @ replicate (BUFFER_SIZE - length d) 0\<rparr>"

lemma conn_with_fields [simp]:
  "cn_other (conn_with c d) = cn_other c" "cn_finished (conn_with c d) = cn_finished c"
  "cn_in (conn_with c d) = cn_in c" "cn_sends (conn_with c d) = cn_sends c" "cn_out (conn_with c d) = cn_out c"
  "conn_with (conn_with c d) d' = conn_with c d'"
  "(conn_with c d)\<lparr>cn_in := es\<rparr> = conn_with (c\<lparr>cn_in := es\<rparr>) d"
  "(conn_with c d)\<lparr>cn_other := a\<rparr> = conn_with (c\<lparr>cn_other := a\<rparr>) d"
  "(conn_with c d)\<lparr>cn_finished := f\<rparr> = conn_with (c\<lparr>cn_finished := f\<rparr>) d"
  "(conn_with c d)\<lparr>cn_sends := ss, cn_out := out\<rparr> = conn_with (c\<lparr>cn_sends := ss, cn_out := out\<rparr>) d"
  by (simp_all add: conn_with_def)

lemma conn_with_buf:
  assumes "length d \<le> BUFFER_SIZE"
  shows "unat (cn_pos (conn_with c d)) = length d" and "length (cn_buf (conn_with c d)) = BUFFER_SIZE"
    and "cn_pos (conn_with c d) = word_of_nat (length d)"
    and "cn_buf (conn_with c d) = d @ replicate (BUFFER_SIZE - length d) 0"
  using assms by (simp_all add: conn_with_def unat_u64 BUFFER_SIZE_def)

lemma conn_new_with: "conn_new a ins sends = conn_with (conn_new a ins sends) []"
  by (simp add: conn_new_def conn_with_def)

lemma drop_parsed_with:
  assumes "length d \<le> BUFFER_SIZE" and "k \<le> length d"
  shows "drop_parsed k (conn_with c d) = Inr (conn_with c (drop k d))"
proof (cases "k = BUFFER_SIZE")
  case True
  then show ?thesis using assms by (simp add: drop_parsed_def conn_with_def)
next
  case False
  then have k: "k < BUFFER_SIZE" using assms by simp
  have pos: "cn_pos (conn_with c d) - word_of_nat k = word_of_nat (length d - k)"
    using assms by (simp add: conn_with_def of_nat_diff)
  moreover have "unat (word_of_nat (length d - k) :: u64) = length d - k"
    using assms by (intro unat_u64) (simp add: BUFFER_SIZE_def)
  ultimately show ?thesis
    using k assms by (simp add: drop_parsed_def Let_def conn_with_def del: of_nat_diff)
qed

text \<open>Parsing more than was received makes the position wrap around.\<close>

lemma drop_parsed_beyond:
  assumes "length d < k" and "k < BUFFER_SIZE"
  shows "drop_parsed k (conn_with c d) = Inl (Undefined OutOfBounds)"
proof -
  have lt: "(word_of_nat (length d) :: u64) < word_of_nat k"
    using assms by (subst u64_less) (simp_all add: BUFFER_SIZE_def)
  have "unat (word_of_nat (length d) - word_of_nat k :: u64) = 2 ^ 64 + length d - k"
    using lt assms unat_sub_if_size [of "word_of_nat (length d) :: u64" "word_of_nat k"]
    by (simp add: word_le_nat_alt word_less_nat_alt unat_u64 BUFFER_SIZE_def word_size)
  then show ?thesis
    using assms by (simp add: drop_parsed_def Let_def conn_with_def BUFFER_SIZE_def)
qed

lemma receive_with:
  assumes "length d \<le> BUFFER_SIZE" and "cn_in c = Data bs # es"
  shows "receive_data (conn_with c d) =
     (let got = take (BUFFER_SIZE - length d) bs; left = drop (BUFFER_SIZE - length d) bs in
      Inr (int (length got),
        conn_with (c\<lparr>cn_in := (if left = [] then es else Data left # es)\<rparr>) (d @ got)))"
proof -
  let ?n = "BUFFER_SIZE - length d"
  have n: "unat (word_of_nat BUFFER_SIZE - cn_pos (conn_with c d)) = ?n"
    using assms(1) unat_u64 [of ?n] by (simp add: conn_with_def of_nat_diff BUFFER_SIZE_def)
  have "length d + length (take ?n bs) \<le> BUFFER_SIZE" using assms(1) by simp
  then have "store_received (take ?n bs) (conn_with c d) = Inr (conn_with c (d @ take ?n bs))"
    using assms(1) conn_with_buf [OF assms(1), of c]
    by (simp add: store_received_def Let_def) (simp add: conn_with_def)
  then show ?thesis
    using assms n by (simp add: receive_data_def numeral_eq_Suc Let_def)
qed

lemma receive_nothing: "cn_in c = [] \<Longrightarrow> receive_data c = Inr (-1, c)"
  by (simp add: receive_data_def numeral_eq_Suc)

section \<open>Unpacking\<close>

lemma le_value_zeros [simp]: "le_value (bs @ replicate n 0) = le_value bs"
proof (induction bs)
  case Nil
  show ?case by (induction n) simp_all
qed simp

lemma le_value_take: "le_value (take k bs) \<le> le_value bs"
  by (induction bs arbitrary: k) (simp_all add: take_Cons')

lemma conn_unpack_finished:
  assumes "length d \<le> BUFFER_SIZE" and "length_field (d @ replicate (BUFFER_SIZE - length d) 0) = n" and "9 + n \<le> BUFFER_SIZE"
  shows "conn_unpack q (conn_with c d) =
     emap (\<lambda>c'. (True, \<lparr>pk_remaining = 0, pk_type = hd (d @ replicate (BUFFER_SIZE - length d) 0),
         pk_value = take n (drop 9 (d @ replicate (BUFFER_SIZE - length d) 0))\<rparr>, c'))
       (drop_parsed (9 + n) (conn_with c d))"
proof -
  let ?buf = "d @ replicate (BUFFER_SIZE - length d) 0"
  have buf: "cn_buf (conn_with c d) = ?buf" "length ?buf = BUFFER_SIZE"
    using assms(1) by (simp_all add: conn_with_def)
  have "partial_unpack True q ?buf BUFFER_SIZE False =
      Inr (9 + n, \<lparr>pk_remaining = 0, pk_type = hd ?buf, pk_value = take n (drop 9 ?buf)\<rparr>, True)"
    using partial_unpack_front [of ?buf q False] unpack_value_part [of "\<lparr>pk_remaining = word_of_nat n,
        pk_type = hd ?buf, pk_value = []\<rparr>" n 9 ?buf] assms(2,3) buf(2)
    by (simp add: BUFFER_SIZE_def)
  then show ?thesis
    by (simp add: conn_unpack_def buf(1) unpack_loop.simps [of "9 + n" _ True])
qed

text \<open>A packet that is in the buffer as a whole is taken out and the bytes after it stay.\<close>

lemma conn_unpack_complete:
  assumes "length (packet_pack p @ rest) \<le> BUFFER_SIZE"
  shows "conn_unpack q (conn_with c (packet_pack p @ rest)) = Inr (True, packet_received p, conn_with c rest)"
proof -
  let ?n = "length (pk_value p)"
  have n: "9 + ?n \<le> BUFFER_SIZE" "?n < 2 ^ 64"
    using assms by (simp_all add: packet_get_size_def BUFFER_SIZE_def)
  have field: "length_field ((packet_pack p @ rest) @ z) = ?n" for z
    using n(2) by (simp add: length_field_def packet_pack_def le_value_length)
  have parts: "hd ((packet_pack p @ rest) @ z) = pk_type p" "take ?n (drop 9 ((packet_pack p @ rest) @ z)) = pk_value p" for z
    by (simp_all add: packet_pack_def)
  have "drop_parsed (9 + ?n) (conn_with c (packet_pack p @ rest)) = Inr (conn_with c rest)"
    using drop_parsed_with [OF assms, of "9 + ?n" c] by (simp only: drop_pack) (simp add: packet_get_size_def)
  then show ?thesis
    by (subst conn_unpack_finished [OF assms field n(1)], unfold parts) (simp add: packet_received_def)
qed



text \<open>
  A packet longer than the buffer is put together when every \<open>recv\<close> fills the buffer, as it
  does when the rest of the packet has already arrived.
\<close>

lemma unpack_loop_large:
  assumes "pk_remaining p = word_of_nat (length v)" and "v \<noteq> []" and "length v < 2 ^ 64"
    and "cn_in c = Data (v @ rest) # es"
  shows "\<exists>k d left. unpack_loop BUFFER_SIZE p False (conn_with c d0) =
       Inr (k, p\<lparr>pk_value := pk_value p @ v, pk_remaining := 0\<rparr>, True,
         conn_with (c\<lparr>cn_in := (if left = [] then es else Data left # es)\<rparr>) d)
     \<and> k \<le> length d \<and> length d \<le> BUFFER_SIZE \<and> drop k d @ left = rest"
  using assms
proof (induction "length v" arbitrary: p v c d0 rule: less_induct)
  case less
  let ?more = "v @ rest"
  let ?got = "take BUFFER_SIZE ?more" and ?left = "drop BUFFER_SIZE ?more"
  let ?c = "c\<lparr>cn_in := (if ?left = [] then es else Data ?left # es)\<rparr>"
  let ?buf = "?got @ replicate (BUFFER_SIZE - length ?got) 0"
  have dropped: "drop_parsed BUFFER_SIZE (conn_with c d0) = Inr (conn_with c [])"
    by (simp add: drop_parsed_def conn_with_def)
  have recv: "receive_data (conn_with c []) = Inr (int (length ?got), conn_with ?c ?got)"
    using receive_with [of "[]" c ?more es] less.prems(4) by (simp add: Let_def)
  have buf: "cn_buf (conn_with ?c ?got) = ?buf" "length ?buf = BUFFER_SIZE" by (simp_all add: conn_with_def)
  have part: "partial_unpack False p ?buf BUFFER_SIZE False =
     (if BUFFER_SIZE < length v
      then Inr (BUFFER_SIZE, p\<lparr>pk_value := pk_value p @ ?buf, pk_remaining := word_of_nat (length v - BUFFER_SIZE)\<rparr>, False)
      else Inr (length v, p\<lparr>pk_value := pk_value p @ take (length v) ?buf, pk_remaining := 0\<rparr>, True))"
    using unpack_value_part [of p "length v" 0 ?buf] less.prems buf(2)
    by (simp add: partial_unpack_def BUFFER_SIZE_def)
  have step: "unpack_loop BUFFER_SIZE p False (conn_with c d0) =
     ebind (partial_unpack False p ?buf BUFFER_SIZE False)
       (\<lambda>(parsed_pos, p, finished). unpack_loop parsed_pos p finished (conn_with ?c ?got))"
    by (subst unpack_loop.simps) (simp only: dropped recv buf(1) ebind_simps split_beta fst_conv snd_conv
      BUFFER_SIZE_pos simp_thms if_True)
  show ?case
  proof (cases "BUFFER_SIZE < length v")
    case True
    let ?v = "drop BUFFER_SIZE v" and ?p = "p\<lparr>pk_value := pk_value p @ take BUFFER_SIZE v,
      pk_remaining := word_of_nat (length v - BUFFER_SIZE)\<rparr>"
    have got: "?buf = take BUFFER_SIZE v" using True by simp
    have c: "cn_in ?c = Data (?v @ rest) # es" using True by simp
    have "\<exists>k d left. unpack_loop BUFFER_SIZE ?p False (conn_with ?c ?got) =
       Inr (k, ?p\<lparr>pk_value := pk_value ?p @ ?v, pk_remaining := 0\<rparr>, True,
         conn_with (?c\<lparr>cn_in := (if left = [] then es else Data left # es)\<rparr>) d)
     \<and> k \<le> length d \<and> length d \<le> BUFFER_SIZE \<and> drop k d @ left = rest"
    proof (rule less.hyps)
      show "length ?v < length v" using True by (simp add: BUFFER_SIZE_def)
      show "pk_remaining ?p = word_of_nat (length ?v)" by simp
      show "?v \<noteq> []" using True by simp
      show "length ?v < 2 ^ 64" using less.prems(3) by simp
      show "cn_in ?c = Data (?v @ rest) # es" by (rule c)
    qed
    then show ?thesis using step part True unfolding got by simp
  next
    case False
    have "take (length v) ?buf = v" using False by simp
    moreover have "length v \<le> length ?got" using False by simp
    moreover have "drop (length v) ?got @ ?left = rest" using False by simp
    ultimately show ?thesis
      using step part False
      by (intro exI [of _ "length v"] exI [of _ ?got] exI [of _ ?left]) (simp add: unpack_loop.simps [of _ _ True])
  qed
qed

text \<open>
  A packet longer than the receive buffer is put together when the rest of it has already arrived: the
  packet is delivered whole, and of what follows it no byte is lost, repeated or reordered between the
  buffer and the socket.
\<close>

lemma conn_unpack_large:
  assumes "BUFFER_SIZE < packet_get_size p" and "packet_get_size p < 2 ^ 64"
    and "cn_in c = Data (drop BUFFER_SIZE (packet_pack p) @ rest) # es"
  shows "\<exists>d left. conn_unpack q (conn_with c (take BUFFER_SIZE (packet_pack p))) =
       Inr (True, packet_received p, conn_with (c\<lparr>cn_in := (if left = [] then es else Data left # es)\<rparr>) d)
     \<and> length d \<le> BUFFER_SIZE \<and> d @ left = rest"
proof -
  let ?d = "take BUFFER_SIZE (packet_pack p)" and ?n = "length (pk_value p)"
  let ?v1 = "take (BUFFER_SIZE - 9) (pk_value p)" and ?v2 = "drop (BUFFER_SIZE - 9) (pk_value p)"
  have n: "BUFFER_SIZE < 9 + ?n" "?n < 2 ^ 64 - 9" using assms(1,2) by (simp_all add: packet_get_size_def)
  have d: "?d = [pk_type p] @ le_bytes 8 ?n @ ?v1"
    using take_pack [of "BUFFER_SIZE - 9" p] by (simp add: BUFFER_SIZE_def)
  have len: "length ?d = BUFFER_SIZE" using assms(1) by simp
  have field: "length_field ?d = ?n" and hd: "hd ?d = pk_type p" and v1: "drop 9 ?d = ?v1"
    unfolding d using n(2) by (simp_all add: length_field_def le_value_length)
  let ?p = "\<lparr>pk_remaining = word_of_nat (length ?v2), pk_type = pk_type p, pk_value = ?v1\<rparr>"
  have front: "partial_unpack True q ?d BUFFER_SIZE False = Inr (BUFFER_SIZE, ?p, False)"
    using partial_unpack_front [of ?d q False] unpack_value_part [of "\<lparr>pk_remaining = word_of_nat ?n,
        pk_type = pk_type p, pk_value = []\<rparr>" ?n 9 ?d] n len field hd v1
    by (auto simp: BUFFER_SIZE_def)
  have rest: "drop BUFFER_SIZE (packet_pack p) = ?v2"
    using arg_cong [OF append_take_drop_id [of BUFFER_SIZE "packet_pack p"], of "drop BUFFER_SIZE"]
      append_take_drop_id [of "BUFFER_SIZE - 9" "pk_value p"] len
    by (simp add: packet_pack_def drop_Cons' BUFFER_SIZE_def)
  have "?v2 \<noteq> []" "length ?v2 < 2 ^ 64" using n by (simp_all add: BUFFER_SIZE_def)
  then obtain k d left where loop: "unpack_loop BUFFER_SIZE ?p False (conn_with c ?d) =
       Inr (k, ?p\<lparr>pk_value := ?v1 @ ?v2, pk_remaining := 0\<rparr>, True,
         conn_with (c\<lparr>cn_in := (if left = [] then es else Data left # es)\<rparr>) d)"
    and kd: "k \<le> length d" "length d \<le> BUFFER_SIZE" "drop k d @ left = rest"
    using unpack_loop_large [of ?p ?v2 c rest es ?d] assms(3) rest by auto
  have "conn_unpack q (conn_with c ?d) =
      Inr (True, packet_received p, conn_with (c\<lparr>cn_in := (if left = [] then es else Data left # es)\<rparr>) (drop k d))"
    using front loop drop_parsed_with [OF kd(2,1)] len
    by (simp add: conn_unpack_def conn_with_buf packet_received_def)
  with kd show ?thesis by (intro exI [of _ "drop k d"] exI [of _ left]) auto
qed

section \<open>Parsing\<close>

lemma parse_loop_packet:
  assumes "length (packet_pack p @ rest) \<le> BUFFER_SIZE"
  shows "parse_loop parse respond q (conn_with c (packet_pack p @ rest)) s =
     (case parse (packet_received p) (conn_with c rest) s of
        Inl e \<Rightarrow> Some (Inl e)
      | Inr (r, c, s) \<Rightarrow>
          if r = Success then Some (Inr (True, c, s))
          else if r = ParseError then Some (Inr (False, c, s))
          else (case respond (packet_received p) c s of
              Inl e \<Rightarrow> Some (Inl e)
            | Inr (_, c, s) \<Rightarrow> parse_loop parse respond (packet_received p) c s))"
proof -
  have len: "length (packet_pack p @ rest) \<le> BUFFER_SIZE" by (rule assms)
  have "unat (cn_pos (conn_with c (packet_pack p @ rest))) = length (packet_pack p @ rest)"
    by (rule conn_with_buf(1) [OF len])
  then have "0 < cn_pos (conn_with c (packet_pack p @ rest))"
    by (simp add: word_less_nat_alt packet_get_size_def)
  then show ?thesis by (subst parse_loop.simps) (simp add: conn_unpack_complete [OF assms])
qed

lemma parse_loop_empty: "parse_loop parse respond q (conn_with c []) s = Some (Inr (True, conn_with c [], s))"
  by (subst parse_loop.simps) (simp add: conn_with_def)

text \<open>
  \<open>receive_and_parse\<close> when new data completes a packet: the packet is parsed, and on success
  the bytes after it wait for the next call.
\<close>

lemma receive_and_parse_packet:
  assumes "cn_in c = Data bs # es" and "d @ bs = packet_pack p @ rest" and "length (d @ bs) \<le> BUFFER_SIZE"
  shows "receive_and_parse parse respond (conn_with c d) s =
     parse_loop parse respond packet_new (conn_with (c\<lparr>cn_in := es\<rparr>) (packet_pack p @ rest)) s"
proof -
  have "take (BUFFER_SIZE - length d) bs = bs" "drop (BUFFER_SIZE - length d) bs = []"
    "length d \<le> BUFFER_SIZE"
    using assms(3) by simp_all
  then show ?thesis
    using receive_with [of d c bs es] assms(1,2) by (simp add: receive_and_parse_def Let_def)
qed

text \<open>Packets that are already in the buffer are not looked at before new data arrives.\<close>

lemma receive_and_parse_stalls:
  "cn_in c = [] \<Longrightarrow> receive_and_parse parse respond c s = Some (Inr (False, c, s))"
  by (simp add: receive_and_parse_def receive_nothing)

section \<open>Sending\<close>

text \<open>What \<open>_send_packet\<close> reports as sent is a non-empty prefix of the packet.\<close>

lemma send_packet_prefix:
  assumes "send_packet p c = Inr (True, c')"
  shows "\<exists>n>0. n \<le> packet_get_size p \<and> cn_out c' = cn_out c @ take n (packet_pack p) \<and> cn_out c' \<noteq> cn_out c"
proof -
  have "\<exists>n>0. cn_out c' = cn_out c @ take n packed"
    if "send_attempts packed as c = Inr (True, c')" for packed as c
    using that
  proof (induction packed as c rule: send_attempts.induct)
    case (2 packed st r as c)
    then show ?case by (auto simp: Let_def split: if_splits send_event.splits)
  qed simp
  then obtain n where n: "0 < n" "cn_out c' = cn_out c @ take n (packet_pack p)"
    using assms unfolding send_packet_def by blast
  then show ?thesis
    by (intro exI [of _ "min n (packet_get_size p)"]) (auto simp: min_def packet_get_size_def packet_pack_def)
qed

lemma send_packet_full:
  assumes "cn_sends c = (SockOk, Sent n) # as" and "packet_get_size p \<le> n"
  shows "send_packet p c = Inr (True, c\<lparr>cn_sends := as, cn_out := cn_out c @ packet_pack p\<rparr>)"
proof -
  have "0 < n" using assms(2) by (simp add: packet_get_size_def)
  moreover have "c\<lparr>cn_sends := as, cn_finished := cn_finished c\<rparr> = c\<lparr>cn_sends := as\<rparr>" by (cases c) simp
  ultimately show ?thesis using assms by (simp add: send_packet_def Let_def)
qed

lemma send_packet_partial:
  assumes "cn_sends c = (SockOk, Sent n) # as" and "0 < n" and "n < packet_get_size p"
  shows "\<exists>c'. send_packet p c = Inr (True, c') \<and> cn_out c' = cn_out c @ take n (packet_pack p)
     \<and> cn_out c' \<noteq> cn_out c @ packet_pack p"
proof -
  have "take n (packet_pack p) \<noteq> packet_pack p"
  proof
    assume "take n (packet_pack p) = packet_pack p"
    from arg_cong [OF this, of length] assms(3) show False by simp
  qed
  then show ?thesis using assms(1,2) by (simp add: send_packet_def Let_def)
qed

section \<open>Delivery\<close>

text \<open>
  \<open>n\<close> calls of \<open>receive_and_parse\<close> by an owner whose \<open>_parse_data\<close> accepts every packet and
  keeps a log of them.
\<close>

definition log_packet :: "packet \<Rightarrow> conn \<Rightarrow> packet list \<Rightarrow> (parse_result \<times> conn \<times> packet list) res" where
  "log_packet p c log = Inr (Success, c, log @ [p])"

definition log_respond :: "packet \<Rightarrow> conn \<Rightarrow> packet list \<Rightarrow> (int \<times> conn \<times> packet list) res" where
  "log_respond p c log = Inr (0, c, log)"

fun receive_packets :: "nat \<Rightarrow> conn \<Rightarrow> packet list \<Rightarrow> (conn \<times> packet list) res option" where
  "receive_packets 0 c log = Some (Inr (c, log))"
| "receive_packets (Suc n) c log =
     (case receive_and_parse log_packet log_respond c log of
        None \<Rightarrow> None
      | Some (Inl e) \<Rightarrow> Some (Inl e)
      | Some (Inr (_, c, log)) \<Rightarrow> receive_packets n c log)"

abbreviation pack_all :: "packet list \<Rightarrow> bytes" where
  "pack_all ps \<equiv> concat (map packet_pack ps)"

lemma receive_packets_queue:
  assumes "\<forall>g\<in>set gs. g \<noteq> []" and "length (pack_all (qs @ concat gs)) \<le> BUFFER_SIZE"
    and "cn_in c = map (\<lambda>g. Data (pack_all g)) gs"
  shows "receive_packets (length gs) (conn_with c (pack_all qs)) log =
     Some (Inr (conn_with (c\<lparr>cn_in := []\<rparr>) (pack_all (drop (length gs) (qs @ concat gs))),
       log @ map packet_received (take (length gs) (qs @ concat gs))))"
  using assms
proof (induction gs arbitrary: qs c log)
  case Nil
  then have "c\<lparr>cn_in := []\<rparr> = c" by simp
  then show ?case by simp
next
  case (Cons g gs)
  obtain p ps where queue: "qs @ g = p # ps" using Cons.prems(1) by (cases "qs @ g") auto
  then have all: "qs @ concat (g # gs) = p # ps @ concat gs" by (metis append_Cons append_assoc concat.simps(2))
  have bytes: "pack_all qs @ pack_all g = packet_pack p @ pack_all ps"
    using arg_cong [OF queue, of pack_all] by simp
  have fits: "length (packet_pack p @ pack_all (ps @ concat gs)) \<le> BUFFER_SIZE"
    using Cons.prems(2) unfolding all by simp
  let ?es = "map (\<lambda>g. Data (pack_all g)) gs"
  let ?c = "c\<lparr>cn_in := ?es\<rparr>"
  have "receive_and_parse log_packet log_respond (conn_with c (pack_all qs)) log =
      parse_loop log_packet log_respond packet_new (conn_with ?c (packet_pack p @ pack_all ps)) log"
    by (rule receive_and_parse_packet [OF _ bytes]) (use Cons.prems(3) bytes fits in simp_all)
  also have "\<dots> = Some (Inr (True, conn_with ?c (pack_all ps), log @ [packet_received p]))"
    using parse_loop_packet [of p "pack_all ps" log_packet log_respond packet_new ?c log] fits
    by (simp add: log_packet_def)
  finally show ?case
    using Cons.IH [of ps ?c "log @ [packet_received p]"] Cons.prems(1) fits unfolding all by simp
qed



end
