(* ===== verification/NetPort.thy ===== *)
theory NetPort
  imports Connection
begin

text \<open>
  \<open>include/network/netport.h\<close> and \<open>src/network/netport.cpp\<close>: the listening end of a node and the
  connections it owns. Connections are shared between their own thread and the node, so the
  node keeps pointers, here numbers, into a store of connection objects.
\<close>

record netport =
  np_self :: sockaddr
  np_conns :: "nat list"
  np_heap :: "nat \<Rightarrow> conn"
  np_next :: nat
  np_running :: bool

text \<open>
  The constructor binds the listening socket; \<open>mem\<close> is what the member \<open>_self\<close> holds before it is
  assigned to, \<open>heap\<close> what is in the memory connections will be made in.
\<close>

definition netport_new ::
  "(string \<Rightarrow> u32 option) \<Rightarrow> sock_calls \<Rightarrow> sockaddr \<Rightarrow> (nat \<Rightarrow> conn) \<Rightarrow> string \<Rightarrow> u16 \<Rightarrow> netport res" where
  "netport_new pton os mem heap ip port =
     (case create_bound_socket pton os (Some ip) port mem True of (fd, self) \<Rightarrow>
        if fd < 0 then Inl Abort
        else Inr \<lparr>np_self = self, np_conns = [], np_heap = heap, np_next = 0, np_running = True\<rparr>)"

definition np_write :: "nat \<Rightarrow> conn \<Rightarrow> 'a netport_scheme \<Rightarrow> 'a netport_scheme" where
  "np_write i c np = np\<lparr>np_heap := (np_heap np)(i := c)\<rparr>"

text \<open>\<open>push_back\<close> of a newly made connection object.\<close>

definition np_add_conn :: "conn \<Rightarrow> 'a netport_scheme \<Rightarrow> 'a netport_scheme" where
  "np_add_conn c np =
     np\<lparr>np_heap := (np_heap np)(np_next np := c), np_conns := np_conns np @ [np_next np],
        np_next := Suc (np_next np)\<rparr>"

text \<open>
  \<open>_clean_up_closed\<close>: a finished connection is joined, handed to the virtual \<open>_on_clean_up\<close>
  and erased; the others keep their places.
\<close>

fun sweep :: "(nat \<Rightarrow> 'a netport_scheme \<Rightarrow> 'a netport_scheme) \<Rightarrow> nat list \<Rightarrow> nat list
    \<Rightarrow> 'a netport_scheme \<Rightarrow> 'a netport_scheme" where
  "sweep on_clean_up kept [] np = np\<lparr>np_conns := kept\<rparr>"
| "sweep on_clean_up kept (i # is) np =
     (if cn_finished (np_heap np i) then sweep on_clean_up kept is (on_clean_up i np)
      else sweep on_clean_up (kept @ [i]) is np)"

definition clean_up_closed :: "(nat \<Rightarrow> 'a netport_scheme \<Rightarrow> 'a netport_scheme) \<Rightarrow> 'a netport_scheme \<Rightarrow> 'a netport_scheme" where
  "clean_up_closed on_clean_up np = sweep on_clean_up [] (np_conns np) np"

text \<open>\<open>close_all\<close>: after a clean-up the connections that are left are asked to finish, one by one, and joined.\<close>

definition ask_all :: "'a netport_scheme \<Rightarrow> 'a netport_scheme" where
  "ask_all np = (fold (\<lambda>i np. np_write i (ask_to_finish (np_heap np i)) np) (np_conns np) np)\<lparr>np_conns := []\<rparr>"

definition close_all :: "(nat \<Rightarrow> 'a netport_scheme \<Rightarrow> 'a netport_scheme) \<Rightarrow> 'a netport_scheme \<Rightarrow> 'a netport_scheme" where
  "close_all on_clean_up np = ask_all (clean_up_closed on_clean_up np)"

text \<open>What \<open>accept\<close> answers: a peer with the behaviour of its socket, no peer, or an error.\<close>

datatype accept_event =
    Accepted sockaddr "recv_event list" "(sock_status \<times> send_event) list"
  | NoPeer
  | AcceptError

definition accept_connection :: "accept_event \<Rightarrow> 'a netport_scheme \<Rightarrow> bool \<times> 'a netport_scheme" where
  "accept_connection ev np =
     (case ev of
        Accepted saddr ins sends \<Rightarrow> (True, np_add_conn (conn_new saddr ins sends) np)
      | NoPeer \<Rightarrow> (False, np)
      | AcceptError \<Rightarrow> (False, np\<lparr>np_running := False\<rparr>))"

text \<open>
  \<open>listen_on_socket\<close>: the node's main loop over the events of \<open>accept\<close>, with the virtual
  functions of the node as parameters. It goes on until the node stops running.
\<close>

fun listen_loop ::
  "('a netport_scheme \<Rightarrow> 'a netport_scheme) \<Rightarrow> (nat \<Rightarrow> 'a netport_scheme \<Rightarrow> 'a netport_scheme)
    \<Rightarrow> ('a netport_scheme \<Rightarrow> 'a netport_scheme res) \<Rightarrow> accept_event list \<Rightarrow> 'a netport_scheme \<Rightarrow> 'a netport_scheme res" where
  "listen_loop on_new on_clean_up work evs np =
     (if \<not> np_running np then Inr (np\<lparr>np_running := False\<rparr>)
      else (case evs of
          [] \<Rightarrow> Inl Blocked
        | ev # evs \<Rightarrow>
            (case accept_connection ev np of (new, np) \<Rightarrow>
             ebind (work (clean_up_closed on_clean_up (if new then on_new np else np)))
               (listen_loop on_new on_clean_up work evs))))"

declare listen_loop.simps [simp del]

definition listen_on_socket ::
  "('a netport_scheme \<Rightarrow> 'a netport_scheme res) \<Rightarrow> ('a netport_scheme \<Rightarrow> 'a netport_scheme)
    \<Rightarrow> (nat \<Rightarrow> 'a netport_scheme \<Rightarrow> 'a netport_scheme) \<Rightarrow> ('a netport_scheme \<Rightarrow> 'a netport_scheme res)
    \<Rightarrow> bool \<Rightarrow> accept_event list \<Rightarrow> 'a netport_scheme \<Rightarrow> 'a netport_scheme res" where
  "listen_on_socket initial on_new on_clean_up work listen_ok evs np =
     ebind (initial (np\<lparr>np_running := listen_ok\<rparr>)) (listen_loop on_new on_clean_up work evs)"

section \<open>Clean-up\<close>

definition open_conns :: "'a netport_scheme \<Rightarrow> nat list" where
  "open_conns np = filter (\<lambda>i. \<not> cn_finished (np_heap np i)) (np_conns np)"

definition closed_conns :: "'a netport_scheme \<Rightarrow> nat list" where
  "closed_conns np = filter (\<lambda>i. cn_finished (np_heap np i)) (np_conns np)"

text \<open>Connections are numbered apart, and below the next number.\<close>

definition np_wf :: "'a netport_scheme \<Rightarrow> bool" where
  "np_wf np \<longleftrightarrow> distinct (np_conns np) \<and> (\<forall>i\<in>set (np_conns np). i < np_next np)"

lemma np_write_fields [simp]:
  "np_conns (np_write i c np) = np_conns np" "np_next (np_write i c np) = np_next np"
  "np_heap (np_write i c np) = (np_heap np)(i := c)" "np_self (np_write i c np) = np_self np"
  "np_running (np_write i c np) = np_running np"
  by (simp_all add: np_write_def)

lemma np_wf_ops:
  "np_wf np \<Longrightarrow> np_wf (np_write i c np)"
  "np_wf np \<Longrightarrow> np_wf (np_add_conn c np)"
  by (auto simp: np_wf_def np_add_conn_def)

text \<open>A clean-up callback that leaves the connections alone; both nodes' callbacks do.\<close>

locale clean_up =
  fixes on_clean_up :: "nat \<Rightarrow> 'a netport_scheme \<Rightarrow> 'a netport_scheme"
  assumes keeps_heap: "np_heap (on_clean_up i np) = np_heap np"
    and keeps_next: "np_next (on_clean_up i np) = np_next np"
    and ignores_conns: "on_clean_up i (np\<lparr>np_conns := cs\<rparr>) = (on_clean_up i np)\<lparr>np_conns := cs\<rparr>"
begin

lemma sweep_eq:
  "sweep on_clean_up kept is np =
     (fold on_clean_up (filter (\<lambda>i. cn_finished (np_heap np i)) is) np)
       \<lparr>np_conns := kept @ filter (\<lambda>i. \<not> cn_finished (np_heap np i)) is\<rparr>"
  by (induction "is" arbitrary: kept np) (simp_all add: keeps_heap)

text \<open>The finished connections are handed over in order; exactly the open ones are kept.\<close>

lemma clean_up_closed_eq:
  "clean_up_closed on_clean_up np = (fold on_clean_up (closed_conns np) np)\<lparr>np_conns := open_conns np\<rparr>"
  by (simp add: clean_up_closed_def sweep_eq closed_conns_def open_conns_def)

lemma fold_keeps: "np_heap (fold on_clean_up is np) = np_heap np" "np_next (fold on_clean_up is np) = np_next np"
  by (induction "is" arbitrary: np) (simp_all add: keeps_heap keeps_next)

lemma clean_up_closed_open:
  "np_conns (clean_up_closed on_clean_up np) = open_conns np"
  "np_heap (clean_up_closed on_clean_up np) = np_heap np"
  "np_next (clean_up_closed on_clean_up np) = np_next np"
  by (simp_all add: clean_up_closed_eq fold_keeps)

lemma clean_up_closed_wf: "np_wf np \<Longrightarrow> np_wf (clean_up_closed on_clean_up np)"
  by (auto simp: np_wf_def clean_up_closed_open open_conns_def)

end

end
