(* ===== verification/Server.thy ===== *)
theory Server
  imports NetPort
begin

text \<open>
  \<open>include/network/server.h\<close>, \<open>src/network/server.cpp\<close> and \<open>src/network/server_connection.cpp\<close>: the
  registry of clients, the packets that announce it, and the worker of one client. Each
  locked region and each access to an atomic is a step of its own.
\<close>

record server = netport +
  srv_clients :: "sockaddr list"
  srv_passed :: nat
  srv_expected :: nat
  srv_new_update :: bool

definition server_new ::
  "(string \<Rightarrow> u32 option) \<Rightarrow> sock_calls \<Rightarrow> sockaddr \<Rightarrow> (nat \<Rightarrow> conn) \<Rightarrow> string \<Rightarrow> u16 \<Rightarrow> server res" where
  "server_new pton os mem heap ip port =
     emap (\<lambda>np. netport.extend np (server.fields [] 0 0 False)) (netport_new pton os mem heap ip port)"

section \<open>Operations\<close>

text \<open>\<open>remove_client\<close> erases the first entry of that address.\<close>

fun erase_client :: "sockaddr \<Rightarrow> sockaddr list \<Rightarrow> sockaddr list" where
  "erase_client client [] = []"
| "erase_client client (a # as) = (if sockaddr_eq client a then as else a # erase_client client as)"

definition server_remove_client :: "sockaddr \<Rightarrow> server \<Rightarrow> server" where
  "server_remove_client client s =
     s\<lparr>srv_clients := erase_client client (srv_clients s), srv_new_update := True\<rparr>"

definition server_on_clean_up :: "nat \<Rightarrow> server \<Rightarrow> server" where
  "server_on_clean_up i s = server_remove_client (cn_other (np_heap s i)) s"

text \<open>
  \<open>update_and_alert\<close>: the list under its lock, the clean-up, then the two atomics under the lock of
  the connections.
\<close>

definition server_push_client :: "sockaddr \<Rightarrow> server \<Rightarrow> server" where
  "server_push_client caddr s = s\<lparr>srv_clients := srv_clients s @ [caddr]\<rparr>"

definition server_expect :: "server \<Rightarrow> server" where
  "server_expect s = s\<lparr>srv_expected := length (np_conns s)\<rparr>"

definition server_raise :: "server \<Rightarrow> server" where
  "server_raise s = s\<lparr>srv_new_update := True\<rparr>"

definition server_update_and_alert :: "sockaddr \<Rightarrow> server \<Rightarrow> server" where
  "server_update_and_alert caddr s =
     server_raise (server_expect (clean_up_closed server_on_clean_up (server_push_client caddr s)))"

text \<open>
  \<open>get_clients\<close>, under the lock of the list: the packet, the count, and for the last of the expected
  announcements the end of the update.
\<close>

definition server_clients_packet :: "server \<Rightarrow> packet" where
  "server_clients_packet s = packet_of PT_CLIENT_UPDATE (concat (map sockaddr_bytes (srv_clients s)))"

definition server_count :: "server \<Rightarrow> bool \<times> server" where
  "server_count s = (let passed = srv_passed s + 1 in (srv_expected s \<le> passed, s\<lparr>srv_passed := passed\<rparr>))"

definition server_reset :: "server \<Rightarrow> server" where
  "server_reset s = s\<lparr>srv_passed := 0, srv_new_update := False\<rparr>"

definition server_get_clients :: "server \<Rightarrow> packet \<times> server" where
  "server_get_clients s =
     (server_clients_packet s, case server_count s of (final, s) \<Rightarrow> if final then server_reset s else s)"

definition server_request_teardown :: "server \<Rightarrow> server res" where
  "server_request_teardown s =
     emap (\<lambda>s. s\<lparr>np_running := False\<rparr>)
       (efold (\<lambda>i s. emap (\<lambda>c. np_write i c s) (send_teardown_request (np_heap s i))) (np_conns s) s)"

text \<open>
  \<open>ServerConnection::_parse_data\<close> of connection \<open>i\<close>, whose object is \<open>c\<close>: it is written back
  before the server looks at its connections, and read again after. A worker that has finished
  (\<open>run\<close> parses once more after its loop) finds itself in the clean-up and joins its own thread,
  which throws.
\<close>

definition server_parse_data :: "nat \<Rightarrow> packet \<Rightarrow> conn \<Rightarrow> server \<Rightarrow> (parse_result \<times> conn \<times> server) res" where
  "server_parse_data i p c s =
     (if pk_type p = PT_REGISTER \<or> pk_type p = PT_DEREGISTER then
        if length (pk_value p) \<noteq> SOCKADDR_SIZE then Inr (ParseError, c, s)
        else let saddr = sockaddr_of_bytes (pk_value p) in
          if pk_type p = PT_REGISTER then
            if cn_finished c \<and> i \<in> set (np_conns s) then Inl (Throw SystemError)
            else let c = c\<lparr>cn_other := saddr\<rparr>; s = server_update_and_alert saddr (np_write i c s) in
              Inr (Success, np_heap s i, s)
          else Inr (Success, c, server_remove_client saddr s)
      else if pk_type p = PT_SHUTDOWN then Inr (Success, ask_to_finish c, s)
      else if pk_type p = PT_TEARDOWN then
        emap (\<lambda>s. (Success, ask_to_finish (np_heap s i), s)) (server_request_teardown (np_write i c s))
      else case base_parse_data p c of (r, c) \<Rightarrow> Inr (r, c, s))"

definition no_respond :: "packet \<Rightarrow> conn \<Rightarrow> 's \<Rightarrow> (int \<times> conn \<times> 's) res" where
  "no_respond p c s = Inr (0, c, s)"

text \<open>One round of \<open>ServerConnection::run\<close>; the flag says whether the loop goes on.\<close>

definition server_receive :: "nat \<Rightarrow> server \<Rightarrow> server res option" where
  "server_receive i s =
     map_option (emap (\<lambda>(_, c, s). np_write i c s))
       (receive_and_parse (server_parse_data i) no_respond (np_heap s i) s)"

definition server_conn_send :: "nat \<Rightarrow> server \<Rightarrow> (bool \<times> server) res" where
  "server_conn_send i s =
     ebind (if srv_new_update s
            then case server_get_clients s of (p, s) \<Rightarrow>
                 emap (\<lambda>(sent, c). (sent, np_write i c s)) (send_packet p (np_heap s i))
            else Inr (True, s)) (\<lambda>(sent, s).
     if \<not> sent then Inr (False, s)
     else emap (\<lambda>(sent, c). (sent, np_write i c s)) (keep_alive (np_heap s i)))"

partial_function (option) server_conn_loop :: "nat \<Rightarrow> server \<Rightarrow> server res option" where
  "server_conn_loop i s =
     (if cn_finished (np_heap s i) then Some (Inr s)
      else (case server_receive i s of
          None \<Rightarrow> None
        | Some (Inl e) \<Rightarrow> Some (Inl e)
        | Some (Inr s) \<Rightarrow>
            (case server_conn_send i s of
               Inl e \<Rightarrow> Some (Inl e)
             | Inr (go_on, s) \<Rightarrow> if go_on then server_conn_loop i s else Some (Inr s))))"

definition server_conn_run :: "nat \<Rightarrow> server \<Rightarrow> server res option" where
  "server_conn_run i s =
     (case server_conn_loop i s of
        None \<Rightarrow> None
      | Some (Inl e) \<Rightarrow> Some (Inl e)
      | Some (Inr s) \<Rightarrow>
          map_option (emap (\<lambda>s. np_write i (ask_to_finish (np_heap s i)) s)) (server_receive i s))"

section \<open>The registry\<close>

definition server_wf :: "server \<Rightarrow> bool" where
  "server_wf s \<longleftrightarrow> np_wf s \<and> list_all sockaddr_wf (srv_clients s)"

interpretation server_clean_up: clean_up server_on_clean_up
  by unfold_locales (simp_all add: server_on_clean_up_def server_remove_client_def)

lemma erase_client_subset: "set (erase_client a as) \<subseteq> set as"
  by (induction a as rule: erase_client.induct) auto

lemma erase_client_wf: "list_all sockaddr_wf as \<Longrightarrow> list_all sockaddr_wf (erase_client a as)"
  using erase_client_subset by (fastforce simp: list_all_iff)

lemma erase_client_last:
  "\<forall>b\<in>set as. \<not> sockaddr_eq a b \<Longrightarrow> erase_client a (as @ [a]) = as"
  by (induction as) (simp_all add: sockaddr_eq_equiv(1))

lemma erase_client_absent: "\<forall>b\<in>set as. \<not> sockaddr_eq a b \<Longrightarrow> erase_client a as = as"
  by (induction as) simp_all

text \<open>A server with two connections and an update to announce, for the witnesses.\<close>

definition sample_server :: server where
  "sample_server = \<lparr>np_self = sockaddr_zero, np_conns = [0, 1], np_heap = (\<lambda>_. conn_new sockaddr_zero [] []),
     np_next = 2, np_running = True, srv_clients = [], srv_passed = 0, srv_expected = 2, srv_new_update = True\<rparr>"

lemma sample_server_fields [simp]:
  "np_conns sample_server = [0, 1]" "srv_clients sample_server = []" "srv_passed sample_server = 0"
  "srv_expected sample_server = 2" "srv_new_update sample_server" "np_heap sample_server i = conn_new sockaddr_zero [] []"
  by (simp_all add: sample_server_def)

lemma sample_server_wf: "server_wf sample_server"
  by (simp add: sample_server_def server_wf_def np_wf_def)

text \<open>After a clean-up: the addresses of the finished connections are erased, one each.\<close>

lemma server_clean_up_clients:
  "srv_clients (clean_up_closed server_on_clean_up s) =
     fold (\<lambda>i. erase_client (cn_other (np_heap s i))) (closed_conns s) (srv_clients s)"
proof -
  have "srv_clients (fold server_on_clean_up is s) =
      fold (\<lambda>i. erase_client (cn_other (np_heap s i))) is (srv_clients s)" for "is" and s :: server
    by (induction "is" arbitrary: s)
      (simp_all add: server_on_clean_up_def server_remove_client_def)
  then show ?thesis by (simp add: server_clean_up.clean_up_closed_eq)
qed

lemma server_update_fields:
  "srv_clients (server_update_and_alert a s) =
     fold (\<lambda>i. erase_client (cn_other (np_heap s i))) (closed_conns s) (srv_clients s @ [a])"
  "np_conns (server_update_and_alert a s) = open_conns s"
  "np_heap (server_update_and_alert a s) = np_heap s"
  "srv_expected (server_update_and_alert a s) = length (open_conns s)"
  "srv_new_update (server_update_and_alert a s)"
proof -
  let ?s = "server_push_client a s"
  have "open_conns ?s = open_conns s" "closed_conns ?s = closed_conns s"
    by (simp_all add: server_push_client_def open_conns_def closed_conns_def)
  then show "srv_clients (server_update_and_alert a s) =
      fold (\<lambda>i. erase_client (cn_other (np_heap s i))) (closed_conns s) (srv_clients s @ [a])"
    "np_conns (server_update_and_alert a s) = open_conns s"
    "np_heap (server_update_and_alert a s) = np_heap s"
    "srv_expected (server_update_and_alert a s) = length (open_conns s)"
    "srv_new_update (server_update_and_alert a s)"
    using server_clean_up_clients [of ?s]
    by (simp_all add: server_update_and_alert_def server_push_client_def server_expect_def server_raise_def
        server_clean_up.clean_up_closed_open)
qed

lemma fold_erase_wf:
  "list_all sockaddr_wf as \<Longrightarrow> list_all sockaddr_wf (fold (\<lambda>i. erase_client (f i)) is as)"
  by (induction "is" arbitrary: as) (simp_all add: erase_client_wf)

lemma server_wf_ops:
  assumes "server_wf s"
  shows "server_wf (server_remove_client a s)"
    and "sockaddr_wf a \<Longrightarrow> server_wf (server_update_and_alert a s)"
    and "server_wf (snd (server_get_clients s))"
proof -
  show "server_wf (server_remove_client a s)"
    using assms by (simp add: server_wf_def np_wf_def server_remove_client_def erase_client_wf)
  show "server_wf (server_update_and_alert a s)" if "sockaddr_wf a"
  proof -
    have "np_next (server_update_and_alert a s) = np_next s"
      by (simp add: server_update_and_alert_def server_push_client_def server_expect_def server_raise_def
          server_clean_up.clean_up_closed_open)
    moreover have "distinct (open_conns s)" "set (open_conns s) \<subseteq> set (np_conns s)"
      using assms by (auto simp: server_wf_def np_wf_def open_conns_def)
    ultimately show ?thesis
      using assms that fold_erase_wf [of "srv_clients s @ [a]"]
      by (auto simp: server_wf_def np_wf_def server_update_fields)
  qed
  show "server_wf (snd (server_get_clients s))"
    using assms by (simp add: server_wf_def np_wf_def server_get_clients_def server_count_def server_reset_def Let_def)
qed

lemma server_wf_conn_ops:
  assumes "server_wf s"
  shows "server_wf (np_add_conn c s)" and "server_wf (np_write i c s)"
    and "server_wf (clean_up_closed server_on_clean_up s)"
proof -
  show "server_wf (np_add_conn c s)" "server_wf (np_write i c s)"
    using assms np_wf_ops [of s] by (simp_all add: server_wf_def np_add_conn_def np_write_def)
  show "server_wf (clean_up_closed server_on_clean_up s)"
    using assms server_clean_up.clean_up_closed_wf [of s]
    by (simp add: server_wf_def server_clean_up_clients fold_erase_wf)
qed

lemma server_new_wf: "server_new pton os mem heap ip port = Inr s \<Longrightarrow> server_wf s"
  by (auto simp: server_new_def netport_new_def server_wf_def np_wf_def emap_eq_Inr netport.defs server.defs
      split: prod.splits if_splits)

text \<open>The announcement carries the whole list, in order.\<close>

lemma server_get_clients_list:
  "server_wf s \<Longrightarrow> parse_addrs (pk_value (fst (server_get_clients s))) 0 = srv_clients s"
  using parse_addrs_concat [of "srv_clients s" "[]"]
  by (simp add: server_wf_def server_get_clients_def server_clients_packet_def packet_of_def)

text \<open>
  A worker among the connections that registers a client while it runs; one that has already finished
  joins itself, and the exception ends the program.
\<close>

lemma open_worker: "closed_conns (np_write i c s) = [] \<Longrightarrow> \<not> (cn_finished c \<and> i \<in> set (np_conns s))"
  by (auto simp: closed_conns_def filter_empty_conv)

lemma server_register_self_join:
  "pk_type p = PT_REGISTER \<Longrightarrow> length (pk_value p) = SOCKADDR_SIZE \<Longrightarrow> cn_finished c \<Longrightarrow> i \<in> set (np_conns s)
     \<Longrightarrow> server_parse_data i p c s = Inl (Throw SystemError)"
  by (simp add: server_parse_data_def)

text \<open>A register or deregister packet of a wrong size changes nothing.\<close>

lemma server_parse_bad_size:
  "pk_type p \<in> {PT_REGISTER, PT_DEREGISTER} \<Longrightarrow> length (pk_value p) \<noteq> SOCKADDR_SIZE
     \<Longrightarrow> server_parse_data i p c s = Inr (ParseError, c, s)"
  by (auto simp: server_parse_data_def)

text \<open>
  Registering an address that is not there puts it at the end of the registry and makes it the
  address of the connection; deregistering it then restores the registry.
\<close>

lemma server_register_deregister:
  assumes "sockaddr_wf a" and "\<forall>b\<in>set (srv_clients s). \<not> sockaddr_eq a b" and "closed_conns (np_write i c s) = []"
    and "pk_type p = PT_REGISTER" and "pk_type q = PT_DEREGISTER"
    and "pk_value p = sockaddr_bytes a" and "pk_value q = sockaddr_bytes a"
  shows "\<exists>c' s1 s2. server_parse_data i p c s = Inr (Success, c', s1)
     \<and> srv_clients s1 = srv_clients s @ [a] \<and> cn_other c' = a
     \<and> server_parse_data i q c' s1 = Inr (Success, c', s2) \<and> srv_clients s2 = srv_clients s"
proof -
  let ?c = "c\<lparr>cn_other := a\<rparr>"
  let ?s1 = "server_update_and_alert a (np_write i ?c s)"
  have "closed_conns (np_write i ?c s) = []"
    using assms(3) by (auto simp: closed_conns_def filter_empty_conv split: if_splits)
  moreover have "srv_clients (np_write i ?c s) = srv_clients s" by (simp add: np_write_def)
  ultimately have clients: "srv_clients ?s1 = srv_clients s @ [a]"
    by (simp add: server_update_fields)
  have addr: "sockaddr_of_bytes (sockaddr_bytes a) = a"
    using sockaddr_of_bytes_of [OF assms(1), of "[]"] by simp
  have heap: "np_heap ?s1 i = ?c" by (simp add: server_update_fields)
  have 1: "server_parse_data i p c s = Inr (Success, ?c, ?s1)"
    using assms(1,4,6) addr heap open_worker [OF assms(3)] by (auto simp: server_parse_data_def Let_def)
  have 2: "server_parse_data i q ?c ?s1 = Inr (Success, ?c, server_remove_client a ?s1)"
    using assms(1,5,7) addr by (simp add: server_parse_data_def Let_def)
  have "srv_clients (server_remove_client a ?s1) = srv_clients s"
    using erase_client_last [OF assms(2)] by (simp add: server_remove_client_def clients)
  with 1 2 clients show ?thesis
    by (intro exI [of _ ?c] exI [of _ ?s1] exI [of _ "server_remove_client a ?s1"]) simp
qed

section \<open>Properties of the clean-up\<close>

text \<open>A list of addresses no two of which are the same host and port.\<close>

definition addrs_distinct :: "sockaddr list \<Rightarrow> bool" where
  "addrs_distinct as \<longleftrightarrow> sorted_wrt (\<lambda>a b. \<not> sockaddr_eq a b) as"

lemma erase_client_filter:
  assumes "addrs_distinct as"
  shows "erase_client a as = filter (\<lambda>b. \<not> sockaddr_eq a b) as"
  using assms
proof (induction as)
  case (Cons b as)
  show ?case
  proof (cases "sockaddr_eq a b")
    case True
    then have "\<not> sockaddr_eq a x" if "x \<in> set as" for x
      using Cons.prems that sockaddr_eq_equiv(2,3) unfolding addrs_distinct_def by (metis sorted_wrt.simps(2))
    with True show ?thesis by (simp add: filter_id_conv)
  next
    case False
    with Cons show ?thesis by (simp add: addrs_distinct_def)
  qed
qed simp

lemma fold_erase_filter:
  assumes "addrs_distinct as"
  shows "fold (\<lambda>i. erase_client (f i)) is as = filter (\<lambda>b. \<forall>i\<in>set is. \<not> sockaddr_eq (f i) b) as"
  using assms
proof (induction "is" arbitrary: as)
  case (Cons i "is")
  have "addrs_distinct (erase_client (f i) as)"
    using Cons.prems by (simp add: erase_client_filter) (simp add: addrs_distinct_def sorted_wrt_filter)
  then show ?case using Cons by (simp add: erase_client_filter conj_commute)
qed simp



end
