(* ===== verification/KVStore.thy ===== *)
theory KVStore
  imports DataFrame SockAddr
begin

text \<open>
  \<open>include/data/kvstore.h\<close> and \<open>src/data/kvstore.cpp\<close>, with the functions of
  \<open>src/data/dataframe.cpp\<close> that store a new frame (\<open>from_array\<close>, \<open>from_scalar\<close>). The singleton
  is a record that operations return updated; each locked region is one step.
\<close>

section \<open>Keys\<close>

record kv_key =
  key_name :: string
  key_node :: sockaddr

definition key_of :: "string \<Rightarrow> kv_key" where
  "key_of n = \<lparr>key_name = n, key_node = sockaddr_zero\<rparr>"

definition key_set_node :: "sockaddr \<Rightarrow> kv_key \<Rightarrow> kv_key" where
  "key_set_node idx k = k\<lparr>key_node := idx\<rparr>"

definition key_hash :: "std_hash \<Rightarrow> kv_key \<Rightarrow> u64" where
  "key_hash h k = hash_string h (key_name k)"

text \<open>\<open>operator==\<close>: the lengths, then character by character; the node does not count.\<close>

definition key_eq :: "kv_key \<Rightarrow> kv_key \<Rightarrow> bool" where
  "key_eq k other \<longleftrightarrow> length (key_name k) = length (key_name other)
     \<and> list_all (\<lambda>i. key_name k ! i = key_name other ! i) [0..<length (key_name k)]"

definition key_serialize :: "kv_key \<Rightarrow> bytes" where
  "key_serialize k = sockaddr_bytes (key_node k) @ serialize_string (key_name k)"

text \<open>
  The decoder asserts that fewer than eight bytes are left, copies a whole address from
  there and moves on by the size of a \<open>size_t\<close>. \<open>memcpy\<close> past the end is undefined.
\<close>

definition deserialize_key :: "bytes \<Rightarrow> nat \<Rightarrow> (kv_key \<times> nat) res" where
  "deserialize_key data pos =
     (if \<not> (pos \<le> length data \<and> length data - pos < 8) then Inl Abort
      else if length data < pos + SOCKADDR_SIZE then Inl (Undefined OutOfBounds)
      else let node = sockaddr_of_bytes (drop pos data) in
        emap (\<lambda>(n, pos). (\<lparr>key_name = n, key_node = node\<rparr>, pos)) (deserialize_string data (pos + 8)))"

lemma key_eq_iff [simp]: "key_eq k k' \<longleftrightarrow> key_name k = key_name k'"
  by (auto simp: key_eq_def list_all_iff intro: nth_equalityI)

section \<open>The store\<close>

text \<open>
  The two hash tables in iteration order: the entries stored here, and the keys known to
  be on other nodes.
\<close>

record kvstore =
  kv_local :: "(kv_key \<times> dataframe) list"
  kv_remote :: "kv_key list"

definition kv_empty :: kvstore where
  "kv_empty = \<lparr>kv_local = [], kv_remote = []\<rparr>"

fun find_entry :: "kv_key \<Rightarrow> (kv_key \<times> dataframe) list \<Rightarrow> dataframe option" where
  "find_entry k [] = None"
| "find_entry k ((k', df) # es) = (if key_eq k k' then Some df else find_entry k es)"

text \<open>\<open>insert_or_assign\<close> keeps the key object that is already there.\<close>

fun insert_or_assign :: "kv_key \<Rightarrow> dataframe \<Rightarrow> (kv_key \<times> dataframe) list \<Rightarrow> (kv_key \<times> dataframe) list" where
  "insert_or_assign k df [] = [(k, df)]"
| "insert_or_assign k df ((k', df') # es) =
     (if key_eq k k' then (k', df) # es else (k', df') # insert_or_assign k df es)"

definition kv_get_local :: "kvstore \<Rightarrow> kv_key \<Rightarrow> dataframe option" where
  "kv_get_local st k = find_entry k (kv_local st)"

text \<open>
  \<open>get\<close> asks the client of this process, if it has one, for a key another node holds;
  \<open>Client::get_value\<close> is a parameter here.
\<close>

definition kv_get :: "(kv_key \<Rightarrow> dataframe option res) option \<Rightarrow> kvstore \<Rightarrow> kv_key \<Rightarrow> dataframe option res" where
  "kv_get client st k =
     (case kv_get_local st k of
        Some df \<Rightarrow> Inr (Some df)
      | None \<Rightarrow>
          if kv_remote st = [] then Inr None
          else (case find (key_eq k) (kv_remote st) of
              None \<Rightarrow> Inr None
            | Some real_key \<Rightarrow>
                (case client of None \<Rightarrow> Inl Abort | Some get_value \<Rightarrow> get_value real_key)))"

text \<open>
  \<open>get_or_wait\<close>: \<open>clock i\<close> is the time in milliseconds since the start at the \<open>i\<close>-th test of
  the loop, \<open>poll i\<close> the result of the \<open>i\<close>-th \<open>get\<close>. It need not return.
\<close>

partial_function (option) kv_get_or_wait ::
  "(nat \<Rightarrow> int) \<Rightarrow> (nat \<Rightarrow> dataframe option res) \<Rightarrow> int \<Rightarrow> nat \<Rightarrow> dataframe option \<Rightarrow> dataframe option res option" where
  "kv_get_or_wait clock poll timeout i val =
     (if val = None \<and> (timeout = 0 \<or> clock i < timeout)
      then (case poll i of
              Inl e \<Rightarrow> Some (Inl e)
            | Inr v \<Rightarrow> kv_get_or_wait clock poll timeout (Suc i) v)
      else Some (Inr val))"

text \<open>\<open>set\<close> holds one lock for the check and another for the update.\<close>

definition kv_set_check :: "kv_key \<Rightarrow> kvstore \<Rightarrow> kvstore res" where
  "kv_set_check k st = (if find (key_eq k) (kv_remote st) = None then Inr st else Inl Abort)"

definition kv_set_store :: "kv_key \<Rightarrow> dataframe \<Rightarrow> kvstore \<Rightarrow> kvstore" where
  "kv_set_store k df st = st\<lparr>kv_local := insert_or_assign k df (kv_local st)\<rparr>"

definition kv_set :: "kv_key \<Rightarrow> dataframe \<Rightarrow> kvstore \<Rightarrow> kvstore res" where
  "kv_set k df st = emap (kv_set_store k df) (kv_set_check k st)"

fun update_node :: "kv_key \<Rightarrow> kv_key list \<Rightarrow> kv_key list" where
  "update_node k [] = [k]"
| "update_node k (k' # ks) =
     (if key_eq k k' then key_set_node (key_node k) k' # ks else k' # update_node k ks)"

definition kv_add_nonlocal :: "kv_key \<Rightarrow> kvstore \<Rightarrow> kvstore" where
  "kv_add_nonlocal k st =
     (if kv_remote st = [] then st\<lparr>kv_remote := [k]\<rparr>
      else st\<lparr>kv_remote := update_node k (kv_remote st)\<rparr>)"

definition kv_local_keys :: "kvstore \<Rightarrow> string list" where
  "kv_local_keys st = map (\<lambda>kv. key_name (fst kv)) (kv_local st)"

definition kv_hash :: "std_hash \<Rightarrow> kvstore \<Rightarrow> u64 res" where
  "kv_hash h st =
     efold (\<lambda>(k, df) acc. emap (\<lambda>d. acc + key_hash h k + d) (df_hash h df))
       (kv_local st) (word_of_nat (length (kv_local st)))"

definition kv_equals :: "std_hash \<Rightarrow> kvstore \<Rightarrow> kvstore \<Rightarrow> bool res" where
  "kv_equals h a b = ebind (kv_hash h a) (\<lambda>x. emap (\<lambda>y. x = y) (kv_hash h b))"

text \<open>
  \<open>equals\<close> goes by the hash, and the hash by the sum over keys and frames: stores that have the same frames under
  exchanged keys are equal to it.
\<close>

lemma kv_equals_exchanged:
  assumes "df_hash h df = Inr x" and "df_hash h df' = Inr y"
  shows "kv_equals h \<lparr>kv_local = [(k, df), (k', df')], kv_remote = ks\<rparr> \<lparr>kv_local = [(k, df'), (k', df)], kv_remote = ks'\<rparr> = Inr True"
  using assms by (simp add: kv_equals_def kv_hash_def algebra_simps)

section \<open>Invariant and laws\<close>

definition kv_wf :: "kvstore \<Rightarrow> bool" where
  "kv_wf st \<longleftrightarrow> distinct (kv_local_keys st) \<and> distinct (map key_name (kv_remote st))"

text \<open>Where a name is known to be: the abstract content of the two tables.\<close>

definition kv_view :: "kvstore \<Rightarrow> string \<Rightarrow> dataframe option" where
  "kv_view st n = kv_get_local st (key_of n)"

definition kv_remote_view :: "kvstore \<Rightarrow> string \<Rightarrow> sockaddr option" where
  "kv_remote_view st n = map_option key_node (find (\<lambda>k. key_name k = n) (kv_remote st))"

lemma find_entry_map: "find_entry k es = map_of (map (\<lambda>(k, df). (key_name k, df)) es) (key_name k)"
  by (induction k es rule: find_entry.induct) auto

lemma kv_view_map: "kv_view st = map_of (map (\<lambda>(k, df). (key_name k, df)) (kv_local st))"
  by (rule ext) (simp add: kv_view_def kv_get_local_def find_entry_map key_of_def)

lemma kv_get_local_view: "kv_get_local st k = kv_view st (key_name k)"
  by (simp add: kv_view_map kv_get_local_def find_entry_map)

lemma insert_or_assign_view:
  "map_of (map (\<lambda>(k, df). (key_name k, df)) (insert_or_assign k df es)) =
     (map_of (map (\<lambda>(k, df). (key_name k, df)) es))(key_name k \<mapsto> df)"
  by (induction k df es rule: insert_or_assign.induct) (auto simp: fun_upd_twist)

lemma insert_or_assign_names:
  "map (\<lambda>kv. key_name (fst kv)) (insert_or_assign k df es) =
     (if key_name k \<in> set (map (\<lambda>kv. key_name (fst kv)) es) then map (\<lambda>kv. key_name (fst kv)) es
      else map (\<lambda>kv. key_name (fst kv)) es @ [key_name k])"
  by (induction k df es rule: insert_or_assign.induct) auto

lemma update_node_names:
  "map key_name (update_node k ks) =
     (if key_name k \<in> set (map key_name ks) then map key_name ks else map key_name ks @ [key_name k])"
  by (induction k ks rule: update_node.induct) (auto simp: key_set_node_def)

lemma update_node_view:
  "map_option key_node (find (\<lambda>k. key_name k = n) (update_node k ks)) =
     (if n = key_name k then Some (key_node k) else map_option key_node (find (\<lambda>k. key_name k = n) ks))"
  by (induction k ks rule: update_node.induct) (auto simp: key_set_node_def)

lemma kv_set_eq: "kv_set k df st = (if kv_remote_view st (key_name k) = None then Inr (kv_set_store k df st) else Inl Abort)"
proof -
  have "key_eq k = (\<lambda>k'. key_name k' = key_name k)" by (rule ext) auto
  then show ?thesis by (auto simp: kv_set_def kv_set_check_def kv_remote_view_def)
qed

lemma kv_set_store_view [simp]:
  "kv_view (kv_set_store k df st) = (kv_view st)(key_name k \<mapsto> df)"
  "kv_remote (kv_set_store k df st) = kv_remote st"
  "kv_remote_view (kv_set_store k df st) = kv_remote_view st"
  by (simp_all add: kv_set_store_def kv_view_map insert_or_assign_view kv_remote_view_def fun_eq_iff)

lemma kv_add_nonlocal_view [simp]:
  "kv_remote_view (kv_add_nonlocal k st) = (kv_remote_view st)(key_name k \<mapsto> key_node k)"
  "kv_view (kv_add_nonlocal k st) = kv_view st"
  by (auto simp: kv_add_nonlocal_def kv_remote_view_def kv_view_map update_node_view fun_eq_iff)

lemma kv_wf_ops:
  "kv_wf kv_empty"
  "kv_wf st \<Longrightarrow> kv_set k df st = Inr st' \<Longrightarrow> kv_wf st'"
  "kv_wf st \<Longrightarrow> kv_wf (kv_add_nonlocal k st)"
  "kv_wf st \<Longrightarrow> kv_wf (kv_set_store k df st)"
  by (auto simp: kv_wf_def kv_empty_def kv_local_keys_def kv_set_eq kv_set_store_def insert_or_assign_names
      kv_add_nonlocal_def update_node_names split: if_splits)

lemma set_local_keys: "set (kv_local_keys st) = dom (kv_view st)"
  by (force simp: kv_local_keys_def kv_view_map dom_map_of_conv_image_fst)

lemma kv_get_view:
  "kv_get client st k =
     (case kv_view st (key_name k) of
        Some df \<Rightarrow> Inr (Some df)
      | None \<Rightarrow> (case kv_remote_view st (key_name k) of
            None \<Rightarrow> Inr None
          | Some node \<Rightarrow> (case client of None \<Rightarrow> Inl Abort
              | Some get_value \<Rightarrow> get_value \<lparr>key_name = key_name k, key_node = node\<rparr>)))"
proof -
  have eq: "key_eq k = (\<lambda>k'. key_name k' = key_name k)" by (rule ext) auto
  have "r = \<lparr>key_name = key_name k, key_node = key_node r\<rparr>"
    if "find (\<lambda>k'. key_name k' = key_name k) (kv_remote st) = Some r" for r
    using that by (intro kv_key.equality) (auto simp: find_Some_iff)
  then show ?thesis
    by (auto simp: kv_get_def kv_get_local_view kv_remote_view_def eq split: option.splits)
qed

section \<open>The interface of a store\<close>

text \<open>What the applications rely on: a lookup returns what was last put under the name.\<close>

locale frame_store =
  fixes lookup :: "'st \<Rightarrow> string \<Rightarrow> 'v option" and put :: "string \<Rightarrow> 'v \<Rightarrow> 'st \<Rightarrow> 'st"
  assumes lookup_put: "lookup (put n v st) m = (if m = n then Some v else lookup st m)"
begin

lemma lookup_put_all:
  "lookup (fold (\<lambda>(n, v). put n v) kvs st) m =
     (case map_of (rev kvs) m of Some v \<Rightarrow> Some v | None \<Rightarrow> lookup st m)"
  by (induction kvs arbitrary: st) (auto simp: lookup_put map_add_def split: option.splits)

lemma lookup_put_all_distinct:
  assumes "distinct (map fst kvs)" and "(m, v) \<in> set kvs"
  shows "lookup (fold (\<lambda>(n, v). put n v) kvs st) m = Some v"
proof -
  have "map_of (rev kvs) m = Some v"
    using assms by (intro map_of_is_SomeI) (simp_all add: rev_map [symmetric])
  then show ?thesis by (simp add: lookup_put_all)
qed

end

interpretation kv: frame_store kv_view "\<lambda>n. kv_set_store (key_of n)"
  by unfold_locales (simp add: key_of_def)

section \<open>Waiting\<close>

lemma kv_get_or_wait_step:
  assumes "\<forall>j<n. timeout = 0 \<or> clock (i + j) < timeout" and "\<forall>j<n. poll (i + j) = Inr None"
  shows "kv_get_or_wait clock poll timeout i None = kv_get_or_wait clock poll timeout (i + n) None"
  using assms
proof (induction n)
  case (Suc n)
  then have "kv_get_or_wait clock poll timeout i None = kv_get_or_wait clock poll timeout (i + n) None"
    by simp
  also have "\<dots> = kv_get_or_wait clock poll timeout (i + Suc n) None"
    using Suc.prems by (subst kv_get_or_wait.simps) (auto dest: spec [of _ n])
  finally show ?case .
qed simp

text \<open>The loop only ends for a reason.\<close>

lemma kv_get_or_wait_returns:
  "kv_get_or_wait clock poll timeout i val = Some r \<Longrightarrow> val = None
     \<Longrightarrow> \<exists>j. poll j \<noteq> Inr None \<or> timeout \<noteq> 0 \<and> timeout \<le> clock j"
proof (induction clock poll timeout i val r rule: kv_get_or_wait.raw_induct [rotated, consumes 1, case_names step])
  case (step f clock poll timeout i val r)
  show ?case
  proof (cases "poll i = Inr None \<and> (timeout = 0 \<or> clock i < timeout)")
    case True
    with step show ?thesis by auto
  next
    case False
    then show ?thesis by (meson not_le)
  qed
qed

text \<open>What it returns is what it had, or what a poll returned.\<close>

lemma kv_get_or_wait_outcome:
  "kv_get_or_wait clock poll timeout i val = Some r \<Longrightarrow> r = Inr val \<or> (\<exists>j. poll j = r)"
proof (induction clock poll timeout i val r rule: kv_get_or_wait.raw_induct [rotated, consumes 1, case_names step])
  case (step f clock poll timeout i val r)
  show ?case
  proof (cases "val = None \<and> (timeout = 0 \<or> clock i < timeout)")
    case True
    show ?thesis
    proof (cases "poll i")
      case (Inl e)
      with step(2) True show ?thesis by auto
    next
      case (Inr v)
      with step(2) True have "f clock poll timeout (Suc i) v = Some r" by auto
      from step(1) [OF this] Inr show ?thesis by metis
    qed
  next
    case False
    with step(2) show ?thesis by (auto split: if_splits)
  qed
qed

section \<open>Storing new frames\<close>

definition store_column :: "kv_key \<Rightarrow> column res \<Rightarrow> kvstore \<Rightarrow> (dataframe \<times> kvstore) res" where
  "store_column k col st =
     ebind col (\<lambda>col. let df = df_add_column col None df_empty in emap (Pair df) (kv_set k df st))"

definition push_values :: "('a \<Rightarrow> cell) \<Rightarrow> 'a list \<Rightarrow> column \<Rightarrow> column res" where
  "push_values mk arr col = efold (\<lambda>v. col_push_back (mk v)) arr col"

definition from_bool_array :: "kv_key \<Rightarrow> bool list \<Rightarrow> kvstore \<Rightarrow> (dataframe \<times> kvstore) res" where
  "from_bool_array k arr = store_column k (push_values (\<lambda>v. BoolCell (Some v)) arr (BoolColumn na_empty))"

definition from_double_array :: "kv_key \<Rightarrow> f64 list \<Rightarrow> kvstore \<Rightarrow> (dataframe \<times> kvstore) res" where
  "from_double_array k arr = store_column k (push_values (\<lambda>v. FloatCell (Some v)) arr (FloatColumn na_empty))"

definition from_int_array :: "kv_key \<Rightarrow> i32 list \<Rightarrow> kvstore \<Rightarrow> (dataframe \<times> kvstore) res" where
  "from_int_array k arr = store_column k (push_values (\<lambda>v. IntCell (Some v)) arr (IntColumn na_empty))"

text \<open>\<open>from_scalar\<close> pushes its argument onto a new column of the argument's type.\<close>

fun from_scalar :: "kv_key \<Rightarrow> cell \<Rightarrow> kvstore \<Rightarrow> (dataframe \<times> kvstore) res" where
  "from_scalar k (IntCell v) = store_column k (col_push_back (IntCell v) (IntColumn na_empty))"
| "from_scalar k (FloatCell v) = store_column k (col_push_back (FloatCell v) (FloatColumn na_empty))"
| "from_scalar k (BoolCell v) = store_column k (col_push_back (BoolCell v) (BoolColumn na_empty))"
| "from_scalar k (StringCell v) = store_column k (col_push_back (StringCell v) (StringColumn na_empty))"

lemma push_values_view:
  assumes "col_wf c" and "\<And>v. cell_type (mk v) = col_get_type c"
  shows "\<exists>c'. push_values mk arr c = Inr c' \<and> col_wf c' \<and> col_get_type c' = col_get_type c
     \<and> col_view c' = col_view c @ map mk arr"
  using assms
proof (induction arr arbitrary: c)
  case (Cons v arr)
  obtain d where d: "col_push_back (mk v) c = Inr d" "col_wf d" "col_get_type d = col_get_type c"
    "col_view d = col_view c @ [mk v]"
    using col_push_back_view(1) [OF Cons.prems(1) Cons.prems(2)] by blast
  with Cons.IH [of d] Cons.prems(2) show ?case by (auto simp: push_values_def)
qed (simp add: push_values_def)

lemma empty_column_views:
  "col_wf (IntColumn na_empty)" "col_view (IntColumn na_empty) = []"
  "col_wf (FloatColumn na_empty)" "col_view (FloatColumn na_empty) = []"
  "col_wf (BoolColumn na_empty)" "col_view (BoolColumn na_empty) = []"
  "col_wf (StringColumn na_empty)" "col_view (StringColumn na_empty) = []"
  by (simp_all add: na.inv_empty na.view_empty)

lemma one_column_rows:
  assumes "col_wf c"
  shows "df_rect (df_add_column c None df_empty)"
    and "df_rows (df_add_column c None df_empty) = map (\<lambda>x. [x]) (col_view c)"
    and "df_columns (df_add_column c None df_empty) = [c]"
    and "df_schema (df_add_column c None df_empty) = schema_add_column (col_get_type c) None schema_empty"
proof -
  show cols: "df_columns (df_add_column c None df_empty) = [c]"
    and "df_schema (df_add_column c None df_empty) = schema_add_column (col_get_type c) None schema_empty"
    by (simp_all add: df_add_column_def df_empty_def)
  then have "df_nrows (df_add_column c None df_empty) = length (col_view c)"
    using assms by (simp add: df_nrows_def df_ncols_def col_size_view)
  with cols show "df_rect (df_add_column c None df_empty)"
    and "df_rows (df_add_column c None df_empty) = map (\<lambda>x. [x]) (col_view c)"
    using df_add_column_typed [OF df_empty_typed assms, of None] assms
    by (auto simp: df_rect_def df_rows_def df_row_cells_def col_size_view intro!: nth_equalityI)
qed

lemma one_column_ok: "col_ok c \<Longrightarrow> df_ok (df_add_column c None df_empty)"
  using one_column_rows [of c] by (simp add: df_ok_def df_rect_def col_ok_wf)

text \<open>The frame that is stored and returned has one row per value, in order.\<close>

lemma store_values_column:
  assumes "col_wf c" and "col_view c = []" and "\<And>v. cell_type (mk v) = col_get_type c"
    and "kv_remote_view st (key_name k) = None"
  obtains c' df where "store_column k (push_values mk arr c) st = Inr (df, kv_set_store k df st)"
    and "df = df_add_column c' None df_empty" and "col_wf c'" and "col_view c' = map mk arr"
proof -
  obtain c' where c': "push_values mk arr c = Inr c'" "col_wf c'" "col_view c' = map mk arr"
    using push_values_view [OF assms(1), of mk arr] assms(2,3) by auto
  with that assms(4) show thesis by (simp add: store_column_def Let_def kv_set_eq)
qed

lemma store_values:
  assumes "col_wf c" and "col_view c = []" and "\<And>v. cell_type (mk v) = col_get_type c"
    and "kv_remote_view st (key_name k) = None"
  obtains df where "store_column k (push_values mk arr c) st = Inr (df, kv_set_store k df st)"
    and "df_rect df" and "df_rows df = map (\<lambda>v. [mk v]) arr"
proof -
  obtain c' df where df: "store_column k (push_values mk arr c) st = Inr (df, kv_set_store k df st)"
    "df = df_add_column c' None df_empty" "col_wf c'" "col_view c' = map mk arr"
    by (rule store_values_column [OF assms])
  with one_column_rows [OF df(3)] show thesis by (intro that [of df]) simp_all
qed

section \<open>Reachable stores\<close>

text \<open>
  The stores a node can get into: the critical sections of \<open>set\<close> and \<open>add_nonlocal\<close> on any threads in any
  order, from the empty store. \<open>set\<close> has two: the check, which changes nothing, and the insertion, before which
  other threads may have come in.
\<close>

inductive kv_reach :: "kvstore \<Rightarrow> bool" where
  reach_empty: "kv_reach kv_empty"
| reach_store: "kv_reach st \<Longrightarrow> kv_reach (kv_set_store k df st)"
| reach_nonlocal: "kv_reach st \<Longrightarrow> kv_reach (kv_add_nonlocal k st)"

lemma kv_reach_wf: "kv_reach st \<Longrightarrow> kv_wf st"
  by (induction rule: kv_reach.induct) (auto intro: kv_wf_ops)

lemma reach_set: "kv_reach st \<Longrightarrow> kv_set k df st = Inr st' \<Longrightarrow> kv_reach st'"
  by (auto simp: kv_set_eq intro: reach_store split: if_splits)

text \<open>
  A key that another node announces between the two sections of \<open>set\<close> is stored here all the same, and then
  belongs to both nodes.
\<close>

lemma kv_set_raced:
  assumes "kv_set_check k st = Inr st" and "key_name k' = key_name k"
  shows "kv_view (kv_set_store k df (kv_add_nonlocal k' st)) (key_name k) = Some df
     \<and> kv_remote_view (kv_set_store k df (kv_add_nonlocal k' st)) (key_name k) = Some (key_node k')
     \<and> kv_set k df' (kv_set_store k df (kv_add_nonlocal k' st)) = Inl Abort"
  using assms(2) by (simp add: kv_set_eq)

section \<open>Properties\<close>

text \<open>
  C31: In every store a node can get into, the tables hold each name at most once, so an entry is in
  the table exactly when a look-up of its name finds its frame, and a name is in the list a node
  announces exactly when it has a frame.
\<close>

theorem kv_reachable_tables:
  assumes "kv_reach st"
  shows "distinct (kv_local_keys st) \<and> distinct (map key_name (kv_remote st))
     \<and> (\<forall>n df. (\<exists>k. (k, df) \<in> set (kv_local st) \<and> key_name k = n) \<longleftrightarrow> kv_view st n = Some df)
     \<and> set (kv_local_keys st) = dom (kv_view st)"
proof -
  let ?es = "map (\<lambda>(k, df). (key_name k, df)) (kv_local st)"
  have wf: "distinct (kv_local_keys st)" "distinct (map key_name (kv_remote st))"
    using kv_reach_wf [OF assms] by (simp_all add: kv_wf_def)
  moreover have "map fst ?es = kv_local_keys st" by (simp add: kv_local_keys_def comp_def case_prod_beta)
  then have "kv_view st n = Some df \<longleftrightarrow> (n, df) \<in> set ?es" for n df
    using wf(1) by (simp add: kv_view_map)
  ultimately show ?thesis using set_local_keys [of st] by force
qed

theorem kv_reachable_tables_witness:
  "\<exists>st. kv_set (key_of ''a'') df_empty (kv_add_nonlocal (key_of ''b'') kv_empty) = Inr st
     \<and> set (kv_local_keys st) = dom (kv_view st) \<and> kv_view st ''a'' = Some df_empty"
proof -
  let ?st = "kv_add_nonlocal (key_of ''b'') kv_empty"
  have set: "kv_set (key_of ''a'') df_empty ?st = Inr (kv_set_store (key_of ''a'') df_empty ?st)"
    by (simp add: kv_set_eq kv_remote_view_def kv_add_nonlocal_def kv_empty_def key_of_def)
  then have "kv_reach (kv_set_store (key_of ''a'') df_empty ?st)"
    by (blast intro: reach_empty reach_set reach_nonlocal)
  from kv_reachable_tables [OF this] set show ?thesis by (simp add: key_of_def)
qed

text \<open>
  C21: \<open>set\<close> ends the program when the name is known to be on another node; otherwise \<open>get\<close> then
  returns the new frame for every key of that name, and for every other key what it returned
  before, whether it is stored here, elsewhere or nowhere.
\<close>

theorem kv_set_then_get:
  "if kv_remote_view st (key_name k) = None
   then \<exists>st'. kv_set k df st = Inr st' \<and> (\<forall>client k'. kv_get client st' k' =
      (if key_name k' = key_name k then Inr (Some df) else kv_get client st k'))
   else kv_set k df st = Inl Abort"
proof -
  have "kv_get client (kv_set_store k df st) k' =
      (if key_name k' = key_name k then Inr (Some df) else kv_get client st k')" for client k'
    unfolding kv_get_view kv_set_store_view by simp
  then show ?thesis by (simp add: kv_set_eq)
qed

text \<open>A key that is stored here and then announced by another node can still be read, but no longer set.\<close>

lemma kv_announced_key_frozen:
  assumes "kv_set k df st = Inr st1" and "key_name k' = key_name k"
  shows "kv_get client (kv_add_nonlocal k' st1) k = Inr (Some df)
     \<and> kv_set k df' (kv_add_nonlocal k' st1) = Inl Abort"
proof -
  have "st1 = kv_set_store k df st" using assms(1) by (simp add: kv_set_eq split: if_splits)
  then show ?thesis using assms(2) by (simp add: kv_get_view kv_set_eq)
qed

text \<open>
  C29: \<open>get_or_wait\<close> returns exactly when some \<open>get\<close> finds the key or fails, or when there is a
  timeout and the clock gets past it; without a timeout a key that never comes is waited for
  for ever.
\<close>

theorem kv_get_or_wait_returns_iff:
  "(\<exists>r. kv_get_or_wait clock poll timeout 0 None = Some r)
     \<longleftrightarrow> (\<exists>n. poll n \<noteq> Inr None \<or> timeout \<noteq> 0 \<and> timeout \<le> clock n)"
proof
  assume "\<exists>n. poll n \<noteq> Inr None \<or> timeout \<noteq> 0 \<and> timeout \<le> clock n"
  then obtain n where n: "poll n \<noteq> Inr None \<or> timeout \<noteq> 0 \<and> timeout \<le> clock n"
    and before: "\<forall>j<n. \<not> (poll j \<noteq> Inr None \<or> timeout \<noteq> 0 \<and> timeout \<le> clock j)"
    using exists_least_iff [of "\<lambda>n. poll n \<noteq> Inr None \<or> timeout \<noteq> 0 \<and> timeout \<le> clock n"] by blast
  have "kv_get_or_wait clock poll timeout 0 None = kv_get_or_wait clock poll timeout n None"
    using kv_get_or_wait_step [of n timeout clock 0 poll] before by (simp add: not_le)
  also have "\<dots> = (if timeout = 0 \<or> clock n < timeout
      then (case poll n of Inl e \<Rightarrow> Some (Inl e) | Inr v \<Rightarrow> kv_get_or_wait clock poll timeout (Suc n) v)
      else Some (Inr None))"
    by (subst kv_get_or_wait.simps) simp
  finally show "\<exists>r. kv_get_or_wait clock poll timeout 0 None = Some r"
    using n by (auto simp: kv_get_or_wait.simps [of _ _ _ _ "Some _"] split: sum.splits option.splits)
qed (use kv_get_or_wait_returns in blast)

theorem kv_get_or_wait_returns_iff_witness:
  "(\<exists>r. kv_get_or_wait (\<lambda>i. 40 * int i) (\<lambda>_. Inr None) 100 0 None = Some r)
   \<and> kv_get_or_wait (\<lambda>i. 40 * int i) (\<lambda>_. Inr None) 0 0 None = None"
proof -
  have "(100::int) \<le> 40 * int 3" by simp
  then have "\<exists>n. (100::int) \<le> 40 * int n" by blast
  then show ?thesis
    using kv_get_or_wait_returns_iff [of "\<lambda>i. 40 * int i" "\<lambda>_. Inr None" 100]
      kv_get_or_wait_returns_iff [of "\<lambda>i. 40 * int i" "\<lambda>_. Inr None" 0] by auto
qed

text \<open>
  What \<open>get_or_wait\<close> returns: when the first \<open>n\<close> looks find nothing and the time is not up,
  the next one decides: the frame if it is there in time, a failure of \<open>get\<close> if it fails, and a
  null pointer if the time is up.
\<close>

lemma kv_get_or_wait_result:
  assumes "\<forall>j<n. poll j = Inr None \<and> (timeout = 0 \<or> clock j < timeout)"
  shows "(timeout \<noteq> 0 \<and> timeout \<le> clock n \<longrightarrow> kv_get_or_wait clock poll timeout 0 None = Some (Inr None))
     \<and> (timeout = 0 \<or> clock n < timeout \<longrightarrow>
          (\<forall>df. poll n = Inr (Some df) \<longrightarrow> kv_get_or_wait clock poll timeout 0 None = Some (Inr (Some df)))
        \<and> (\<forall>e. poll n = Inl e \<longrightarrow> kv_get_or_wait clock poll timeout 0 None = Some (Inl e)))"
proof -
  have "kv_get_or_wait clock poll timeout 0 None = kv_get_or_wait clock poll timeout n None"
    using kv_get_or_wait_step [of n timeout clock 0 poll] assms by auto
  then show ?thesis
    by (auto simp: kv_get_or_wait.simps [of _ _ _ n] kv_get_or_wait.simps [of _ _ _ _ "Some _"])
qed

text \<open>
  \<open>from_array\<close>, for each of its three element types, returns a rectangular frame with one row
  per element, in order, and that frame is what \<open>get\<close> finds under the key afterwards.
\<close>

lemma from_array_stored:
  assumes "kv_remote_view st (key_name k) = None"
  shows "(\<exists>df st'. from_int_array k is st = Inr (df, st') \<and> kv_get client st' k = Inr (Some df)
       \<and> df_rect df \<and> df_rows df = map (\<lambda>v. [IntCell (Some v)]) is)
     \<and> (\<exists>df st'. from_double_array k ds st = Inr (df, st') \<and> kv_get client st' k = Inr (Some df)
       \<and> df_rect df \<and> df_rows df = map (\<lambda>v. [FloatCell (Some v)]) ds)
     \<and> (\<exists>df st'. from_bool_array k bs st = Inr (df, st') \<and> kv_get client st' k = Inr (Some df)
       \<and> df_rect df \<and> df_rows df = map (\<lambda>v. [BoolCell (Some v)]) bs)"
proof -
  have get: "kv_get client (kv_set_store k df st) k = Inr (Some df)" for df
    by (simp add: kv_get_view)
  show ?thesis
    unfolding from_int_array_def from_double_array_def from_bool_array_def
    using store_values [OF empty_column_views(1,2), of "\<lambda>v. IntCell (Some v)" st k "is"]
      store_values [OF empty_column_views(3,4), of "\<lambda>v. FloatCell (Some v)" st k ds]
      store_values [OF empty_column_views(5,6), of "\<lambda>v. BoolCell (Some v)" st k bs] assms get
    by (intro conjI) (metis cell_type.simps col_get_type.simps)+
qed

text \<open>No input gets a key out of the decoder: it aborts or reads past the end of the buffer.\<close>

lemma deserialize_key_fails:
  "deserialize_key data pos =
     (if pos \<le> length data \<and> length data - pos < 8 then Inl (Undefined OutOfBounds) else Inl Abort)"
  by (auto simp: deserialize_key_def SOCKADDR_SIZE_def)

end
