(* ===== verification/Client.thy ===== *)
theory Client
  imports NetPort KVStore
begin

text \<open>
  The client node: \<open>include/network/client.h\<close>, \<open>src/network/client.cpp\<close> and its two kinds of
  connection, \<open>src/network/cts_connection.cpp\<close> to the server and \<open>src/network/ctc_connection.cpp\<close> to
  another client. The key-value store of the process is part of the node.
\<close>

text \<open>
  A value request is shared between the thread that waits for it and a connection: the node
  keeps the key of each request and its answer, \<open>None\<close> as long as the thread waits. What a
  client connection adds to \<open>Connection\<close> is in \<open>ctc\<close>; one that was accepted is a receiver.
\<close>

record ctc =
  ctc_receiver :: bool
  ctc_queue :: "nat list"
  ctc_waiting :: "nat list"

record client = netport +
  cl_server :: sockaddr
  cl_server_conn :: "conn option"
  cl_others :: "sockaddr list"
  cl_update :: bool
  cl_ctc :: "nat \<Rightarrow> ctc"
  cl_reqs :: "nat \<Rightarrow> string"
  cl_next_req :: nat
  cl_answers :: "nat \<Rightarrow> dataframe option option"
  cl_store :: kvstore

text \<open>
  The constructor: an address of the server that is no dotted quad exits. The contents of the
  tables before anything is put into them are the parameter \<open>tabs\<close>.
\<close>

definition client_new ::
  "(string \<Rightarrow> u32 option) \<Rightarrow> sock_calls \<Rightarrow> sockaddr \<Rightarrow> (nat \<Rightarrow> conn) \<Rightarrow> (nat \<Rightarrow> ctc) \<Rightarrow> string \<Rightarrow> string \<Rightarrow> u16 \<Rightarrow> client res" where
  "client_new pton os mem heap tabs client_ip server_ip port =
     ebind (netport_new pton os mem heap client_ip 0) (\<lambda>np.
     case pton server_ip of
       None \<Rightarrow> Inl Abort
     | Some addr \<Rightarrow>
         Inr (netport.extend np (client.fields
           (mem\<lparr>sin_family := AF_INET, sin_addr := addr, sin_port := htons port\<rparr>)
           None [] False tabs (\<lambda>_. []) 0 (\<lambda>_. None) kv_empty)))"

definition client_get_registration_packet :: "client \<Rightarrow> packet" where
  "client_get_registration_packet cl = packet_of PT_REGISTER (sockaddr_bytes (np_self cl))"

definition client_request_teardown :: "client \<Rightarrow> client res" where
  "client_request_teardown cl =
     (case cl_server_conn cl of
        None \<Rightarrow> Inl (Undefined NullPointer)
      | Some c \<Rightarrow> emap (\<lambda>c. cl\<lparr>cl_server_conn := Some c\<rparr>) (send_teardown_request c))"

section \<open>The connection to the server\<close>

definition cts_register_with_server :: "client \<Rightarrow> conn \<Rightarrow> conn res" where
  "cts_register_with_server cl c =
     emap (\<lambda>(sent, c). if sent then c else c\<lparr>cn_finished := True\<rparr>)
       (send_packet (client_get_registration_packet cl) c)"

definition cts_deregister_and_shutdown :: "client \<Rightarrow> conn \<Rightarrow> conn res" where
  "cts_deregister_and_shutdown cl c =
     ebind (send_packet ((client_get_registration_packet cl)\<lparr>pk_type := PT_DEREGISTER\<rparr>) c) (\<lambda>(sent, c).
     send_shutdown (if sent then c else c\<lparr>cn_finished := True\<rparr>))"

definition cts_parse_data :: "packet \<Rightarrow> conn \<Rightarrow> client \<Rightarrow> (parse_result \<times> conn \<times> client) res" where
  "cts_parse_data p c cl =
     (if pk_type p = PT_CLIENT_UPDATE then
        Inr (Success, c, cl\<lparr>cl_others := filter (\<lambda>a. \<not> sockaddr_eq (np_self cl) a) (parse_addrs (pk_value p) 0),
                            cl_update := True\<rparr>)
      else if pk_type p = PT_TEARDOWN then Inr (Success, c, cl\<lparr>np_running := False\<rparr>)
      else case base_parse_data p c of (r, c) \<Rightarrow> Inr (r, c, cl))"

definition cts_respond :: "packet \<Rightarrow> conn \<Rightarrow> client \<Rightarrow> (int \<times> conn \<times> client) res" where
  "cts_respond p c cl = Inr (0, c, cl)"

partial_function (option) cts_loop :: "conn \<Rightarrow> client \<Rightarrow> (conn \<times> client) res option" where
  "cts_loop c cl =
     (if cn_finished c then Some (Inr (c, cl))
      else (case receive_and_parse cts_parse_data cts_respond c cl of
          None \<Rightarrow> None
        | Some (Inl e) \<Rightarrow> Some (Inl e)
        | Some (Inr (_, c, cl)) \<Rightarrow> cts_loop c cl))"

text \<open>\<open>CtSConnection::run\<close>: connect, register, serve, and stop the node at the end.\<close>

definition cts_run :: "connect_calls \<Rightarrow> conn \<Rightarrow> client \<Rightarrow> (conn \<times> client) res option" where
  "cts_run os c cl =
     (case cts_register_with_server cl (connect_to_target os c) of
        Inl e \<Rightarrow> Some (Inl e)
      | Inr c \<Rightarrow> map_option (\<lambda>r. ebind r (\<lambda>(c, cl).
            emap (\<lambda>c. (c\<lparr>cn_finished := True\<rparr>, cl\<lparr>np_running := False\<rparr>)) (cts_deregister_and_shutdown cl c)))
          (cts_loop c cl))"

section \<open>Connections to other clients\<close>

definition ctc_update :: "nat \<Rightarrow> (ctc \<Rightarrow> ctc) \<Rightarrow> client \<Rightarrow> client" where
  "ctc_update i f cl = cl\<lparr>cl_ctc := (cl_ctc cl)(i := f (cl_ctc cl i))\<rparr>"

definition ctc_answer :: "nat \<Rightarrow> dataframe option \<Rightarrow> client \<Rightarrow> client" where
  "ctc_answer r df cl = cl\<lparr>cl_answers := (cl_answers cl)(r := Some df)\<rparr>"

text \<open>The destructor answers every request that is left with a null pointer.\<close>

definition ctc_destroy :: "nat \<Rightarrow> client \<Rightarrow> client" where
  "ctc_destroy i cl =
     ctc_update i (\<lambda>k. k\<lparr>ctc_queue := [], ctc_waiting := []\<rparr>)
       (fold (\<lambda>r. ctc_answer r None) (ctc_queue (cl_ctc cl i) @ ctc_waiting (cl_ctc cl i)) cl)"

definition ctc_add_request :: "nat \<Rightarrow> nat \<Rightarrow> client \<Rightarrow> client" where
  "ctc_add_request i r = ctc_update i (\<lambda>k. k\<lparr>ctc_queue := ctc_queue k @ [r]\<rparr>)"

text \<open>\<open>_check_requests\<close>: each queued request is moved to the waiting list and sent; whether
  sending worked is not looked at.\<close>

fun check_requests :: "nat list \<Rightarrow> nat \<Rightarrow> client \<Rightarrow> client res" where
  "check_requests [] i cl = Inr cl"
| "check_requests (r # rs) i cl =
     (let cl = ctc_update i (\<lambda>k. k\<lparr>ctc_queue := rs, ctc_waiting := ctc_waiting k @ [r]\<rparr>) cl in
      ebind (send_packet (packet_of PT_VALUE_REQUEST (serialize_string (cl_reqs cl r))) (np_heap cl i)) (\<lambda>(_, c).
      check_requests rs i (np_write i c cl)))"

definition ctc_check_requests :: "nat \<Rightarrow> client \<Rightarrow> client res" where
  "ctc_check_requests i cl = check_requests (ctc_queue (cl_ctc cl i)) i cl"

text \<open>\<open>_as_client\<close>: the identification it sends carries no address.\<close>

definition ctc_as_client :: "connect_calls \<Rightarrow> conn \<Rightarrow> conn res" where
  "ctc_as_client os c =
     emap (\<lambda>(sent, c). if sent then c else c\<lparr>cn_finished := True\<rparr>)
       (send_packet (packet_of PT_ID []) (connect_to_target os c))"

definition ctc_key_packet :: "client \<Rightarrow> packet" where
  "ctc_key_packet cl = packet_of PT_KEY_LIST (concat (map serialize_string (kv_local_keys (cl_store cl))))"

definition ctc_send_keys :: "nat \<Rightarrow> client \<Rightarrow> client res" where
  "ctc_send_keys i cl =
     emap (\<lambda>(sent, c). np_write i (if sent then c else c\<lparr>cn_finished := True\<rparr>) cl)
       (send_packet (ctc_key_packet cl) (np_heap cl i))"

text \<open>\<open>_update_keys\<close>: strings until the end of the packet, each moves the position forward.\<close>

lemma deserialize_string_advances:
  "deserialize_string data pos = Inr (s, pos') \<Longrightarrow> pos < pos' \<and> pos' \<le> length data"
  using char_codec.read_n_in_bounds
  by (fastforce simp: deserialize_string_def ebind_eq_Inr deserialize_size_def dest: deserialize_prim_bounds)

function update_keys :: "bytes \<Rightarrow> sockaddr \<Rightarrow> nat \<Rightarrow> kvstore \<Rightarrow> kvstore res" where
  "update_keys value other pos st =
     (if pos < length value
      then ebind (deserialize_string value pos) (\<lambda>(n, pos').
             update_keys value other pos' (kv_add_nonlocal \<lparr>key_name = n, key_node = other\<rparr> st))
      else Inr st)"
  by pat_completeness auto
termination
  by (relation "measure (\<lambda>(value, other, pos, st). length value - pos)")
    (auto dest: deserialize_string_advances)

declare update_keys.simps [simp del]

definition ctc_update_keys :: "packet \<Rightarrow> conn \<Rightarrow> client \<Rightarrow> (parse_result \<times> conn \<times> client) res" where
  "ctc_update_keys p c cl =
     (if pk_type p \<noteq> PT_KEY_LIST then Inr (ParseError, c, cl)
      else emap (\<lambda>st. (Success, c, cl\<lparr>cl_store := st\<rparr>)) (update_keys (pk_value p) (cn_other c) 0 (cl_store cl)))"

text \<open>
  \<open>_parse_request_response\<close>: the first waiting request for the key gets the value and is
  erased from the list; then the erased iterator is used once more to wake the thread.
\<close>

definition decode_response :: "bytes \<Rightarrow> (string \<times> dataframe option) res" where
  "decode_response value =
     ebind (vec_at value 0) (\<lambda>success.
     ebind (deserialize_string value 1) (\<lambda>(k, pos).
     if success \<noteq> 0 then emap (\<lambda>(df, _). (k, Some df)) (deserialize_dataframe value pos)
     else Inr (k, None)))"

definition ctc_fulfil :: "nat \<Rightarrow> string \<Rightarrow> dataframe option \<Rightarrow> client \<Rightarrow> client option" where
  "ctc_fulfil i key df cl =
     map_option (\<lambda>r. ctc_update i (\<lambda>k. k\<lparr>ctc_waiting := remove1 r (ctc_waiting k)\<rparr>) (ctc_answer r df cl))
       (find (\<lambda>r. key = cl_reqs cl r) (ctc_waiting (cl_ctc cl i)))"

definition ctc_parse_request_response :: "nat \<Rightarrow> packet \<Rightarrow> conn \<Rightarrow> client \<Rightarrow> (parse_result \<times> conn \<times> client) res" where
  "ctc_parse_request_response i p c cl =
     (if pk_type p \<noteq> PT_VALUE_RESPONSE then Inr (ParseError, c, cl)
      else ebind (decode_response (pk_value p)) (\<lambda>(key, df).
        case ctc_fulfil i key df cl of
          None \<Rightarrow> Inr (ParseError, c, cl)
        | Some cl' \<Rightarrow> Inl (Undefined DanglingIterator)))"

definition ctc_parse_data :: "nat \<Rightarrow> packet \<Rightarrow> conn \<Rightarrow> client \<Rightarrow> (parse_result \<times> conn \<times> client) res" where
  "ctc_parse_data i p c cl =
     (if pk_type p = PT_VALUE_RESPONSE then ctc_parse_request_response i p c cl
      else if pk_type p = PT_VALUE_REQUEST then Inr (Response, c, cl)
      else if pk_type p = PT_KEY_LIST then ctc_update_keys p c cl
      else case base_parse_data p c of (r, c) \<Rightarrow> Inr (r, c, cl))"

definition ctc_get_requested_value :: "string \<Rightarrow> client \<Rightarrow> packet res" where
  "ctc_get_requested_value key cl =
     (case kv_get_local (cl_store cl) (key_of key) of
        None \<Rightarrow> Inr (packet_of PT_VALUE_RESPONSE (0 # serialize_string key))
      | Some df \<Rightarrow> emap (\<lambda>bs. packet_of PT_VALUE_RESPONSE (1 # serialize_string key @ bs)) (df_serialize df))"

definition ctc_respond :: "packet \<Rightarrow> conn \<Rightarrow> client \<Rightarrow> (int \<times> conn \<times> client) res" where
  "ctc_respond msg c cl =
     (if pk_type msg = PT_ASK_FOR_ID then
        emap (\<lambda>(_, c). (0, c, cl)) (send_packet ((client_get_registration_packet cl)\<lparr>pk_type := PT_ID\<rparr>) c)
      else if pk_type msg = PT_VALUE_REQUEST then
        ebind (deserialize_string (pk_value msg) 0) (\<lambda>(key, _).
        ebind (ctc_get_requested_value key cl) (\<lambda>response.
        emap (\<lambda>(sent, c). (if sent then 0 else -1, c, cl)) (send_packet response c)))
      else Inr (-1, c, cl))"

text \<open>\<open>CtCConnection::run\<close>.\<close>

definition ctc_receive :: "nat \<Rightarrow> client \<Rightarrow> client res option" where
  "ctc_receive i cl =
     map_option (emap (\<lambda>(_, c, cl). np_write i c cl))
       (receive_and_parse (ctc_parse_data i) ctc_respond (np_heap cl i) cl)"

partial_function (option) ctc_loop :: "nat \<Rightarrow> client \<Rightarrow> client res option" where
  "ctc_loop i cl =
     (if cn_finished (np_heap cl i) then Some (Inr cl)
      else (case ctc_receive i cl of
          None \<Rightarrow> None
        | Some (Inl e) \<Rightarrow> Some (Inl e)
        | Some (Inr cl) \<Rightarrow>
            (case ebind (ctc_send_keys i cl) (ctc_check_requests i) of
               Inl e \<Rightarrow> Some (Inl e)
             | Inr cl \<Rightarrow> ctc_loop i cl)))"

definition ctc_run :: "connect_calls \<Rightarrow> nat \<Rightarrow> client \<Rightarrow> client res option" where
  "ctc_run os i cl =
     (case (if ctc_receiver (cl_ctc cl i) then Inr cl
            else emap (\<lambda>c. np_write i c cl) (ctc_as_client os (np_heap cl i))) of
        Inl e \<Rightarrow> Some (Inl e)
      | Inr cl \<Rightarrow>
          (case ctc_loop i cl of
             None \<Rightarrow> None
           | Some (Inl e) \<Rightarrow> Some (Inl e)
           | Some (Inr cl) \<Rightarrow>
               map_option (emap (\<lambda>cl. np_write i (ask_to_finish (np_heap cl i)) cl)) (ctc_receive i cl)))"

section \<open>The node\<close>

text \<open>
  What making a socket for connection \<open>i\<close> gives: the descriptor, and the behaviour of the
  socket. \<open>_initial\<close> and \<open>_connect_to_client\<close> bind it to the node's address and any port.
\<close>

type_synonym socket_env = "nat \<Rightarrow> int \<times> recv_event list \<times> (sock_status \<times> send_event) list"

definition client_initial :: "int \<times> recv_event list \<times> (sock_status \<times> send_event) list \<Rightarrow> client \<Rightarrow> client" where
  "client_initial sock cl =
     (case sock of (fd, ins, sends) \<Rightarrow>
        if fd < 0 then cl\<lparr>np_running := False\<rparr>
        else cl\<lparr>cl_server_conn := Some (conn_new (cl_server cl) ins sends)\<rparr>)"

definition client_connect_to_client :: "socket_env \<Rightarrow> sockaddr \<Rightarrow> client \<Rightarrow> client" where
  "client_connect_to_client env other cl =
     (case env (np_next cl) of (fd, ins, sends) \<Rightarrow>
      let cl = (if fd < 0 then cl\<lparr>np_running := False\<rparr> else cl);
          cl = cl\<lparr>cl_ctc := (cl_ctc cl)(np_next cl := \<lparr>ctc_receiver = False, ctc_queue = [], ctc_waiting = []\<rparr>)\<rparr> in
      np_add_conn (conn_new other ins sends) cl)"

definition client_connected :: "client \<Rightarrow> sockaddr \<Rightarrow> bool" where
  "client_connected cl a = list_ex (\<lambda>i. sockaddr_eq (cn_other (np_heap cl i)) a) (np_conns cl)"

definition client_check_client_updates :: "socket_env \<Rightarrow> client \<Rightarrow> client" where
  "client_check_client_updates env cl =
     (if \<not> cl_update cl then cl
      else let to_connect = fold (\<lambda>a l. if client_connected cl a then l else a # l) (cl_others cl) [] in
        fold (client_connect_to_client env) to_connect cl)"

text \<open>
  The hook of a clean-up does nothing. The connection is erased from the node's list; that destroys it
  only when nobody else holds it, and every thread with a request that is not answered does: it waits
  inside \<open>_get_value_helper\<close>, whose argument is a shared pointer to the connection.
\<close>

definition ctc_pending :: "nat \<Rightarrow> client \<Rightarrow> bool" where
  "ctc_pending i cl \<longleftrightarrow> ctc_queue (cl_ctc cl i) \<noteq> [] \<or> ctc_waiting (cl_ctc cl i) \<noteq> []"

definition client_on_clean_up :: "nat \<Rightarrow> client \<Rightarrow> client" where
  "client_on_clean_up i cl = (if ctc_pending i cl then cl else ctc_destroy i cl)"

definition client_main_loop_work ::
  "socket_env \<Rightarrow> int \<times> recv_event list \<times> (sock_status \<times> send_event) list \<Rightarrow> client \<Rightarrow> client res" where
  "client_main_loop_work env sock cl =
     (let cl = client_check_client_updates env cl in
      case cl_server_conn cl of
        None \<Rightarrow> Inl (Undefined NullPointer)
      | Some c \<Rightarrow> Inr (if cn_finished c then client_initial sock (cl\<lparr>cl_server_conn := None\<rparr>) else cl))"

text \<open>
  \<open>get_value\<close> up to where its thread waits: the number of the request it waits for, or
  nothing when no connection leads to the key's node. What it returns is the answer; \<open>Requests\<close> has
  the threads and their locks.
\<close>

definition client_new_request :: "string \<Rightarrow> client \<Rightarrow> nat \<times> client" where
  "client_new_request k cl =
     (let r = cl_next_req cl in
      (r, cl\<lparr>cl_reqs := (cl_reqs cl)(r := k), cl_answers := (cl_answers cl)(r := None), cl_next_req := Suc r\<rparr>))"

definition client_get_value :: "socket_env \<Rightarrow> kv_key \<Rightarrow> client \<Rightarrow> (nat option \<times> client) res" where
  "client_get_value env key cl =
     (let cl = client_check_client_updates env (clean_up_closed client_on_clean_up cl) in
      case find (\<lambda>i. sockaddr_eq (cn_other (np_heap cl i)) (key_node key)) (np_conns cl) of
        None \<Rightarrow> Inr (None, cl)
      | Some i \<Rightarrow>
          if cn_finished (np_heap cl i) then Inl Abort
          else case client_new_request (key_name key) cl of (r, cl) \<Rightarrow> Inr (Some r, ctc_add_request i r cl))"

section \<open>A client for the witnesses\<close>

definition sample_conn :: conn where
  "sample_conn = conn_new sockaddr_zero [] []"

text \<open>One connection, number 0, with request 0 for the key \<open>k\<close> waiting for its answer.\<close>

definition sample_client :: client where
  "sample_client = \<lparr>np_self = sockaddr_zero, np_conns = [0], np_heap = (\<lambda>_. sample_conn), np_next = 1, np_running = True,
     cl_server = sockaddr_zero, cl_server_conn = None, cl_others = [], cl_update = False,
     cl_ctc = (\<lambda>_. \<lparr>ctc_receiver = False, ctc_queue = [], ctc_waiting = [0]\<rparr>), cl_reqs = (\<lambda>_. ''k''), cl_next_req = 1,
     cl_answers = (\<lambda>_. None), cl_store = kv_empty\<rparr>"

lemma sample_client_fields [simp]:
  "np_self sample_client = sockaddr_zero" "np_conns sample_client = [0]" "np_heap sample_client i = sample_conn"
  "cl_others sample_client = []" "cl_ctc sample_client i = \<lparr>ctc_receiver = False, ctc_queue = [], ctc_waiting = [0]\<rparr>"
  "cl_reqs sample_client r = ''k''" "cl_answers sample_client r = None" "cl_store sample_client = kv_empty"
  "np_wf sample_client"
  by (simp_all add: sample_client_def np_wf_def)

text \<open>A client that stores a frame under \<open>k\<close>.\<close>

definition sample_peer :: client where
  "sample_peer = sample_client\<lparr>cl_store := kv_set_store (key_of ''k'') sample_frame kv_empty\<rparr>"

lemma sample_peer_view: "kv_view (cl_store sample_peer) ''k'' = Some sample_frame"
  by (simp add: sample_peer_def key_of_def)

lemma ok_k: "ok_string ''k''"
  by (simp add: ok_string_def)

section \<open>Key lists\<close>

lemma update_keys_list:
  assumes "list_all ok_string ks"
  shows "update_keys (pre @ concat (map serialize_string ks)) other (length pre) st =
     Inr (fold (\<lambda>n. kv_add_nonlocal \<lparr>key_name = n, key_node = other\<rparr>) ks st)"
  using assms
proof (induction ks arbitrary: pre st)
  case Nil
  show ?case by (simp add: update_keys.simps [of pre])
next
  case (Cons k ks)
  let ?st = "kv_add_nonlocal \<lparr>key_name = k, key_node = other\<rparr> st"
  have "deserialize_string (pre @ serialize_string k @ concat (map serialize_string ks)) (length pre) =
      Inr (k, length pre + length (serialize_string k))"
    using Cons.prems by (intro string_codec.roundtrip) simp
  moreover have "update_keys ((pre @ serialize_string k) @ concat (map serialize_string ks)) other
      (length (pre @ serialize_string k)) ?st =
      Inr (fold (\<lambda>n. kv_add_nonlocal \<lparr>key_name = n, key_node = other\<rparr>) ks ?st)"
    using Cons.prems by (intro Cons.IH) simp
  ultimately show ?case by (subst update_keys.simps) (simp del: length_concat)
qed

lemma kv_add_all_view:
  "kv_remote_view (fold (\<lambda>n. kv_add_nonlocal \<lparr>key_name = n, key_node = other\<rparr>) ks st) m =
     (if m \<in> set ks then Some other else kv_remote_view st m)"
  "kv_view (fold (\<lambda>n. kv_add_nonlocal \<lparr>key_name = n, key_node = other\<rparr>) ks st) = kv_view st"
  by (induction ks arbitrary: st) simp_all

lemma ctc_update_keys_views:
  assumes "list_all ok_string (kv_local_keys (cl_store peer))"
  shows "\<exists>st. ctc_update_keys (ctc_key_packet peer) c cl = Inr (Success, c, cl\<lparr>cl_store := st\<rparr>)
     \<and> kv_view st = kv_view (cl_store cl)
     \<and> (\<forall>n. kv_remote_view st n =
          (if kv_view (cl_store peer) n = None then kv_remote_view (cl_store cl) n else Some (cn_other c)))"
proof -
  have "kv_view (cl_store peer) n = None \<longleftrightarrow> n \<notin> set (kv_local_keys (cl_store peer))" for n
    using set_local_keys [of "cl_store peer"] by auto
  then show ?thesis
    using update_keys_list [OF assms, of "[]" "cn_other c" "cl_store cl"]
    by (intro exI [of _ "fold (\<lambda>n. kv_add_nonlocal \<lparr>key_name = n, key_node = cn_other c\<rparr>)
        (kv_local_keys (cl_store peer)) (cl_store cl)"])
      (simp add: ctc_update_keys_def ctc_key_packet_def packet_of_def kv_add_all_view)
qed

text \<open>
  A key list makes exactly the sender's keys known, under the address of the connection it came over,
  and leaves what the receiver stores alone.
\<close>

lemma ctc_update_keys_received:
  assumes "list_all ok_string (kv_local_keys (cl_store peer))"
  shows "\<exists>st. ctc_parse_data i (ctc_key_packet peer) c cl = Inr (Success, c, cl\<lparr>cl_store := st\<rparr>)
     \<and> kv_view st = kv_view (cl_store cl)
     \<and> (\<forall>n. kv_remote_view st n =
          (if kv_view (cl_store peer) n = None then kv_remote_view (cl_store cl) n else Some (cn_other c)))"
  using ctc_update_keys_views [OF assms, of c cl] by (simp add: ctc_parse_data_def ctc_key_packet_def packet_of_def)

section \<open>Value requests\<close>

lemma decode_response_missing:
  "ok_string key \<Longrightarrow> decode_response (0 # serialize_string key) = Inr (key, None)"
  using string_codec.roundtrip [of key "[0]" "[]"] by (simp add: decode_response_def)

lemma decode_response_value:
  assumes "ok_string key" and "df_ok df" and "df_serialize df = Inr bs"
  shows "decode_response (1 # serialize_string key @ bs) = Inr (key, Some (df_of_columns (df_columns df)))"
proof -
  let ?v = "1 # serialize_string key @ bs"
  have "deserialize_string ?v 1 = Inr (key, 1 + length (serialize_string key))"
    using string_codec.roundtrip [OF assms(1), of "[1]" bs] by simp
  moreover have "deserialize_dataframe ?v (1 + length (serialize_string key)) =
      Inr (df_of_columns (df_columns df), length ?v)"
    using df_roundtrip [OF assms(2,3), of "1 # serialize_string key" "[]"] by simp
  ultimately show ?thesis by (simp add: decode_response_def)
qed

text \<open>The answer to a request is the value under the key, or word that there is none.\<close>

lemma ctc_get_requested_value_decodes:
  assumes "ok_string key" and "\<forall>df. kv_view (cl_store cl) key = Some df \<longrightarrow> df_ok df"
  shows "\<exists>p. ctc_get_requested_value key cl = Inr p \<and> pk_type p = PT_VALUE_RESPONSE
     \<and> decode_response (pk_value p) =
       Inr (key, map_option (\<lambda>df. df_of_columns (df_columns df)) (kv_view (cl_store cl) key))"
proof (cases "kv_view (cl_store cl) key")
  case None
  then show ?thesis
    using decode_response_missing [OF assms(1)]
    by (simp add: ctc_get_requested_value_def kv_view_def packet_of_def)
next
  case (Some df)
  then have ok: "df_ok df" using assms(2) by blast
  then obtain bs where bs: "df_serialize df = Inr bs" using df_serialize_total by (auto simp: df_ok_def)
  with Some decode_response_value [OF assms(1) ok bs] show ?thesis
    by (simp add: ctc_get_requested_value_def kv_view_def packet_of_def)
qed

text \<open>
  The first waiting request for the key gets the answer and is taken off the list; the
  others are left alone.
\<close>

lemma ctc_fulfil_first:
  assumes "ctc_waiting (cl_ctc cl i) = xs @ r # ys" and "cl_reqs cl r = key"
    and "\<forall>x\<in>set xs. cl_reqs cl x \<noteq> key" and "distinct (xs @ r # ys)"
  shows "\<exists>cl'. ctc_fulfil i key df cl = Some cl' \<and> cl_answers cl' r = Some df
     \<and> ctc_waiting (cl_ctc cl' i) = xs @ ys \<and> (\<forall>q. q \<noteq> r \<longrightarrow> cl_answers cl' q = cl_answers cl q)"
proof -
  have "find (\<lambda>r. key = cl_reqs cl r) (xs @ r # ys) = Some r"
    using assms(2,3) by (induction xs) auto
  moreover have "remove1 r (xs @ r # ys) = xs @ ys" using assms(4) by (simp add: remove1_append)
  ultimately show ?thesis
    using assms(1) by (simp add: ctc_fulfil_def ctc_update_def ctc_answer_def)
qed

text \<open>Every response that fits a waiting request uses an iterator after its element was erased.\<close>

lemma ctc_response_ub:
  assumes "pk_type p = PT_VALUE_RESPONSE" and "decode_response (pk_value p) = Inr (key, df)"
    and "r \<in> set (ctc_waiting (cl_ctc cl i))" and "cl_reqs cl r = key"
  shows "ctc_parse_data i p c cl = Inl (Undefined DanglingIterator)"
proof -
  have "find (\<lambda>r. key = cl_reqs cl r) (ctc_waiting (cl_ctc cl i)) \<noteq> None"
    using assms(3,4) by (auto simp: find_None_iff)
  then show ?thesis
    using assms(1,2) by (auto simp: ctc_parse_data_def ctc_parse_request_response_def ctc_fulfil_def)
qed

text \<open>A request that is too short to hold its key throws, on a thread without a handler.\<close>

lemma ctc_respond_malformed:
  assumes "pk_type p = PT_VALUE_REQUEST" and "length (pk_value p) < 8"
  shows "ctc_respond p c cl = Inl (Throw ShortSerializedData)"
  using assms by (simp add: ctc_respond_def deserialize_string_def deserialize_size_def deserialize_prim_def)

text \<open>What the destructor is for: it would leave nobody waiting.\<close>

lemma answer_none_fold:
  "cl_answers (fold (\<lambda>r. ctc_answer r None) rs cl) q = (if q \<in> set rs then Some None else cl_answers cl q)"
  "cl_ctc (fold (\<lambda>r. ctc_answer r None) rs cl) = cl_ctc cl"
  by (induction rs arbitrary: cl) (simp_all add: ctc_answer_def)

lemma ctc_destroy_answers:
  "cl_answers (ctc_destroy i cl) r =
     (if r \<in> set (ctc_queue (cl_ctc cl i)) \<union> set (ctc_waiting (cl_ctc cl i)) then Some None else cl_answers cl r)"
  "ctc_queue (cl_ctc (ctc_destroy i cl) i) = []" "ctc_waiting (cl_ctc (ctc_destroy i cl) i) = []"
  by (simp_all add: ctc_destroy_def ctc_update_def answer_none_fold del: fold_append)

section \<open>Identification\<close>

text \<open>
  The identification a connecting client sends has an empty value, which the receiver
  rejects: the receiver never learns the listening address of its peer.
\<close>

lemma ctc_id_rejected: "ctc_parse_data i (packet_of PT_ID []) c cl = Inr (ParseError, c, cl)"
  by (simp add: ctc_parse_data_def base_parse_data_def packet_of_def SOCKADDR_SIZE_def)

lemma ctc_id_accepted:
  "sockaddr_wf a \<Longrightarrow> ctc_parse_data i (packet_of PT_ID (sockaddr_bytes a)) c cl = Inr (Success, c\<lparr>cn_other := a\<rparr>, cl)"
  using sockaddr_of_bytes_of [of a "[]"]
  by (simp add: ctc_parse_data_def base_parse_data_def packet_of_def)

section \<open>Client updates\<close>

lemma client_connected_iff:
  "client_connected cl a \<longleftrightarrow> (\<exists>i\<in>set (np_conns cl). sockaddr_eq (cn_other (np_heap cl i)) a)"
  by (simp add: client_connected_def list_ex_iff)

lemma connect_fields:
  "np_conns (client_connect_to_client env b cl) = np_conns cl @ [np_next cl]"
  "np_next (client_connect_to_client env b cl) = Suc (np_next cl)"
  "cl_others (client_connect_to_client env b cl) = cl_others cl"
  "cl_update (client_connect_to_client env b cl) = cl_update cl"
  "np_heap (client_connect_to_client env b cl) =
     (np_heap cl)(np_next cl := conn_new b (fst (snd (env (np_next cl)))) (snd (snd (env (np_next cl)))))"
  by (simp_all add: client_connect_to_client_def np_add_conn_def Let_def split: prod.split)

lemma connect_connects:
  assumes "np_wf cl"
  shows "np_wf (client_connect_to_client env b cl)"
    and "client_connected (client_connect_to_client env b cl) a \<longleftrightarrow> client_connected cl a \<or> sockaddr_eq b a"
proof -
  show "np_wf (client_connect_to_client env b cl)"
    using assms by (auto simp: np_wf_def connect_fields)
  have "np_next cl \<notin> set (np_conns cl)" using assms by (auto simp: np_wf_def)
  then show "client_connected (client_connect_to_client env b cl) a \<longleftrightarrow> client_connected cl a \<or> sockaddr_eq b a"
    by (auto simp: client_connected_iff connect_fields conn_new_def)
qed

lemma connect_all:
  assumes "np_wf cl"
  shows "np_wf (fold (client_connect_to_client env) bs cl)"
    and "client_connected (fold (client_connect_to_client env) bs cl) a \<longleftrightarrow>
      client_connected cl a \<or> (\<exists>b\<in>set bs. sockaddr_eq b a)"
    and "cl_others (fold (client_connect_to_client env) bs cl) = cl_others cl"
    and "cl_update (fold (client_connect_to_client env) bs cl) = cl_update cl"
  using assms by (induction bs arbitrary: cl) (auto simp: connect_connects connect_fields)

lemma to_connect_eq:
  "fold (\<lambda>a l. if client_connected cl a then l else a # l) as l =
     rev (filter (\<lambda>a. \<not> client_connected cl a) as) @ l"
  by (induction as arbitrary: l) simp_all

text \<open>
  After a check every announced client has a connection, and a second check does nothing,
  although the flag is never taken down.
\<close>

lemma client_check_connects:
  assumes "np_wf cl" and "cl_update cl" and "a \<in> set (cl_others cl)"
  shows "client_connected (client_check_client_updates env cl) a"
  using assms by (auto simp: client_check_client_updates_def to_connect_eq connect_all sockaddr_eq_equiv(1))

lemma client_check_idle:
  assumes "\<forall>a\<in>set (cl_others cl). client_connected cl a"
  shows "client_check_client_updates env cl = cl"
  using assms by (simp add: client_check_client_updates_def to_connect_eq filter_empty_conv)

lemma client_check_idempotent:
  assumes "np_wf cl"
  shows "client_check_client_updates env' (client_check_client_updates env cl) = client_check_client_updates env cl"
proof (cases "cl_update cl")
  case True
  then have "cl_others (client_check_client_updates env cl) = cl_others cl"
    using assms by (simp add: client_check_client_updates_def to_connect_eq connect_all)
  then show ?thesis using client_check_connects [OF assms True] by (intro client_check_idle) simp
qed (simp add: client_check_client_updates_def)

text \<open>So the destructor of a connection never finds a request to answer: erasing one changes nothing else.\<close>

lemma client_on_clean_up_eq [simp]: "client_on_clean_up i cl = cl"
proof -
  have "ctc_update i (\<lambda>k. k\<lparr>ctc_queue := [], ctc_waiting := []\<rparr>) cl = cl" if "\<not> ctc_pending i cl"
    using that by (cases "cl_ctc cl i") (simp add: ctc_update_def ctc_pending_def fun_upd_idem)
  then show ?thesis by (auto simp: client_on_clean_up_def ctc_destroy_def ctc_pending_def)
qed

interpretation client_clean_up: clean_up client_on_clean_up
  by unfold_locales simp_all

section \<open>Properties\<close>

text \<open>
  A clean-up takes the finished connections off the list and answers nobody: a request that is pending at
  one of them stays pending there, and its thread goes on waiting.
\<close>

lemma client_clean_up_answers_nobody:
  "clean_up_closed client_on_clean_up cl = cl\<lparr>np_conns := open_conns cl\<rparr>"
proof -
  have "fold client_on_clean_up is cl = cl" for "is" by (induction "is") simp_all
  then show ?thesis by (simp add: client_clean_up.clean_up_closed_eq)
qed

text \<open>After a check every announced client has a connection, and a second check does nothing.\<close>

lemma client_check_complete:
  assumes "np_wf cl" and "cl_update cl"
  shows "(\<forall>a\<in>set (cl_others cl). client_connected (client_check_client_updates env cl) a)
     \<and> client_check_client_updates env' (client_check_client_updates env cl) = client_check_client_updates env cl"
  using client_check_connects [OF assms] client_check_idempotent [OF assms(1)] by simp

end
