(* ===== verification/System.thy ===== *)
theory System
  imports Server Client
begin

text \<open>
  Conversations between the nodes: a client registers with the server, the server announces
  the registry to a client, and a client fetches a value that another client stores.
\<close>

section \<open>The node of a process\<close>

text \<open>
  \<open>NetPort::np_instance\<close>: a process is one node, a server or a client. \<open>init\<close> only makes one when
  there is none yet, \<open>get_instance\<close> is a dynamic cast.
\<close>

datatype node = ServerNode server | ClientNode client

definition node_init :: "node res \<Rightarrow> node option \<Rightarrow> (bool \<times> node option) res" where
  "node_init build inst = (case inst of Some n \<Rightarrow> Inr (False, inst) | None \<Rightarrow> emap (\<lambda>n. (True, Some n)) build)"

definition server_init ::
  "(string \<Rightarrow> u32 option) \<Rightarrow> sock_calls \<Rightarrow> sockaddr \<Rightarrow> (nat \<Rightarrow> conn) \<Rightarrow> string \<Rightarrow> u16 \<Rightarrow> node option \<Rightarrow> (bool \<times> node option) res" where
  "server_init pton os mem heap ip port = node_init (emap ServerNode (server_new pton os mem heap ip port))"

definition client_init ::
  "(string \<Rightarrow> u32 option) \<Rightarrow> sock_calls \<Rightarrow> sockaddr \<Rightarrow> (nat \<Rightarrow> conn) \<Rightarrow> (nat \<Rightarrow> ctc) \<Rightarrow> string \<Rightarrow> string \<Rightarrow> u16
    \<Rightarrow> node option \<Rightarrow> (bool \<times> node option) res" where
  "client_init pton os mem heap tabs client_ip server_ip port =
     node_init (emap ClientNode (client_new pton os mem heap tabs client_ip server_ip port))"

definition server_get_instance :: "node option \<Rightarrow> server option" where
  "server_get_instance inst = (case inst of Some (ServerNode s) \<Rightarrow> Some s | _ \<Rightarrow> None)"

definition client_get_instance :: "node option \<Rightarrow> client option" where
  "client_get_instance inst = (case inst of Some (ClientNode cl) \<Rightarrow> Some cl | _ \<Rightarrow> None)"

section \<open>Client and server\<close>

text \<open>What a client makes of the server's announcement: everybody but itself.\<close>

lemma announcement_received:
  assumes "server_wf s"
  shows "cts_parse_data (fst (server_get_clients s)) c cl =
     Inr (Success, c, cl\<lparr>cl_others := filter (\<lambda>a. \<not> sockaddr_eq (np_self cl) a) (srv_clients s), cl_update := True\<rparr>)"
proof -
  have "pk_type (fst (server_get_clients s)) = PT_CLIENT_UPDATE"
    by (simp add: server_get_clients_def server_clients_packet_def packet_of_def)
  then show ?thesis using server_get_clients_list [OF assms] by (simp add: cts_parse_data_def)
qed

text \<open>A registration puts the client's listening address at the end of the registry.\<close>

lemma registration_received:
  assumes "sockaddr_wf (np_self cl)" and "closed_conns (np_write i c s) = []"
  shows "\<exists>s'. server_parse_data i (client_get_registration_packet cl) c s =
       Inr (Success, c\<lparr>cn_other := np_self cl\<rparr>, s')
     \<and> srv_clients s' = srv_clients s @ [np_self cl] \<and> srv_new_update s'
     \<and> srv_expected s' = length (np_conns s) \<and> np_conns s' = np_conns s"
proof -
  let ?c = "c\<lparr>cn_other := np_self cl\<rparr>"
  let ?s = "server_update_and_alert (np_self cl) (np_write i ?c s)"
  have open_all: "closed_conns (np_write i ?c s) = []" "open_conns (np_write i ?c s) = np_conns s"
    using assms(2) by (auto simp: closed_conns_def open_conns_def filter_empty_conv filter_id_conv split: if_splits)
  moreover have "srv_clients (np_write i ?c s) = srv_clients s" by (simp add: np_write_def)
  ultimately have "srv_clients ?s = srv_clients s @ [np_self cl]" "srv_new_update ?s"
    "srv_expected ?s = length (np_conns s)" "np_conns ?s = np_conns s" "np_heap ?s i = ?c"
    by (simp_all add: server_update_fields)
  moreover have "sockaddr_of_bytes (sockaddr_bytes (np_self cl)) = np_self cl"
    using sockaddr_of_bytes_of [OF assms(1), of "[]"] by simp
  ultimately show ?thesis
    using assms(1) open_worker [OF assms(2)]
    by (simp add: server_parse_data_def client_get_registration_packet_def packet_of_def Let_def)
qed

lemma registration_state:
  assumes "sockaddr_wf (np_self cl)" and "\<not> (cn_finished c \<and> i \<in> set (np_conns s))"
  shows "server_parse_data i (client_get_registration_packet cl) c s =
     Inr (Success, c\<lparr>cn_other := np_self cl\<rparr>, server_update_and_alert (np_self cl) (np_write i (c\<lparr>cn_other := np_self cl\<rparr>) s))"
  using assms sockaddr_of_bytes_of [OF assms(1), of "[]"]
  by (simp add: server_parse_data_def client_get_registration_packet_def packet_of_def packet_new_def server_update_fields Let_def)

section \<open>Fetching a value\<close>

text \<open>The bytes a connection hands to the network for the requests in its queue.\<close>

lemma check_requests_sends:
  assumes "length rs \<le> length ns" and "cn_sends (np_heap cl i) = map (\<lambda>n. (SockOk, Sent n)) ns @ as"
    and "\<forall>k<length rs. packet_get_size (packet_of PT_VALUE_REQUEST (serialize_string (cl_reqs cl (rs ! k)))) \<le> ns ! k"
    and "ctc_queue (cl_ctc cl i) = rs"
  shows "\<exists>cl'. check_requests rs i cl = Inr cl' \<and> ctc_queue (cl_ctc cl' i) = []
     \<and> ctc_waiting (cl_ctc cl' i) = ctc_waiting (cl_ctc cl i) @ rs \<and> cl_reqs cl' = cl_reqs cl
     \<and> cn_out (np_heap cl' i) = cn_out (np_heap cl i) @
         concat (map (\<lambda>r. packet_pack (packet_of PT_VALUE_REQUEST (serialize_string (cl_reqs cl r)))) rs)"
  using assms
proof (induction rs arbitrary: cl ns)
  case (Cons r rs)
  let ?p = "packet_of PT_VALUE_REQUEST (serialize_string (cl_reqs cl r))"
  obtain n ms where ns: "ns = n # ms" using Cons.prems(1) by (cases ns) auto
  let ?u = "ctc_update i (\<lambda>k. k\<lparr>ctc_queue := rs, ctc_waiting := ctc_waiting k @ [r]\<rparr>) cl"
  have u: "np_heap ?u = np_heap cl" "cl_reqs ?u = cl_reqs cl" "ctc_queue (cl_ctc ?u i) = rs"
    "ctc_waiting (cl_ctc ?u i) = ctc_waiting (cl_ctc cl i) @ [r]"
    by (simp_all add: ctc_update_def)
  have "packet_get_size ?p \<le> n" using Cons.prems(3) ns by fastforce
  then obtain c where c: "send_packet ?p (np_heap cl i) = Inr (True, c)"
    "cn_sends c = map (\<lambda>n. (SockOk, Sent n)) ms @ as" "cn_out c = cn_out (np_heap cl i) @ packet_pack ?p"
    using send_packet_full [of "np_heap cl i" n "map (\<lambda>n. (SockOk, Sent n)) ms @ as" ?p] Cons.prems(2) ns by auto
  let ?cl = "np_write i c ?u"
  have cl: "cl_reqs ?cl = cl_reqs cl" "cl_ctc ?cl = cl_ctc ?u" "np_heap ?cl i = c"
    using u by (simp_all add: np_write_def)
  have "\<exists>cl'. check_requests rs i ?cl = Inr cl' \<and> ctc_queue (cl_ctc cl' i) = []
     \<and> ctc_waiting (cl_ctc cl' i) = ctc_waiting (cl_ctc ?cl i) @ rs \<and> cl_reqs cl' = cl_reqs ?cl
     \<and> cn_out (np_heap cl' i) = cn_out (np_heap ?cl i) @
         concat (map (\<lambda>r. packet_pack (packet_of PT_VALUE_REQUEST (serialize_string (cl_reqs ?cl r)))) rs)"
  proof (rule Cons.IH [of ms])
    show "\<forall>k<length rs. packet_get_size (packet_of PT_VALUE_REQUEST (serialize_string (cl_reqs ?cl (rs ! k)))) \<le> ms ! k"
      using Cons.prems(3) ns cl(1) by fastforce
  qed (use Cons.prems(1) ns c cl u in simp_all)
  then show ?case using c cl u by (simp add: Let_def)
qed simp



text \<open>
  Fetching a value, as far as the code is defined: the response a node makes for a request carries a
  frame with the rows and types of the frame it stores, and the first thread waiting for that key is
  given that frame and taken off the list.
\<close>

lemma remote_value:
  assumes store: "kv_view (cl_store peer) key = Some df" and ok: "df_ok df" "df_columns df \<noteq> []" "ok_string key"
    and waiting: "ctc_waiting (cl_ctc cl i) = r # ys" "cl_reqs cl r = key" "distinct (r # ys)"
  shows "\<exists>resp df' cl'. ctc_get_requested_value key peer = Inr resp
     \<and> decode_response (pk_value resp) = Inr (key, Some df') \<and> df_rows df' = df_rows df
     \<and> map col_get_type (df_columns df') = map col_get_type (df_columns df)
     \<and> ctc_fulfil i key (Some df') cl = Some cl' \<and> cl_answers cl' r = Some (Some df')
     \<and> ctc_waiting (cl_ctc cl' i) = ys"
proof -
  let ?df = "df_of_columns (df_columns df)"
  obtain resp where "ctc_get_requested_value key peer = Inr resp"
    "decode_response (pk_value resp) = Inr (key, Some ?df)"
    using ctc_get_requested_value_decodes [OF ok(3), of peer] store ok(1) by auto
  moreover obtain cl' where "ctc_fulfil i key (Some ?df) cl = Some cl'" "cl_answers cl' r = Some (Some ?df)"
    "ctc_waiting (cl_ctc cl' i) = ys"
    using ctc_fulfil_first [of cl i "[]" r ys key "Some ?df"] waiting by auto
  ultimately show ?thesis
    using df_of_columns_rows [OF ok(2)] by (intro exI [of _ resp] exI [of _ ?df] exI [of _ cl']) simp
qed

section \<open>Properties\<close>

text \<open>
  C20: Discovery end to end: a client registers, the server's announcement reaches another client, and
  the next check of that client leaves it with a connection to the first one's listening address
  (unless that is its own).
\<close>

theorem register_announce_connect:
  assumes "server_wf s" and "sockaddr_wf (np_self a)" and "closed_conns (np_write i c s) = []"
    and "np_wf b" and "\<not> sockaddr_eq (np_self b) (np_self a)"
  shows "\<exists>c' s' b'. server_parse_data i (client_get_registration_packet a) c s = Inr (Success, c', s')
     \<and> srv_clients s' = srv_clients s @ [np_self a] \<and> srv_new_update s'
     \<and> cts_parse_data (fst (server_get_clients s')) d b = Inr (Success, d, b')
     \<and> client_connected (client_check_client_updates env b') (np_self a)"
proof -
  obtain s' where s': "server_parse_data i (client_get_registration_packet a) c s = Inr (Success, c\<lparr>cn_other := np_self a\<rparr>, s')"
    "srv_clients s' = srv_clients s @ [np_self a]" "srv_new_update s'"
    "s' = server_update_and_alert (np_self a) (np_write i (c\<lparr>cn_other := np_self a\<rparr>) s)"
    using registration_received [OF assms(2,3)] registration_state [OF assms(2) open_worker [OF assms(3)]] by auto
  have wf: "server_wf s'" unfolding s'(4) by (intro server_wf_ops(2) server_wf_conn_ops(2) assms(1,2))
  let ?b = "b\<lparr>cl_others := filter (\<lambda>a. \<not> sockaddr_eq (np_self b) a) (srv_clients s'), cl_update := True\<rparr>"
  have "np_wf ?b" using assms(4) by (simp add: np_wf_def)
  moreover have "np_self a \<in> set (cl_others ?b)" using s'(2) assms(5) by simp
  ultimately have "client_connected (client_check_client_updates env ?b) (np_self a)"
    by (intro client_check_connects) simp_all
  with s' announcement_received [OF wf, of d b] show ?thesis
    by (intro exI [of _ "c\<lparr>cn_other := np_self a\<rparr>"] exI [of _ s'] exI [of _ ?b]) simp
qed

theorem register_announce_connect_witness:
  "\<exists>c' s' b'. server_parse_data 0 (client_get_registration_packet sample_client) sample_conn sample_server = Inr (Success, c', s')
     \<and> cts_parse_data (fst (server_get_clients s')) sample_conn (sample_client\<lparr>np_self := sockaddr_zero\<lparr>sin_port := 9\<rparr>\<rparr>)
         = Inr (Success, sample_conn, b')
     \<and> client_connected (client_check_client_updates (\<lambda>_. (5, [], [])) b') sockaddr_zero"
proof -
  have "closed_conns (np_write 0 sample_conn sample_server) = []"
    by (simp add: closed_conns_def sample_conn_def conn_new_def)
  moreover have "np_wf (sample_client\<lparr>np_self := sockaddr_zero\<lparr>sin_port := 9\<rparr>\<rparr>)" by (simp add: np_wf_def sample_client_def)
  ultimately show ?thesis
    using register_announce_connect [OF sample_server_wf, of sample_client 0 sample_conn
        "sample_client\<lparr>np_self := sockaddr_zero\<lparr>sin_port := 9\<rparr>\<rparr>" sample_conn "\<lambda>_. (5, [], [])"]
    by (auto simp: sockaddr_wf_def sockaddr_eq_def sockaddr_zero_def)
qed

text \<open>A process is at most one node: after an \<open>init\<close> that succeeded, further ones change nothing.\<close>

lemma one_node_per_process:
  assumes "node_init build None = Inr (ok, inst)"
  shows "ok \<and> server_init pton os mem heap ip port inst = Inr (False, inst)
     \<and> client_init pton os mem heap tabs ip sip port inst = Inr (False, inst)
     \<and> (server_get_instance inst = None \<longleftrightarrow> client_get_instance inst \<noteq> None)"
proof -
  obtain n where "ok" "inst = Some n" using assms by (auto simp: node_init_def emap_eq_Inr)
  then show ?thesis
    by (cases n) (simp_all add: node_init_def server_init_def client_init_def server_get_instance_def client_get_instance_def)
qed

end
