(* ===== verification/ReceiveBuffer.thy ===== *)
theory ReceiveBuffer
  imports System
begin

text \<open>
  Bounds of the receive buffer of \<open>src/network/connection.cpp\<close>: 4096 bytes, a write position that is a \<open>size_t\<close>
  and only ever meant to stay below them, whatever arrives.
\<close>

section \<open>Invariant\<close>

definition buffer_ok :: "conn \<Rightarrow> bool" where
  "buffer_ok c \<longleftrightarrow> length (cn_buf c) = BUFFER_SIZE \<and> unat (cn_pos c) \<le> BUFFER_SIZE"

lemma buffer_ok_fields [simp]:
  "buffer_ok (c\<lparr>cn_in := es\<rparr>) = buffer_ok c" "buffer_ok (c\<lparr>cn_finished := b\<rparr>) = buffer_ok c"
  "buffer_ok (c\<lparr>cn_other := a\<rparr>) = buffer_ok c" "buffer_ok (c\<lparr>cn_sends := ss\<rparr>) = buffer_ok c"
  "buffer_ok (c\<lparr>cn_out := out\<rparr>) = buffer_ok c"
  by (simp_all add: buffer_ok_def)

lemma buffer_ok_new: "buffer_ok (conn_new a es ss)"
  by (simp add: buffer_ok_def conn_new_def)

lemma base_parse_data_buffer: "buffer_ok c \<Longrightarrow> buffer_ok (snd (base_parse_data p c))"
  by (simp add: base_parse_data_def ask_to_finish_def Let_def)

section \<open>Receiving\<close>

lemma BUFFER_SIZE_word: "unat (word_of_nat BUFFER_SIZE :: u64) = BUFFER_SIZE"
  by (simp add: BUFFER_SIZE_def)

lemma buffer_room: "buffer_ok c \<Longrightarrow> unat (word_of_nat BUFFER_SIZE - cn_pos c) = BUFFER_SIZE - unat (cn_pos c)"
  using BUFFER_SIZE_word by (simp add: buffer_ok_def unat_sub word_le_nat_alt)

lemma store_received_buffer:
  assumes "buffer_ok c" and "length bs \<le> BUFFER_SIZE - unat (cn_pos c)"
  shows "\<exists>c'. store_received bs c = Inr c' \<and> buffer_ok c' \<and> unat (cn_pos c') = unat (cn_pos c) + length bs
    \<and> take (unat (cn_pos c')) (cn_buf c') = take (unat (cn_pos c)) (cn_buf c) @ bs"
proof -
  have pos: "unat (cn_pos c) + length bs \<le> BUFFER_SIZE" using assms unfolding buffer_ok_def by arith
  then have "unat (cn_pos c + word_of_nat (length bs)) = unat (cn_pos c) + length bs"
    using unat_u64 [of "unat (cn_pos c) + length bs"] by (simp add: BUFFER_SIZE_def)
  then show ?thesis using assms(1) pos by (simp add: store_received_def Let_def buffer_ok_def)
qed

lemma receive_attempts_buffer:
  assumes "buffer_ok c"
  shows "\<exists>n c' bs. receive_attempts k c = Inr (n, c') \<and> buffer_ok c' \<and> n \<le> int (BUFFER_SIZE - unat (cn_pos c))
    \<and> take (unat (cn_pos c')) (cn_buf c') = take (unat (cn_pos c)) (cn_buf c) @ bs \<and> length bs = nat n"
  using assms
proof (induction k arbitrary: c)
  case (Suc k)
  note IH = Suc.IH [of "c\<lparr>cn_in := es\<rparr>" for es]
  show ?case
  proof (cases "cn_in c")
    case Nil
    then show ?thesis using Suc by simp
  next
    case (Cons e es)
    show ?thesis
    proof (cases e)
      case (Data d)
      let ?room = "BUFFER_SIZE - unat (cn_pos c)"
      obtain c' where "store_received (take ?room d) c = Inr c'" "buffer_ok c'"
        "take (unat (cn_pos c')) (cn_buf c') = take (unat (cn_pos c)) (cn_buf c) @ take ?room d"
        using store_received_buffer [OF Suc.prems, of "take ?room d"] by auto
      then show ?thesis using Cons Data by (auto simp: buffer_room [OF Suc.prems] Let_def min_def)
    qed (use Cons Suc.prems IH [of es] in auto)
  qed
qed simp

lemma receive_data_buffer:
  assumes "buffer_ok c"
  obtains n c' bs where "receive_data c = Inr (n, c')" and "buffer_ok c'" and "n \<le> int (BUFFER_SIZE - unat (cn_pos c))"
    and "take (unat (cn_pos c')) (cn_buf c') = take (unat (cn_pos c)) (cn_buf c) @ bs" and "length bs = nat n"
  using receive_attempts_buffer [OF assms, of 5] unfolding receive_data_def by blast

section \<open>Parsing\<close>

text \<open>Dropping more than has arrived moves the position below zero, that is, far beyond the buffer.\<close>

lemma drop_parsed_buffer:
  assumes "buffer_ok c"
  shows "drop_parsed k c = Inl (Undefined OutOfBounds) \<and> unat (cn_pos c) < k \<and> k < BUFFER_SIZE
    \<or> (\<exists>c'. drop_parsed k c = Inr c' \<and> buffer_ok c' \<and> unat (cn_pos c') = unat (cn_pos c) - k
         \<and> (k \<le> unat (cn_pos c) \<or> BUFFER_SIZE \<le> k))"
proof (cases "BUFFER_SIZE \<le> k")
  case True
  then show ?thesis using assms by (simp add: drop_parsed_def buffer_ok_def)
next
  case False
  have k: "unat (word_of_nat k :: u64) = k" using False by (intro unat_u64) (simp add: BUFFER_SIZE_def)
  show ?thesis
  proof (cases "k \<le> unat (cn_pos c)")
    case True
    then have "unat (cn_pos c - word_of_nat k) = unat (cn_pos c) - k" using k by (simp add: unat_sub word_le_nat_alt)
    then show ?thesis using False True assms by (auto simp: drop_parsed_def Let_def buffer_ok_def min_def)
  next
    case less: False
    then have "unat (cn_pos c - word_of_nat k) = 2 ^ 64 + unat (cn_pos c) - k"
      using k by (simp add: unat_sub_if_size word_size)
    then have "\<not> unat (cn_pos c - word_of_nat k) \<le> BUFFER_SIZE" using False by (simp add: BUFFER_SIZE_def)
    then show ?thesis using False less by (simp add: drop_parsed_def Let_def)
  qed
qed

lemma drop_parsed_ok:
  assumes "buffer_ok c"
  shows "drop_parsed k c = Inr c' \<Longrightarrow> buffer_ok c'" and "drop_parsed k c = Inl e \<Longrightarrow> e = Undefined OutOfBounds"
  using drop_parsed_buffer [OF assms, of k] by auto

text \<open>Reading from the buffer fails in one way only: outside it.\<close>

lemma read_buffer_fault: "read_buffer buf pos n = Inl e \<Longrightarrow> e = Undefined OutOfBounds"
  by (simp add: read_buffer_def split: if_splits)

lemma ebind_eq_Inl: "ebind m f = Inl e \<longleftrightarrow> m = Inl e \<or> (\<exists>x. m = Inr x \<and> f x = Inl e)"
  by (cases m) simp_all

lemma emap_eq_Inl: "emap f m = Inl e \<longleftrightarrow> m = Inl e"
  by (cases m) simp_all

lemma partial_unpack_fault: "partial_unpack front p buf n fin = Inl e \<Longrightarrow> e = Undefined OutOfBounds"
  by (auto simp: partial_unpack_def unpack_value_def Let_def ebind_eq_Inl emap_eq_Inl
      dest: read_buffer_fault split: if_splits)

lemma unpack_loop_buffer:
  "buffer_ok c \<Longrightarrow> unpack_loop k p fin c = r
     \<Longrightarrow> (\<forall>e. r = Inl e \<longrightarrow> e = Undefined OutOfBounds) \<and> (\<forall>k' p' fin' c'. r = Inr (k', p', fin', c') \<longrightarrow> buffer_ok c')"
proof (induction k p fin c arbitrary: r rule: unpack_loop.induct)
  case (1 k p fin c)
  show ?case
  proof (cases "\<not> fin \<and> 0 < k")
    case False
    then show ?thesis using 1(2,3) by (auto simp: unpack_loop.simps [of k p fin c])
  next
    case True
    have step: "r = ebind (drop_parsed k c) (\<lambda>c. ebind (receive_data c) (\<lambda>(_, c).
           ebind (partial_unpack False p (cn_buf c) BUFFER_SIZE fin) (\<lambda>(k, p, fin). unpack_loop k p fin c)))"
      using 1(3) True by (subst (asm) unpack_loop.simps) simp
    show ?thesis
    proof (cases "drop_parsed k c")
      case (Inl e)
      then show ?thesis using step drop_parsed_ok(2) [OF 1(2) Inl] by simp
    next
      case c1: (Inr c1)
      obtain n c2 where c2: "receive_data c1 = Inr (n, c2)" "buffer_ok c2"
        using receive_data_buffer [OF drop_parsed_ok(1) [OF 1(2) c1]] by metis
      show ?thesis
      proof (cases "partial_unpack False p (cn_buf c2) BUFFER_SIZE fin")
        case (Inl e)
        then show ?thesis using step c1 c2(1) partial_unpack_fault [OF Inl] by simp
      next
        case (Inr x)
        then obtain k' p' fin' where x: "partial_unpack False p (cn_buf c2) BUFFER_SIZE fin = Inr (k', p', fin')"
          by (cases x) auto
        then have "unpack_loop k' p' fin' c2 = r" using step c1 c2(1) by simp
        then show ?thesis using 1(1) [OF True c1 c2(1) _ x] c2(2) by simp
      qed
    qed
  qed
qed

lemma conn_unpack_buffer:
  assumes "buffer_ok c"
  shows "conn_unpack p c = Inl e \<Longrightarrow> e = Undefined OutOfBounds"
    and "conn_unpack p c = Inr (ok, p', c') \<Longrightarrow> buffer_ok c'"
proof -
  note loop = unpack_loop_buffer [OF assms]
  show "conn_unpack p c = Inl e \<Longrightarrow> e = Undefined OutOfBounds"
    using loop by (fastforce simp: conn_unpack_def ebind_eq_Inl emap_eq_Inl dest: partial_unpack_fault drop_parsed_ok(2) [rotated])
  show "conn_unpack p c = Inr (ok, p', c') \<Longrightarrow> buffer_ok c'"
    using loop by (fastforce simp: conn_unpack_def ebind_eq_Inr emap_eq_Inr intro: drop_parsed_ok)
qed

text \<open>Handlers that leave the buffer as they should.\<close>

definition keeps_buffer :: "(packet \<Rightarrow> conn \<Rightarrow> 's \<Rightarrow> ('r \<times> conn \<times> 's) res) \<Rightarrow> bool" where
  "keeps_buffer h \<longleftrightarrow> (\<forall>p c s r c' s'. buffer_ok c \<longrightarrow> h p c s = Inr (r, c', s') \<longrightarrow> buffer_ok c')"

lemma parse_loop_buffer:
  assumes "parse_loop parse respond p c s = Some r" and "keeps_buffer parse" and "keeps_buffer respond"
    and "buffer_ok c" and "r = Inr (ok, c', s')"
  shows "buffer_ok c'"
  using assms
proof (induction parse respond p c s r rule: parse_loop.raw_induct [rotated, consumes 1, case_names step])
  case (step f parse respond p c s r)
  show ?case
  proof (cases "0 < cn_pos c")
    case False
    then show ?thesis using step(2,5,6) by simp
  next
    case pos: True
    from step(2,6) pos obtain ok1 p1 c1 where c1: "conn_unpack p c = Inr (ok1, p1, c1)"
      by (cases "conn_unpack p c") auto
    then have ok: "buffer_ok c1" by (rule conn_unpack_buffer(2) [OF step(5)])
    show ?thesis
    proof (cases ok1)
      case False
      then show ?thesis using step(2,6) pos c1 ok by simp
    next
      case True
      with step(2,6) pos c1 obtain q c2 s2 where c2: "parse p1 c1 s = Inr (q, c2, s2)"
        by (cases "parse p1 c1 s") auto
      then have ok2: "buffer_ok c2" using step(3) ok unfolding keeps_buffer_def by blast
      show ?thesis
      proof (cases "q = Response")
        case False
        then show ?thesis using step(2,6) pos c1 True c2 ok2 by (cases q) auto
      next
        case again: True
        with step(2,6) pos c1 True c2 obtain m c3 s3 where c3: "respond p1 c2 s2 = Inr (m, c3, s3)"
          by (cases "respond p1 c2 s2") auto
        then have "buffer_ok c3" using step(4) ok2 unfolding keeps_buffer_def by blast
        moreover have "f parse respond p1 c3 s3 = Some r" using step(2) pos c1 True c2 c3 again by simp
        ultimately show ?thesis using step(1,3,4,6) by blast
      qed
    qed
  qed
qed

text \<open>Those of all connections do: sending leaves the buffer alone, and so does cleaning up.\<close>

lemma send_packet_buffer: "send_packet p c = Inr (sent, c') \<Longrightarrow> buffer_ok c' \<longleftrightarrow> buffer_ok c"
proof -
  have "send_attempts packed as c = Inr (sent, c') \<Longrightarrow> buffer_ok c' \<longleftrightarrow> buffer_ok c" for packed as
  proof (induction packed as c rule: send_attempts.induct)
    case (2 packed st r as c)
    then show ?case by (auto simp: Let_def split: if_splits send_event.splits)
  qed simp
  then show "send_packet p c = Inr (sent, c') \<Longrightarrow> buffer_ok c' \<longleftrightarrow> buffer_ok c" unfolding send_packet_def .
qed

lemmas send_keeps = send_packet_buffer [THEN iffD2]

lemma base_parse_keeps: "base_parse_data p c = (r, c') \<Longrightarrow> buffer_ok c \<Longrightarrow> buffer_ok c'"
  using base_parse_data_buffer [of c p] by simp

lemma keeps_buffer_cts: "keeps_buffer cts_parse_data" "keeps_buffer cts_respond"
  by (auto simp: keeps_buffer_def cts_parse_data_def cts_respond_def split: if_splits prod.splits dest: base_parse_keeps)

lemma keeps_buffer_ctc: "keeps_buffer (ctc_parse_data i)" "keeps_buffer ctc_respond"
  by (auto simp: keeps_buffer_def ctc_parse_data_def ctc_parse_request_response_def ctc_update_keys_def ctc_respond_def
      ebind_eq_Inr emap_eq_Inr split: if_splits prod.splits option.splits dest: base_parse_keeps send_keeps)

lemma server_update_heap: "np_heap (server_update_and_alert a s) = np_heap s"
proof -
  have "np_heap (sweep server_on_clean_up kept is s) = np_heap s" for kept "is" and s :: server
    by (induction "is" arbitrary: kept s) (simp_all add: server_on_clean_up_def server_remove_client_def)
  then show ?thesis
    by (simp add: server_update_and_alert_def server_raise_def server_expect_def server_push_client_def clean_up_closed_def)
qed

lemma server_teardown_buffer:
  assumes "server_request_teardown s = Inr s'" and "buffer_ok (np_heap s i)"
  shows "buffer_ok (np_heap s' i)"
proof -
  let ?step = "\<lambda>i s. emap (\<lambda>c. np_write i c s) (send_teardown_request (np_heap s i))"
  obtain t where t: "efold ?step (np_conns s) s = Inr t" "np_heap s' = np_heap t"
    using assms(1) by (auto simp: server_request_teardown_def emap_eq_Inr)
  have "buffer_ok (np_heap t i)"
    by (rule efold_invariant [OF t(1), where I = "\<lambda>s. buffer_ok (np_heap s i)", OF assms(2)])
      (auto simp: emap_eq_Inr send_teardown_request_def split: if_splits dest: send_keeps)
  then show ?thesis by (simp add: t(2))
qed

lemma keeps_buffer_server: "keeps_buffer (server_parse_data i)" "keeps_buffer no_respond"
proof -
  have "buffer_ok c'" if "buffer_ok c" "server_parse_data i p c s = Inr (r, c', s')" for p c s r c' s'
  proof -
    have "buffer_ok (np_heap t i)" if "server_request_teardown (np_write i c s) = Inr t" for t
      using server_teardown_buffer [OF that, of i] \<open>buffer_ok c\<close> by simp
    then show ?thesis using that
      by (auto simp: server_parse_data_def Let_def server_update_heap ask_to_finish_def emap_eq_Inr
          split: if_splits prod.splits dest: base_parse_keeps)
  qed
  then show "keeps_buffer (server_parse_data i)" unfolding keeps_buffer_def by blast
  show "keeps_buffer no_respond" by (simp add: keeps_buffer_def no_respond_def)
qed

section \<open>Properties\<close>

text \<open>
  C12: The receive buffer keeps its bounds. On a connection whose write position is inside the buffer, receiving
  always succeeds, takes at most the bytes there is room for, puts them behind those already there, and leaves
  the position inside the buffer; unpacking and the whole of \<open>receive_and_parse\<close>, with the handlers of any of the
  connections, do so as well, whatever arrives, or else unpacking has left the buffer on the spot: no other
  failure is possible in it.
\<close>

theorem receive_buffer_bounds:
  assumes "buffer_ok c"
  shows "(\<exists>n c' bs. receive_data c = Inr (n, c') \<and> buffer_ok c' \<and> n \<le> int (BUFFER_SIZE - unat (cn_pos c)) \<and> length bs = nat n
        \<and> take (unat (cn_pos c')) (cn_buf c') = take (unat (cn_pos c)) (cn_buf c) @ bs)
    \<and> (\<forall>p e. conn_unpack p c = Inl e \<longrightarrow> e = Undefined OutOfBounds)
    \<and> (\<forall>p ok p' c'. conn_unpack p c = Inr (ok, p', c') \<longrightarrow> buffer_ok c')
    \<and> (\<forall>s ok c' s'. keeps_buffer parse \<and> keeps_buffer respond
          \<and> receive_and_parse parse respond c s = Some (Inr (ok, c', s')) \<longrightarrow> buffer_ok c')"
proof -
  obtain n c1 bs where recv: "receive_data c = Inr (n, c1)" "buffer_ok c1" "n \<le> int (BUFFER_SIZE - unat (cn_pos c))"
    "take (unat (cn_pos c1)) (cn_buf c1) = take (unat (cn_pos c)) (cn_buf c) @ bs" "length bs = nat n"
    by (rule receive_data_buffer [OF assms])
  have "buffer_ok c'" if "keeps_buffer parse" "keeps_buffer respond"
    "receive_and_parse parse respond c s = Some (Inr (ok, c', s'))" for s ok c' s'
    using that(3) recv(1,2) parse_loop_buffer [OF _ that(1,2) recv(2) refl]
    by (auto simp: receive_and_parse_def split: if_splits)
  then show ?thesis using recv conn_unpack_buffer [OF assms] by blast
qed

theorem receive_buffer_bounds_witness:
  "\<exists>n c'. receive_data (conn_new sockaddr_zero [Data (replicate 5000 1)] []) = Inr (n, c')
     \<and> n \<le> 4096 \<and> length (cn_buf c') = 4096 \<and> unat (cn_pos c') \<le> 4096
     \<and> (\<forall>s ok c'' s'. receive_and_parse cts_parse_data cts_respond c' s = Some (Inr (ok, c'', s')) \<longrightarrow> unat (cn_pos c'') \<le> 4096)"
proof -
  let ?c = "conn_new sockaddr_zero [Data (replicate 5000 1)] []"
  obtain n c' where recv: "receive_data ?c = Inr (n, c')" "buffer_ok c'" "n \<le> int (BUFFER_SIZE - unat (cn_pos ?c))"
    using receive_buffer_bounds [OF buffer_ok_new, of sockaddr_zero "[Data (replicate 5000 1)]" "[]"] by metis
  moreover have "cn_pos ?c = 0" by (simp add: conn_new_def)
  moreover have "buffer_ok c''" if "receive_and_parse cts_parse_data cts_respond c' s = Some (Inr (ok, c'', s'))" for s ok c'' s'
    using receive_buffer_bounds [OF recv(2), of cts_parse_data cts_respond] keeps_buffer_cts that by blast
  ultimately show ?thesis
    by (intro exI [of _ n] exI [of _ c']) (auto simp: buffer_ok_def BUFFER_SIZE_def)
qed

end
