(* ===== verification/Broadcast.thy ===== *)
theory Broadcast
  imports Server
begin

text \<open>
  How a change of the registry reaches the clients. The workers of the connections
  (\<open>ServerConnection::run\<close>) and the main loop of the server run concurrently; a state is the server
  with, for each worker, where it is and which list it sent last. The steps are the locked regions
  and the accesses to the atomics \<open>_passed_update\<close>, \<open>_expected_update\<close> and \<open>_new_update\<close>, in any
  order the two mutexes allow.
\<close>

section \<open>Workers\<close>

text \<open>
  Where a worker is: at the head of its loop, in the three later parts of \<open>update_and_alert\<close>, before it
  looks at \<open>_new_update\<close>, before \<open>get_clients\<close>, inside it with the last of the announcements
  counted, and after the end of its \<open>run\<close>.
\<close>

datatype worker = At_receive | At_clean_up | At_expect | At_raise | At_look | At_get | At_reset | Stopped

record bcast =
  bc_server :: server
  bc_sent :: "nat \<Rightarrow> sockaddr list"
  bc_at :: "nat \<Rightarrow> worker"

definition goes :: "nat \<Rightarrow> worker \<Rightarrow> (server \<Rightarrow> server) \<Rightarrow> bcast \<Rightarrow> bcast" where
  "goes i w f b = b\<lparr>bc_server := f (bc_server b), bc_at := (bc_at b)(i := w)\<rparr>"

text \<open>The counting part of \<open>get_clients\<close>; the packet it returns is then sent.\<close>

definition announces :: "nat \<Rightarrow> bcast \<Rightarrow> bcast" where
  "announces i b =
     (case server_count (bc_server b) of (final, s) \<Rightarrow>
        goes i (if final then At_reset else At_receive) (\<lambda>_. s)
          (b\<lparr>bc_sent := (bc_sent b)(i := parse_addrs (pk_value (server_clients_packet (bc_server b))) 0)\<rparr>))"

text \<open>\<open>_client_mutex\<close> is held until the reset, \<open>_connections_mutex\<close> between the two atomics.\<close>

definition clients_free :: "bcast \<Rightarrow> bool" where
  "clients_free b \<longleftrightarrow> (\<forall>i. bc_at b i \<noteq> At_reset)"

definition conns_free :: "bcast \<Rightarrow> bool" where
  "conns_free b \<longleftrightarrow> (\<forall>i. bc_at b i \<noteq> At_raise)"

text \<open>A clean-up joins the finished workers and, if there are any, changes the registry.\<close>

definition may_clean_up :: "bcast \<Rightarrow> bool" where
  "may_clean_up b \<longleftrightarrow> conns_free b \<and> (closed_conns (bc_server b) = [] \<or> clients_free b)
     \<and> (\<forall>i\<in>set (closed_conns (bc_server b)). bc_at b i = Stopped)"

definition takes_address :: "nat \<Rightarrow> sockaddr \<Rightarrow> server \<Rightarrow> server" where
  "takes_address i a s = server_push_client a (np_write i ((np_heap s i)\<lparr>cn_other := a\<rparr>) s)"

text \<open>
  Steps of worker \<open>i\<close>, then those of the main loop. What is left of \<open>run\<close> after its loop, which a
  finished connection or a failed send ends, is one step.
\<close>

inductive wstep :: "nat \<Rightarrow> bcast \<Rightarrow> bcast \<Rightarrow> bool" for i where
  register: "bc_at b i = At_receive \<Longrightarrow> clients_free b \<Longrightarrow> sockaddr_wf a
    \<Longrightarrow> wstep i b (goes i At_clean_up (takes_address i a) b)"
| clean_up: "bc_at b i = At_clean_up \<Longrightarrow> may_clean_up b
    \<Longrightarrow> wstep i b (goes i At_expect (clean_up_closed server_on_clean_up) b)"
| expect: "bc_at b i = At_expect \<Longrightarrow> conns_free b \<Longrightarrow> wstep i b (goes i At_raise server_expect b)"
| raise: "bc_at b i = At_raise \<Longrightarrow> wstep i b (goes i At_look server_raise b)"
| deregister: "bc_at b i = At_receive \<Longrightarrow> clients_free b
    \<Longrightarrow> wstep i b (goes i At_look (server_remove_client a) b)"
| shutdown: "bc_at b i = At_receive
    \<Longrightarrow> wstep i b (goes i At_look (\<lambda>s. np_write i (ask_to_finish (np_heap s i)) s) b)"
| receive: "bc_at b i = At_receive \<Longrightarrow> wstep i b (goes i At_look id b)"
| look_up: "bc_at b i = At_look \<Longrightarrow> srv_new_update (bc_server b) \<Longrightarrow> wstep i b (goes i At_get id b)"
| look_down: "bc_at b i = At_look \<Longrightarrow> \<not> srv_new_update (bc_server b) \<Longrightarrow> wstep i b (goes i At_receive id b)"
| get: "bc_at b i = At_get \<Longrightarrow> clients_free b \<Longrightarrow> wstep i b (announces i b)"
| reset: "bc_at b i = At_reset \<Longrightarrow> wstep i b (goes i At_receive server_reset b)"
| stop: "bc_at b i = At_receive \<Longrightarrow> cn_finished (np_heap (bc_server b) i) \<Longrightarrow> wstep i b (goes i Stopped id b)"
| send_failed: "bc_at b i = At_receive
    \<Longrightarrow> wstep i b (goes i Stopped (\<lambda>s. np_write i (ask_to_finish (np_heap s i)) s) b)"

inductive bstep :: "bcast \<Rightarrow> bcast \<Rightarrow> bool" where
  worker: "i \<in> set (np_conns (bc_server b)) \<Longrightarrow> wstep i b b' \<Longrightarrow> bstep b b'"
| accept: "conns_free b
    \<Longrightarrow> bstep b (goes (np_next (bc_server b)) At_receive (np_add_conn (conn_new a ins sends)) b)"
| main_clean_up: "may_clean_up b
    \<Longrightarrow> bstep b (b\<lparr>bc_server := clean_up_closed server_on_clean_up (bc_server b)\<rparr>)"

lemmas steps_one = r_into_rtranclp [of bstep]
lemmas steps_trans = converse_rtranclp_into_rtranclp [of bstep]

inductive_cases wstepE: "wstep i b b'"
inductive_cases bstepE: "bstep b b'"

text \<open>A server as its constructor leaves it.\<close>

definition bcast_new :: "server \<Rightarrow> bcast" where
  "bcast_new s = \<lparr>bc_server = s, bc_sent = (\<lambda>_. []), bc_at = (\<lambda>_. At_receive)\<rparr>"

lemma goes_fields [simp]:
  "bc_server (goes i w f b) = f (bc_server b)" "bc_at (goes i w f b) = (bc_at b)(i := w)"
  "bc_sent (goes i w f b) = bc_sent b"
  by (simp_all add: goes_def)

section \<open>Invariants\<close>

text \<open>Well-formed addresses and connections, and mutual exclusion for both mutexes.\<close>

definition exclusive :: "bcast \<Rightarrow> worker \<Rightarrow> bool" where
  "exclusive b w \<longleftrightarrow> (\<forall>i j. bc_at b i = w \<longrightarrow> bc_at b j = w \<longrightarrow> i = j)"

definition bcast_inv :: "bcast \<Rightarrow> bool" where
  "bcast_inv b \<longleftrightarrow> server_wf (bc_server b) \<and> exclusive b At_reset \<and> exclusive b At_raise"

lemma server_wf_steps:
  assumes "server_wf s"
  shows "sockaddr_wf a \<Longrightarrow> server_wf (takes_address i a s)" and "server_wf (server_expect s)"
    and "server_wf (server_raise s)" and "server_wf (server_reset s)" and "server_wf (snd (server_count s))"
  using assms by (auto simp: server_wf_def np_wf_def takes_address_def server_push_client_def np_write_def
      server_expect_def server_raise_def server_reset_def server_count_def Let_def)

lemma wstep_inv:
  assumes "wstep i b b'" and "bcast_inv b"
  shows "bcast_inv b'"
proof -
  have wf: "server_wf (bc_server b)" using assms(2) by (simp add: bcast_inv_def)
  have "server_wf (bc_server b')"
    using assms(1) wf
    by cases (auto simp: announces_def server_wf_steps server_wf_ops server_wf_conn_ops
        dest: server_wf_steps(5) split: prod.split)
  moreover have "exclusive b' At_reset \<and> exclusive b' At_raise"
    using assms(1)
  proof cases
    case get
    then show ?thesis using assms(2)
      by (auto simp: bcast_inv_def exclusive_def clients_free_def announces_def split: prod.split)
  qed (use assms(2) in \<open>auto simp: bcast_inv_def exclusive_def conns_free_def\<close>)
  ultimately show ?thesis by (simp add: bcast_inv_def)
qed

lemma bstep_inv: "bstep b b' \<Longrightarrow> bcast_inv b \<Longrightarrow> bcast_inv b'"
proof (induction rule: bstep.induct)
  case (worker i b b')
  then show ?case using wstep_inv by blast
next
  case (accept b a ins sends)
  then show ?case by (auto simp: bcast_inv_def exclusive_def server_wf_conn_ops)
next
  case (main_clean_up b)
  then show ?case by (auto simp: bcast_inv_def exclusive_def server_wf_conn_ops)
qed

lemma bsteps_inv: "bstep\<^sup>*\<^sup>* b b' \<Longrightarrow> bcast_inv b \<Longrightarrow> bcast_inv b'"
  by (induction rule: rtranclp_induct) (auto intro: bstep_inv)



section \<open>Turns\<close>

text \<open>
  A worker at the head of its loop that receives nothing of interest, finds an update, announces it
  and is back at the head of its loop.
\<close>

definition turn :: "nat \<Rightarrow> bcast \<Rightarrow> bcast" where
  "turn i b = (let b' = announces i b in if bc_at b' i = At_reset then goes i At_receive server_reset b' else b')"

lemma turn_eq:
  assumes "server_wf (bc_server b)" and "bc_at b i = At_receive"
  shows "turn i b = b\<lparr>bc_server :=
       (if srv_expected (bc_server b) \<le> srv_passed (bc_server b) + 1
        then (bc_server b)\<lparr>srv_passed := 0, srv_new_update := False\<rparr>
        else (bc_server b)\<lparr>srv_passed := srv_passed (bc_server b) + 1\<rparr>),
     bc_sent := (bc_sent b)(i := srv_clients (bc_server b))\<rparr>"
proof -
  have "(bc_at b)(i := At_receive) = bc_at b" using assms(2) by auto
  moreover have "parse_addrs (pk_value (server_clients_packet (bc_server b))) 0 = srv_clients (bc_server b)"
    using server_get_clients_list [OF assms(1)] by (simp add: server_get_clients_def)
  ultimately show ?thesis
    by (simp add: turn_def announces_def goes_def server_count_def server_reset_def Let_def)
qed

lemma turn_steps:
  assumes "i \<in> set (np_conns (bc_server b))" and "bc_at b i = At_receive"
    and "srv_new_update (bc_server b)" and "clients_free b"
  shows "bstep\<^sup>*\<^sup>* b (turn i b)"
proof -
  let ?b1 = "goes i At_look id b" and ?b2 = "goes i At_get id b"
  have "bstep b ?b1" using worker [OF assms(1) receive] assms(2) by simp
  moreover have "bstep ?b1 (goes i At_get id ?b1)" using worker [of i ?b1] look_up [of ?b1 i] assms(1,3) by simp
  then have "bstep ?b1 ?b2" by (simp add: goes_def)
  moreover have "bstep ?b2 (announces i ?b2)"
    using worker [of i ?b2] get [of ?b2 i] assms(1,4) by (auto simp: clients_free_def)
  then have "bstep ?b2 (announces i b)" by (simp add: announces_def goes_def split: prod.split)
  ultimately have *: "bstep\<^sup>*\<^sup>* b (announces i b)" by (intro steps_trans [OF _ steps_trans [OF _ steps_one]])
  show ?thesis
  proof (cases "bc_at (announces i b) i = At_reset")
    case True
    have "np_conns (bc_server (announces i b)) = np_conns (bc_server b)"
      by (simp add: announces_def server_count_def Let_def)
    then have "bstep (announces i b) (turn i b)"
      using True worker [of i "announces i b"] reset [of "announces i b" i] assms(1) by (simp add: turn_def)
    with * show ?thesis by (rule rtranclp.rtrancl_into_rtrancl)
  qed (use * in \<open>simp add: turn_def\<close>)
qed

text \<open>
  Until the count reaches the expected number the flag stays up; the announcement that
  reaches it takes the flag down, whichever workers the announcements came from.
\<close>

lemma turns:
  assumes "server_wf (bc_server b)" and "srv_new_update (bc_server b)" and "clients_free b"
    and "srv_passed (bc_server b) + length is < srv_expected (bc_server b)"
    and "\<forall>i\<in>set is. i \<in> set (np_conns (bc_server b)) \<and> bc_at b i = At_receive"
  shows "fold turn is b = b\<lparr>bc_server := (bc_server b)\<lparr>srv_passed := srv_passed (bc_server b) + length is\<rparr>,
       bc_sent := (\<lambda>i. if i \<in> set is then srv_clients (bc_server b) else bc_sent b i)\<rparr>
     \<and> bstep\<^sup>*\<^sup>* b (fold turn is b)"
  using assms
proof (induction "is" arbitrary: b)
  case (Cons i "is")
  let ?s = "bc_server b"
  let ?b = "b\<lparr>bc_server := ?s\<lparr>srv_passed := srv_passed ?s + 1\<rparr>, bc_sent := (bc_sent b)(i := srv_clients ?s)\<rparr>"
  have eq: "turn i b = ?b" using turn_eq [of b i] Cons.prems by simp
  have "server_wf (bc_server ?b)" using Cons.prems(1) by (simp add: server_wf_def np_wf_def)
  then have IH: "fold turn is ?b = ?b\<lparr>bc_server := (bc_server ?b)\<lparr>srv_passed := srv_passed (bc_server ?b) + length is\<rparr>,
       bc_sent := (\<lambda>i. if i \<in> set is then srv_clients (bc_server ?b) else bc_sent ?b i)\<rparr>
     \<and> bstep\<^sup>*\<^sup>* ?b (fold turn is ?b)"
    using Cons.prems by (intro Cons.IH) (simp_all add: clients_free_def)
  have "bstep\<^sup>*\<^sup>* b ?b" using turn_steps [of i b] Cons.prems eq by simp
  with IH have "bstep\<^sup>*\<^sup>* b (fold turn is ?b)" by (meson rtranclp_trans)
  then show ?case using IH eq by (auto simp: fun_eq_iff)
qed simp

lemma turns_done:
  assumes "server_wf (bc_server b)" and "srv_new_update (bc_server b)" and "clients_free b"
    and "srv_passed (bc_server b) + length is = srv_expected (bc_server b)" and "is \<noteq> []"
    and "\<forall>i\<in>set is. i \<in> set (np_conns (bc_server b)) \<and> bc_at b i = At_receive"
  shows "fold turn is b = b\<lparr>bc_server := (bc_server b)\<lparr>srv_passed := 0, srv_new_update := False\<rparr>,
       bc_sent := (\<lambda>i. if i \<in> set is then srv_clients (bc_server b) else bc_sent b i)\<rparr>"
    and "bstep\<^sup>*\<^sup>* b (fold turn is b)"
proof -
  let ?s = "bc_server b"
  obtain js i where "is": "is = js @ [i]" using assms(5) by (metis rev_exhaust)
  let ?b = "b\<lparr>bc_server := ?s\<lparr>srv_passed := srv_passed ?s + length js\<rparr>,
     bc_sent := (\<lambda>i. if i \<in> set js then srv_clients ?s else bc_sent b i)\<rparr>"
  have js: "fold turn js b = ?b" "bstep\<^sup>*\<^sup>* b ?b"
    using turns [OF assms(1-3), of js] assms(4,6) "is" by auto
  have "server_wf (bc_server ?b)" using assms(1) by (simp add: server_wf_def np_wf_def)
  then show "fold turn is b = b\<lparr>bc_server := ?s\<lparr>srv_passed := 0, srv_new_update := False\<rparr>,
       bc_sent := (\<lambda>i. if i \<in> set is then srv_clients ?s else bc_sent b i)\<rparr>"
    using turn_eq [of ?b i] assms(4,6) "is" js(1) by (auto simp: fun_eq_iff)
  have "bstep\<^sup>*\<^sup>* ?b (turn i ?b)"
    using turn_steps [of i ?b] assms(2,3,6) "is" by (simp add: clients_free_def)
  then show "bstep\<^sup>*\<^sup>* b (fold turn is b)" using js "is" by simp
qed

section \<open>Fair and unfair rounds\<close>



text \<open>
  Nothing ties an announcement to the connection it came from: one worker can use up the whole count,
  and the update is over although no other worker has sent it.
\<close>

lemma unfair_round:
  assumes "server_wf (bc_server b)" and "srv_new_update (bc_server b)" and "srv_passed (bc_server b) = 0"
    and "srv_expected (bc_server b) = length (np_conns (bc_server b))" and "clients_free b"
    and "i \<in> set (np_conns (bc_server b))" and "bc_at b i = At_receive"
  shows "\<exists>b'. bstep\<^sup>*\<^sup>* b b' \<and> \<not> srv_new_update (bc_server b') \<and> bc_at b' = bc_at b
    \<and> np_conns (bc_server b') = np_conns (bc_server b) \<and> srv_clients (bc_server b') = srv_clients (bc_server b)
    \<and> (\<forall>j. j \<noteq> i \<longrightarrow> bc_sent b' j = bc_sent b j)"
proof -
  let ?is = "replicate (length (np_conns (bc_server b))) i"
  have "np_conns (bc_server b) \<noteq> []" using assms(6) by auto
  then have "bstep\<^sup>*\<^sup>* b (fold turn ?is b)"
    "fold turn ?is b = b\<lparr>bc_server := (bc_server b)\<lparr>srv_passed := 0, srv_new_update := False\<rparr>,
       bc_sent := (\<lambda>k. if k \<in> set ?is then srv_clients (bc_server b) else bc_sent b k)\<rparr>"
    using turns_done [OF assms(1,2,5), of ?is] assms by auto
  then show ?thesis by (intro exI [of _ "fold turn ?is b"]) auto
qed

section \<open>A lost update\<close>

text \<open>What the parts of a registration and of an announcement change, when no connection has finished.\<close>

lemma takes_address_fields:
  "np_conns (takes_address k a s) = np_conns s" "closed_conns (takes_address k a s) = closed_conns s"
  "srv_clients (takes_address k a s) = srv_clients s @ [a]"
  "srv_expected (takes_address k a s) = srv_expected s" "srv_passed (takes_address k a s) = srv_passed s"
  by (auto simp: takes_address_def server_push_client_def np_write_def closed_conns_def intro!: filter_cong)

lemma nothing_to_clean_up:
  assumes "closed_conns s = []"
  shows "clean_up_closed server_on_clean_up s = s"
proof -
  have "open_conns s = np_conns s"
    using assms by (auto simp: closed_conns_def open_conns_def filter_empty_conv filter_id_conv)
  then show ?thesis using assms by (simp add: server_clean_up.clean_up_closed_eq)
qed

text \<open>
  C35: An update can be lost: if a client registers while the last announcement of an earlier update is
  going on, the server can get into a state in which the new client is in the registry and no
  update is pending, but no other worker has sent a list with it.
\<close>

theorem update_lost:
  assumes "server_wf (bc_server b)" and "srv_new_update (bc_server b)"
    and "srv_expected (bc_server b) \<le> srv_passed (bc_server b) + 1" and "closed_conns (bc_server b) = []"
    and "i \<in> set (np_conns (bc_server b))" and "k \<in> set (np_conns (bc_server b))" and "i \<noteq> k"
    and "bc_at b i = At_look" and "bc_at b k = At_receive" and "sockaddr_wf a" and "clients_free b" and "conns_free b"
  shows "\<exists>b'. bstep\<^sup>*\<^sup>* b b' \<and> srv_clients (bc_server b') = srv_clients (bc_server b) @ [a]
    \<and> \<not> srv_new_update (bc_server b') \<and> np_conns (bc_server b') = np_conns (bc_server b)
    \<and> clients_free b' \<and> conns_free b' \<and> (\<forall>j. j \<noteq> i \<longrightarrow> bc_sent b' j = bc_sent b j)"
proof -
  let ?s = "bc_server b"
  let ?b1 = "goes i At_get id b"
  let ?b2 = "goes k At_clean_up (takes_address k a) ?b1"
  let ?b3 = "announces i ?b2"
  let ?b4 = "goes k At_expect (clean_up_closed server_on_clean_up) ?b3"
  let ?b5 = "goes k At_raise server_expect ?b4"
  let ?b6 = "goes k At_look server_raise ?b5"
  let ?b7 = "goes i At_receive server_reset ?b6"
  note free = clients_free_def conns_free_def
  have b3: "bc_server ?b3 = (takes_address k a ?s)\<lparr>srv_passed := srv_passed ?s + 1\<rparr>"
    "bc_at ?b3 = (bc_at b)(k := At_clean_up, i := At_reset)" "\<forall>j. j \<noteq> i \<longrightarrow> bc_sent ?b3 j = bc_sent b j"
    using assms(3,7) by (auto simp: announces_def server_count_def takes_address_fields Let_def)
  have closed: "closed_conns (bc_server ?b3) = []" and conns: "np_conns (bc_server ?b3) = np_conns ?s"
    using assms(4) takes_address_fields [of k a ?s]
    by (auto simp: b3(1) closed_conns_def)
  have b4: "bc_server ?b4 = bc_server ?b3" using nothing_to_clean_up [OF closed] by simp
  have "bstep b ?b1" using worker [OF assms(5) look_up] assms(2,8) by simp
  moreover have "bstep ?b1 ?b2"
    using assms by (intro worker [of k] register) (auto simp: free)
  moreover have "bstep ?b2 ?b3"
    using assms by (intro worker [of i] get) (auto simp: free takes_address_fields)
  moreover have "bstep ?b3 ?b4"
    using assms closed conns b3(2) by (intro worker [of k] clean_up) (auto simp: free may_clean_up_def)
  moreover have "bstep ?b4 ?b5"
    using assms conns b3(2) b4 by (intro worker [of k] expect) (auto simp: free)
  moreover have "bstep ?b5 ?b6"
    using assms conns b3(2) b4 by (intro worker [of k] raise) (simp_all add: server_expect_def)
  moreover have "bstep ?b6 ?b7"
    using assms conns b3(2) b4 by (intro worker [of i] reset) (simp_all add: server_expect_def server_raise_def)
  ultimately have "bstep\<^sup>*\<^sup>* b ?b7"
    by (intro steps_trans [OF _ steps_trans [OF _ steps_trans [OF _ steps_trans [OF _ steps_trans [OF _
        steps_trans [OF _ steps_one]]]]]])
  moreover have "srv_clients (bc_server ?b7) = srv_clients ?s @ [a]" "\<not> srv_new_update (bc_server ?b7)"
    "np_conns (bc_server ?b7) = np_conns ?s"
    using b3(1) b4 by (simp_all add: server_expect_def server_raise_def server_reset_def takes_address_fields)
  moreover have "clients_free ?b7" "conns_free ?b7" "\<forall>j. j \<noteq> i \<longrightarrow> bc_sent ?b7 j = bc_sent b j"
    using b3(2,3) assms(7,11,12) by (auto simp: free)
  ultimately show ?thesis by blast
qed

theorem update_lost_witness:
  "\<exists>b b'. srv_new_update (bc_server b) \<and> bstep\<^sup>*\<^sup>* b b' \<and> srv_clients (bc_server b') = [sockaddr_zero]
     \<and> \<not> srv_new_update (bc_server b') \<and> np_conns (bc_server b') = [0, 1] \<and> bc_sent b' 1 = []"
proof -
  let ?b = "goes 0 At_look (srv_expected_update (\<lambda>_. 1)) (bcast_new sample_server)"
  have "server_wf (bc_server ?b)" "closed_conns (bc_server ?b) = []"
    using sample_server_wf by (simp_all add: server_wf_def np_wf_def bcast_new_def closed_conns_def conn_new_def)
  moreover have "clients_free ?b" "conns_free ?b" "sockaddr_wf sockaddr_zero"
    by (simp_all add: bcast_new_def clients_free_def conns_free_def sockaddr_wf_def sockaddr_zero_def)
  ultimately obtain b' where "bstep\<^sup>*\<^sup>* ?b b' \<and> srv_clients (bc_server b') = [sockaddr_zero]
     \<and> \<not> srv_new_update (bc_server b') \<and> np_conns (bc_server b') = [0, 1] \<and> bc_sent b' 1 = []"
    using update_lost [of ?b 0 1 sockaddr_zero] by (auto simp: bcast_new_def)
  moreover have "srv_new_update (bc_server ?b)" by (simp add: bcast_new_def)
  ultimately show ?thesis by blast
qed

end
