(* ===== verification/SharedRower.thy ===== *)
theory SharedRower
  imports Rower "HOL-Library.Multiset"
begin

text \<open>
  \<open>pmap\<close> with rowers whose clones share what they write, as those of
  \<open>src/util/linus_rowers.cpp\<close> do: each thread goes through its rows in order, and the locked
  updates of the threads interleave in any way.
\<close>

section \<open>Interleavings\<close>

inductive interleave :: "'a list list \<Rightarrow> 'a list \<Rightarrow> bool" where
  interleave_done: "\<forall>xs\<in>set xss. xs = [] \<Longrightarrow> interleave xss []"
| interleave_step: "i < length xss \<Longrightarrow> xss ! i = x # xs \<Longrightarrow> interleave (xss[i := xs]) ys \<Longrightarrow> interleave xss (x # ys)"

inductive_cases interleave_NilE: "interleave xss []"
inductive_cases interleave_ConsE: "interleave xss (x # ys)"

lemma mset_concat_update:
  assumes "i < length xss" and "xss ! i = x # xs"
  shows "mset (concat xss) = add_mset x (mset (concat (xss[i := xs])))"
proof -
  have "xss = take i xss @ (x # xs) # drop (Suc i) xss"
    using assms id_take_nth_drop [of i xss] by simp
  moreover have "xss[i := xs] = take i xss @ xs # drop (Suc i) xss"
    using assms(1) by (simp add: upd_conv_take_nth_drop)
  ultimately show ?thesis by (metis (no_types, lifting) append_Cons concat.simps(2) concat_append
      mset.simps(2) mset_append union_mset_add_mset_right)
qed

text \<open>No update is lost or repeated: an interleaving is a permutation of all of them.\<close>

lemma interleave_mset: "interleave xss ys \<Longrightarrow> mset ys = mset (concat xss)"
proof (induction rule: interleave.induct)
  case (interleave_done xss)
  then have "concat xss = []" by simp
  then show ?case by simp
next
  case (interleave_step i xss x xs ys)
  then show ?case using mset_concat_update [of i xss x xs] by simp
qed

lemma interleave_one: "interleave [xs] xs"
  by (induction xs) (auto intro: interleave_done interleave_step [of 0])

text \<open>The threads one after the other are one of the possible orders.\<close>

lemma interleave_sequential: "interleave xss (concat xss)"
proof (induction xss)
  case Nil
  show ?case by (simp add: interleave_done)
next
  case (Cons xs xss)
  have skip: "interleave ([] # yss) ys" if "interleave yss ys" for yss :: "'a list list" and ys
    using that
  proof (induction rule: interleave.induct)
    case (interleave_step i xss x xs ys)
    then show ?case by (intro interleave.interleave_step [of "Suc i"]) simp_all
  qed (simp add: interleave_done)
  show ?case
  proof (induction xs)
    case (Cons x xs)
    then show ?case by (auto intro: interleave_step [of 0])
  qed (simp add: skip Cons.IH)
qed

section \<open>\<open>pmap\<close> over shared state\<close>

text \<open>The rows of each thread; a frame that is not split is gone through by one thread.\<close>

definition thread_rows :: "dataframe \<Rightarrow> nat list list res" where
  "thread_rows df =
     (let row_cnt = df_nrows df; cnt = row_cnt div THREAD_ROWS in
      if cnt \<le> 1 then Inr [[0..<row_cnt]]
      else emap (map (\<lambda>(a, b). [a..<b]))
        (thread_bounds (if cnt > MAX_THREADS then MAX_THREADS else cnt)
          (if cnt > MAX_THREADS then row_cnt div MAX_THREADS else THREAD_ROWS) row_cnt))"

text \<open>What a thread does with its rows: the updates that \<open>accept\<close> makes of each of them.\<close>

definition thread_updates :: "dataframe \<Rightarrow> (row \<Rightarrow> 'a list res) \<Rightarrow> nat list \<Rightarrow> 'a list res" where
  "thread_updates df updates is =
     emap concat (emapM (\<lambda>i. ebind (row_of_schema (df_schema df)) (\<lambda>row.
        ebind (df_fill_row df i row) updates)) is)"

inductive pmap_shared :: "dataframe \<Rightarrow> (row \<Rightarrow> 'a list res) \<Rightarrow> ('a \<Rightarrow> 's \<Rightarrow> 's res) \<Rightarrow> 's \<Rightarrow> 's res \<Rightarrow> bool"
  for df updates apply_update s where
  pmap_fault: "ebind (thread_rows df) (emapM (thread_updates df updates)) = Inl e
     \<Longrightarrow> pmap_shared df updates apply_update s (Inl e)"
| pmap_threads: "ebind (thread_rows df) (emapM (thread_updates df updates)) = Inr progs \<Longrightarrow> interleave progs ys
     \<Longrightarrow> pmap_shared df updates apply_update s (efold apply_update ys s)"

inductive_cases pmap_sharedE: "pmap_shared df updates apply_update s r"

lemma thread_rows_cover:
  obtains runs where "thread_rows df = Inr runs" and "concat runs = [0..<df_nrows df]"
proof (cases "df_nrows df div THREAD_ROWS \<le> 1")
  case True
  then show thesis by (intro that [of "[[0..<df_nrows df]]"]) (simp_all add: thread_rows_def)
next
  case False
  let ?cnt = "df_nrows df div THREAD_ROWS"
  define n where "n = (if ?cnt > MAX_THREADS then MAX_THREADS else ?cnt)"
  define step where "step = (if ?cnt > MAX_THREADS then df_nrows df div MAX_THREADS else THREAD_ROWS)"
  have n: "0 < n" using False by (simp add: n_def MAX_THREADS_def)
  have "(n - 1) * step \<le> n * step" by simp
  also have "n * step \<le> df_nrows df" by (simp add: n_def step_def)
  finally obtain bounds where "thread_bounds n step (df_nrows df) = Inr bounds"
    "concat (map (\<lambda>(a, b). [a..<b]) bounds) = [0..<df_nrows df]"
    using thread_bounds_cover [OF n] by metis
  then show thesis
    using False by (intro that [of "map (\<lambda>(a, b). [a..<b]) bounds"])
      (simp_all add: thread_rows_def Let_def n_def step_def)
qed

lemma thread_updates_total:
  assumes rect: "df_rect df" and "\<forall>i\<in>set is. i < df_nrows df"
    and updates: "\<And>i. i < df_nrows df \<Longrightarrow> updates (frame_row df i) = Inr (g (df_row_cells df i))"
  shows "thread_updates df updates is = Inr (concat (map (\<lambda>i. g (df_row_cells df i)) is))"
proof -
  obtain row where row: "row_of_schema (df_schema df) = Inr row" "row_fits df row"
    using rect row_of_schema_fits by (auto simp: df_rect_def)
  have "emapM (\<lambda>i. ebind (row_of_schema (df_schema df)) (\<lambda>row. ebind (df_fill_row df i row) updates)) is =
      Inr (map (\<lambda>i. g (df_row_cells df i)) is)"
  proof (rule emapM_total)
    fix i
    assume "i \<in> set is"
    then have "i < df_nrows df" using assms(2) by blast
    then show "ebind (row_of_schema (df_schema df)) (\<lambda>row. ebind (df_fill_row df i row) updates) =
        Inr (g (df_row_cells df i))"
      using row fill_frame_row [OF rect row(2)] updates by simp
  qed
  then show ?thesis by (simp add: thread_updates_def)
qed

text \<open>
  The updates of a parallel run are those of a serial run over the rows, in some order.
\<close>

lemma thread_programs:
  assumes rect: "df_rect df"
    and updates: "\<And>i. i < df_nrows df \<Longrightarrow> updates (frame_row df i) = Inr (g (df_row_cells df i))"
  obtains progs where "ebind (thread_rows df) (emapM (thread_updates df updates)) = Inr progs"
    and "concat progs = concat (map g (df_rows df))" and "thread_rows df = Inr runs \<Longrightarrow> length progs = length runs"
proof -
  obtain runs' where runs: "thread_rows df = Inr runs'" "concat runs' = [0..<df_nrows df]"
    by (rule thread_rows_cover)
  let ?u = "\<lambda>is. concat (map (\<lambda>i. g (df_row_cells df i)) is)"
  have "emapM (thread_updates df updates) runs' = Inr (map ?u runs')"
  proof (rule emapM_total)
    fix "is"
    assume "is \<in> set runs'"
    then have "\<forall>i\<in>set is. i < df_nrows df" using arg_cong [OF runs(2), of set] by auto
    then show "thread_updates df updates is = Inr (?u is)"
      using thread_updates_total [of df "is" updates g] rect updates by simp
  qed
  then have progs: "ebind (thread_rows df) (emapM (thread_updates df updates)) = Inr (map ?u runs')"
    by (simp add: runs(1))
  have "concat (map ?u runs') = ?u (concat runs')" by (induction runs') simp_all
  also have "\<dots> = concat (map g (df_rows df))" by (simp add: runs(2) df_rows_def comp_def)
  finally show thesis using that [OF progs] runs(1) by simp
qed

lemma pmap_shared_updates:
  assumes rect: "df_rect df" and run: "pmap_shared df updates apply_update s r"
    and updates: "\<And>i. i < df_nrows df \<Longrightarrow> updates (frame_row df i) = Inr (g (df_row_cells df i))"
  obtains ys where "r = efold apply_update ys s" and "mset ys = mset (concat (map g (df_rows df)))"
proof -
  obtain progs where progs: "ebind (thread_rows df) (emapM (thread_updates df updates)) = Inr progs"
    and all: "concat progs = concat (map g (df_rows df))"
    using thread_programs [where updates = updates and g = g, OF rect updates] by blast
  from run show thesis
  proof (cases rule: pmap_shared.cases)
    case (pmap_threads progs' ys)
    then show thesis using that interleave_mset [of progs ys] progs all by simp
  qed (use progs in simp)
qed

text \<open>Some schedule exists: a fault of a thread, or the threads one after the other.\<close>

lemma pmap_shared_exists: "\<exists>r. pmap_shared df updates apply_update s r"
  by (cases "ebind (thread_rows df) (emapM (thread_updates df updates))")
    (auto intro: pmap_fault pmap_threads interleave_sequential)

section \<open>Properties\<close>

text \<open>
  C39: When the updates of a shared rower cannot fail and commute, a parallel run has exactly one
  outcome, whatever the schedule of the threads: the updates of all rows, one after the other.
\<close>

theorem shared_pmap_confluent:
  assumes rect: "df_rect df"
    and updates: "\<And>i. i < df_nrows df \<Longrightarrow> updates (frame_row df i) = Inr (g (df_row_cells df i))"
    and total: "\<And>x s. apply_update x s = Inr (f x s)"
    and commute: "\<And>x y s. f x (f y s) = f y (f x s)"
  shows "pmap_shared df updates apply_update s r \<longleftrightarrow> r = Inr (fold f (concat (map g (df_rows df))) s)"
proof -
  have run: "efold apply_update ys s = Inr (fold f ys s)" for ys
    using total by (intro efold_total) simp
  have order: "fold f ys = fold f zs" if "mset ys = mset zs" for ys zs
    using that commute by (intro fold_multiset_equiv) (auto simp: fun_eq_iff)
  have only: "r' = Inr (fold f (concat (map g (df_rows df))) s)"
    if "pmap_shared df updates apply_update s r'" for r'
    using pmap_shared_updates [OF rect that updates] run order by metis
  moreover obtain r' where "pmap_shared df updates apply_update s r'"
    using pmap_shared_exists [of df updates apply_update s] by auto
  ultimately show ?thesis by blast
qed

theorem shared_pmap_confluent_witness:
  "pmap_shared sample_frame (\<lambda>row. Inr (row_values row)) (\<lambda>x n. Inr (Suc n)) 0 (Inr 2)
   \<and> \<not> pmap_shared sample_frame (\<lambda>row. Inr (row_values row)) (\<lambda>x n. Inr (Suc n)) 0 (Inr 1)"
  using shared_pmap_confluent [OF sample_frame(2), of "\<lambda>row. Inr (row_values row)" "\<lambda>xs. xs" "\<lambda>x n. Inr (Suc n)" "\<lambda>_. Suc" 0]
  by (simp add: frame_row_def sample_frame(4))

end
