(* ===== verification/Linus.thy ===== *)
theory Linus
  imports SharedRower KVStore FrameOps
begin

text \<open>
  \<open>include/util/linus_rowers.h\<close>, \<open>src/util/linus_rowers.cpp\<close> and the computation of
  \<open>src/util/linus.cpp\<close>: which users are how many commits away from one user. The filters write
  into a frame their clones share, so a run of \<open>pmap\<close> is a relation (theory \<open>SharedRower\<close>).
\<close>

section \<open>\<open>IntSetGenerator\<close>\<close>

text \<open>\<open>*row.get_int(c)\<close>: a missing value is dereferenced.\<close>

definition deref_int :: "row \<Rightarrow> nat \<Rightarrow> i32 res" where
  "deref_int r c =
     ebind (row_get_int r c) (\<lambda>v. case v of Some i \<Rightarrow> Inr i | None \<Rightarrow> Inl (Undefined NulloptDeref))"

definition deref_string :: "row \<Rightarrow> nat \<Rightarrow> string res" where
  "deref_string r c =
     ebind (row_get_string r c) (\<lambda>v. case v of Some s \<Rightarrow> Inr s | None \<Rightarrow> Inl (Undefined NulloptDeref))"

definition isg_accept :: "row \<Rightarrow> i32 set \<Rightarrow> (bool \<times> i32 set) res" where
  "isg_accept r s =
     emap (Pair True)
       (efold (\<lambda>c s. ebind (row_col_type r c) (\<lambda>t.
           if t = CHR ''I'' then emap (\<lambda>v. insert v s) (deref_int r c) else Inr s))
         [0..<row_width r] s)"

text \<open>The program only gives it to \<open>map\<close>, which neither clones nor joins.\<close>

definition isg_rower :: "i32 set rower" where
  "isg_rower = \<lparr>rower_accept = isg_accept, rower_join = (\<lambda>s _. Inr s), rower_clone = Some\<rparr>"

section \<open>\<open>UnorderedFilter\<close>\<close>

record filter_state =
  uf_set :: "i32 set"
  uf_df :: dataframe
  uf_row :: row

text \<open>
  The constructors: an empty frame of the given types, a row of its schema, and the integers
  of the frame that is passed in.
\<close>

definition uf_new :: "string \<Rightarrow> dataframe \<Rightarrow> filter_state res" where
  "uf_new types src =
     ebind (df_of_schema (schema_of_types types)) (\<lambda>df.
     ebind (row_of_schema (df_schema df)) (\<lambda>row.
     ebind (df_map src isg_rower {}) (\<lambda>ints.
     Inr \<lparr>uf_set = ints, uf_df = df, uf_row = row\<rparr>)))"

text \<open>
  \<open>_add_to_df\<close>, under the lock. Every clone has a row of its own; they differ only in the
  value that is overwritten here.
\<close>

definition uf_add :: "cell \<Rightarrow> filter_state \<Rightarrow> filter_state res" where
  "uf_add x st =
     ebind (row_col_type (uf_row st) 0) (\<lambda>t.
     if t \<noteq> cell_type x then Inl Abort
     else ebind (row_set 0 x (uf_row st)) (\<lambda>row.
       emap (\<lambda>df. st\<lparr>uf_row := row, uf_df := df\<rparr>) (df_add_row row (uf_df st))))"

definition uf_finish :: "nat \<Rightarrow> filter_state \<Rightarrow> (dataframe \<times> filter_state) res" where
  "uf_finish use_count st =
     (if use_count \<noteq> 1 then Inl Abort
      else emap (\<lambda>df. (uf_df st, st\<lparr>uf_df := df\<rparr>)) (df_copy (uf_df st)))"

text \<open>What the three filters add for a row, in the order they add it.\<close>

definition uutp_updates :: "i32 set \<Rightarrow> row \<Rightarrow> cell list res" where
  "uutp_updates ints r =
     ebind (deref_int r 1) (\<lambda>author.
     ebind (if author \<in> ints then Inr True else emap (\<lambda>committer. committer \<in> ints) (deref_int r 2)) (\<lambda>hit.
     if hit then emap (\<lambda>project. [IntCell (Some project)]) (deref_int r 0) else Inr []))"

definition ptuu_updates :: "i32 set \<Rightarrow> row \<Rightarrow> cell list res" where
  "ptuu_updates ints r =
     ebind (deref_int r 0) (\<lambda>project.
     if project \<in> ints
     then ebind (deref_int r 1) (\<lambda>author. emap (\<lambda>committer. [IntCell (Some author), IntCell (Some committer)]) (deref_int r 2))
     else Inr [])"

definition uutn_updates :: "i32 set \<Rightarrow> row \<Rightarrow> cell list res" where
  "uutn_updates ints r =
     ebind (deref_int r 0) (\<lambda>uuid.
     if uuid \<in> ints then emap (\<lambda>name. [StringCell (Some name)]) (deref_string r 1) else Inr [])"

text \<open>A filter is made from a frame, run over another one, and finished.\<close>

inductive filter_run :: "string \<Rightarrow> (i32 set \<Rightarrow> row \<Rightarrow> cell list res) \<Rightarrow> dataframe \<Rightarrow> dataframe \<Rightarrow> dataframe res \<Rightarrow> bool"
  for types updates src df where
  filter_not_made: "uf_new types src = Inl e \<Longrightarrow> filter_run types updates src df (Inl e)"
| filter_stops: "uf_new types src = Inr st \<Longrightarrow> pmap_shared df (updates (uf_set st)) uf_add st (Inl e)
    \<Longrightarrow> filter_run types updates src df (Inl e)"
| filter_runs: "uf_new types src = Inr st \<Longrightarrow> pmap_shared df (updates (uf_set st)) uf_add st (Inr st')
    \<Longrightarrow> filter_run types updates src df (emap fst (uf_finish 1 st'))"

inductive_cases filter_runE: "filter_run types updates src df r"

section \<open>\<open>Linus\<close>\<close>

text \<open>\<open>_users\<close>: the first user of that name is stored as a scalar.\<close>

fun find_user :: "dataframe \<Rightarrow> string \<Rightarrow> nat list \<Rightarrow> i32 option res" where
  "find_user udf name [] = Inr None"
| "find_user udf name (r # rs) =
     ebind (df_get_string udf 1 r) (\<lambda>n.
     if n = Some name
     then ebind (df_get_int udf 0 r) (\<lambda>v. case v of Some i \<Rightarrow> Inr (Some i) | None \<Rightarrow> Inl (Undefined NulloptDeref))
     else find_user udf name rs)"

definition linus_find :: "dataframe \<Rightarrow> kvstore \<Rightarrow> kvstore res" where
  "linus_find udf st =
     ebind (find_user udf ''torvalds'' [0..<df_nrows udf]) (\<lambda>u. case u of
       None \<Rightarrow> Inr st
     | Some i \<Rightarrow> emap snd (from_scalar (key_of ''linus_uuid'') (IntCell (Some i)) st))"

text \<open>The keys under which the node with the commits stores its frames, and \<open>_users\<close> the names.\<close>

definition degree_key :: "nat \<Rightarrow> string" where
  "degree_key k = ''uuids_degree_'' @ show_nat k"

definition project_key :: "nat \<Rightarrow> string" where
  "project_key k = ''projects_degree_'' @ show_nat k"

definition names_key :: "nat \<Rightarrow> string" where
  "names_key k = ''degree'' @ show_nat k"

definition MAX_DEGREE :: nat where "MAX_DEGREE = 7"

section \<open>Frames of integers and of commits\<close>

definition int_frame :: "dataframe \<Rightarrow> bool" where
  "int_frame df \<longleftrightarrow> df_rect df \<and> list_all (\<lambda>r. \<exists>v. r = [IntCell (Some v)]) (df_rows df)"

definition frame_ints :: "dataframe \<Rightarrow> i32 set" where
  "frame_ints df = {v. [IntCell (Some v)] \<in> set (df_rows df)}"

text \<open>A commit: its project, its author and its committer.\<close>

fun commit_of :: "cell list \<Rightarrow> (i32 \<times> i32 \<times> i32) option" where
  "commit_of (IntCell (Some p) # IntCell (Some a) # IntCell (Some c) # _) = Some (p, a, c)"
| "commit_of _ = None"

definition commit_frame :: "dataframe \<Rightarrow> bool" where
  "commit_frame df \<longleftrightarrow> df_rect df \<and> list_all (\<lambda>r. commit_of r \<noteq> None) (df_rows df)"

definition commits :: "dataframe \<Rightarrow> (i32 \<times> i32 \<times> i32) set" where
  "commits df = {t. Some t \<in> commit_of ` set (df_rows df)}"

text \<open>The projects the given users worked on, and the users of the given projects.\<close>

definition projects_of :: "(i32 \<times> i32 \<times> i32) set \<Rightarrow> i32 set \<Rightarrow> i32 set" where
  "projects_of cs us = {p. \<exists>a c. (p, a, c) \<in> cs \<and> (a \<in> us \<or> c \<in> us)}"

definition users_of :: "(i32 \<times> i32 \<times> i32) set \<Rightarrow> i32 set \<Rightarrow> i32 set" where
  "users_of cs ps = {u. \<exists>p a c. (p, a, c) \<in> cs \<and> p \<in> ps \<and> (u = a \<or> u = c)}"

lemma row_values_frame_row [simp]: "row_values (frame_row df i) = df_row_cells df i"
  by (simp add: frame_row_def)

text \<open>The integers of a frame of integers.\<close>

lemma isg_accept_int:
  assumes "row_filled r" and "row_values r = [IntCell (Some v)]"
  shows "isg_accept r s = Inr (True, insert v s)"
proof -
  have "row_width r = 1" "row_types r = [CHR ''I'']"
    using assms by (auto simp: row_filled_def row_wf_def)
  then show ?thesis
    using assms(2) by (simp add: isg_accept_def row_col_type_def deref_int_def row_get_int_def)
qed

lemma isg_map:
  assumes "int_frame df"
  shows "df_map df isg_rower s = Inr (s \<union> frame_ints df)"
proof -
  have rect: "df_rect df" using assms by (simp add: int_frame_def)
  define v where "v i = (case df_row_cells df i of [IntCell (Some w)] \<Rightarrow> w | _ \<Rightarrow> 0)" for i
  have cells: "df_row_cells df i = [IntCell (Some (v i))]" if "i < df_nrows df" for i
    using assms df_rows_nth [OF that] by (auto simp: int_frame_def list_all_iff v_def)
  have "df_map df isg_rower s = Inr (fold (\<lambda>i. insert (v i)) [0..<df_nrows df] s)"
    unfolding df_map_rows [OF rect]
    by (rule efold_total) (simp add: isg_rower_def isg_accept_int frame_row_filled [OF rect] cells)
  also have "fold (\<lambda>i. insert (v i)) is s = s \<union> v ` set is" for "is"
    by (induction "is" arbitrary: s) auto
  also have "v ` set [0..<df_nrows df] = frame_ints df"
    using cells by (auto simp: frame_ints_def df_rows_def image_iff)
  finally show ?thesis .
qed

section \<open>The frame a filter builds\<close>

definition uf_ok :: "char \<Rightarrow> filter_state \<Rightarrow> bool" where
  "uf_ok t st \<longleftrightarrow> df_rect (uf_df st) \<and> map col_get_type (df_columns (uf_df st)) = [t]
     \<and> row_wf (uf_row st) \<and> row_types (uf_row st) = [t]"

lemma uf_add_ok:
  assumes "uf_ok t st" and "cell_type x = t"
  shows "\<exists>st'. uf_add x st = Inr st' \<and> uf_ok t st' \<and> df_rows (uf_df st') = df_rows (uf_df st) @ [[x]]"
proof -
  let ?row = "(uf_row st)\<lparr>row_values := [x]\<rparr>"
  have rect: "df_rect (uf_df st)" and types: "map col_get_type (df_columns (uf_df st)) = [t]"
    and wf: "row_wf (uf_row st)" and rt: "row_types (uf_row st) = [t]"
    using assms(1) by (simp_all add: uf_ok_def)
  have width: "row_width (uf_row st) = 1" using wf rt by (simp add: row_wf_def)
  then obtain y where "row_values (uf_row st) = [y]"
    using wf by (cases "row_values (uf_row st)") (auto simp: row_wf_def)
  then have set: "row_set 0 x (uf_row st) = Inr ?row"
    using row_set_typed [OF wf, of 0 x] width rt assms(2) by simp
  have row_ok: "row_wf ?row" using wf width by (simp add: row_wf_def)
  then have filled: "row_filled ?row" using rt assms(2) by (simp add: row_filled_def)
  have fits: "row_types ?row = map col_get_type (df_columns (uf_df st))" using rt types by simp
  have ne: "df_columns (uf_df st) \<noteq> []" using types by auto
  obtain df' where df': "df_add_row ?row (uf_df st) = Inr df'" "df_rect df'"
    "df_rows df' = df_rows (uf_df st) @ [[x]]"
    "map col_get_type (df_columns df') = map col_get_type (df_columns (uf_df st))"
    using df_add_row_rows [OF rect ne filled fits] by auto
  have "row_col_type (uf_row st) 0 = Inr (cell_type x)"
    using width rt assms(2) by (simp add: row_col_type_def)
  then have "uf_add x st = Inr (st\<lparr>uf_row := ?row, uf_df := df'\<rparr>)"
    using set df'(1) by (simp add: uf_add_def)
  moreover have "uf_ok t (st\<lparr>uf_row := ?row, uf_df := df'\<rparr>)"
    using df'(2,4) types row_ok rt by (simp add: uf_ok_def)
  ultimately show ?thesis using df'(3) by simp
qed

lemma uf_adds_ok:
  assumes "uf_ok t st" and "\<forall>x\<in>set xs. cell_type x = t"
  shows "\<exists>st'. efold uf_add xs st = Inr st' \<and> uf_ok t st' \<and> df_rows (uf_df st') = df_rows (uf_df st) @ map (\<lambda>x. [x]) xs"
  using assms
proof (induction xs arbitrary: st)
  case (Cons x xs)
  then obtain st1 where 1: "uf_add x st = Inr st1" "uf_ok t st1" "df_rows (uf_df st1) = df_rows (uf_df st) @ [[x]]"
    using uf_add_ok [of t st x] by auto
  with Cons.IH [of st1] Cons.prems(2) show ?case by auto
qed simp

lemma uf_new_ok:
  assumes "t \<in> type_chars" and "int_frame src"
  shows "\<exists>st. uf_new [t] src = Inr st \<and> uf_ok t st \<and> df_rows (uf_df st) = [] \<and> uf_set st = frame_ints src"
proof -
  let ?s = "schema_of_types [t]"
  have "plain_types [t]" using assms(1) by (auto simp: plain_types_def type_chars_def)
  then have types: "sch_types ?s = [t]" by (simp add: schema_of_plain_types del: schema_of_types_fields)
  have wf: "schema_wf ?s" by (simp add: schema_ops_wf del: schema_of_types_fields)
  have chars: "set (sch_types ?s) \<subseteq> type_chars" using assms(1) by (simp add: types del: schema_of_types_fields)
  obtain df where df: "df_of_schema ?s = Inr df" using df_of_schema_eq [OF wf chars] by blast
  note facts = df_of_schema_typed [OF wf chars df]
  have cols: "map col_get_type (df_columns df) = [t]"
    using facts(1) unfolding df_typed_def facts(3) types by simp
  have nrows: "df_nrows df = 0" using facts(2) cols by (auto simp: df_nrows_def df_ncols_def)
  have rect: "df_rect df" using facts(1,2) by (simp add: df_rect_def nrows)
  define row where "row = \<lparr>row_width = sch_width ?s, row_types = sch_types ?s,
     row_values = replicate (sch_width ?s) (IntCell None), row_index = 0\<rparr>"
  have row: "row_of_schema (df_schema df) = Inr row"
    using row_of_schema_eq [OF wf] by (simp add: facts(3) row_def del: schema_of_types_fields)
  have "row_wf row" "row_types row = [t]"
    using wf types by (simp_all add: row_def row_wf_def schema_wf_def del: schema_of_types_fields)
  then have "uf_ok t \<lparr>uf_set = frame_ints src, uf_df = df, uf_row = row\<rparr>"
    using rect cols by (simp add: uf_ok_def)
  moreover have "df_rows df = []" by (simp add: df_rows_def nrows)
  moreover have "uf_new [t] src = Inr \<lparr>uf_set = frame_ints src, uf_df = df, uf_row = row\<rparr>"
    using df row isg_map [OF assms(2), of "{}"] by (simp add: uf_new_def)
  ultimately show ?thesis by simp
qed

text \<open>
  Whatever the schedule of the threads, the rows of the result are, as a multiset, what the
  filter adds for the rows it goes through.
\<close>

lemma filter_run_rows:
  assumes run: "filter_run [t] updates src df r" and "t \<in> type_chars" and "int_frame src" and "df_rect df"
    and updates: "\<And>i. i < df_nrows df \<Longrightarrow> updates (frame_ints src) (frame_row df i) = Inr (g (df_row_cells df i))"
    and typed: "\<And>i x. i < df_nrows df \<Longrightarrow> x \<in> set (g (df_row_cells df i)) \<Longrightarrow> cell_type x = t"
  shows "\<exists>out. r = Inr out \<and> df_rect out \<and> map col_get_type (df_columns out) = [t]
    \<and> mset (df_rows out) = image_mset (\<lambda>x. [x]) (mset (concat (map g (df_rows df))))"
proof -
  obtain st where st: "uf_new [t] src = Inr st" "uf_ok t st" "df_rows (uf_df st) = []" "uf_set st = frame_ints src"
    using uf_new_ok [OF assms(2,3)] by blast
  have outcome: "\<exists>st'. r' = Inr st' \<and> uf_ok t st'
      \<and> mset (df_rows (uf_df st')) = image_mset (\<lambda>x. [x]) (mset (concat (map g (df_rows df))))"
    if shared: "pmap_shared df (updates (frame_ints src)) uf_add st r'" for r'
  proof -
    obtain ys where ys: "r' = efold uf_add ys st" "mset ys = mset (concat (map g (df_rows df)))"
      by (rule pmap_shared_updates [OF assms(4) shared updates])
    have "set ys = set (concat (map g (df_rows df)))" using ys(2) by (rule mset_eq_setD)
    then have "\<forall>x\<in>set ys. cell_type x = t" using typed by (auto simp: df_rows_def)
    then obtain st' where "efold uf_add ys st = Inr st'" "uf_ok t st'" "df_rows (uf_df st') = map (\<lambda>x. [x]) ys"
      using uf_adds_ok [OF st(2), of ys] st(3) by auto
    then show ?thesis using ys by simp
  qed
  from run obtain st' where r: "r = emap fst (uf_finish 1 st')"
    and shared: "pmap_shared df (updates (frame_ints src)) uf_add st (Inr st')"
    by (rule filter_runE) (use st outcome in auto)
  obtain "uf_ok t st'" and rows: "mset (df_rows (uf_df st')) = image_mset (\<lambda>x. [x]) (mset (concat (map g (df_rows df))))"
    using outcome [OF shared] by auto
  then have "df_rect (uf_df st')" "map col_get_type (df_columns (uf_df st')) = [t]" by (simp_all add: uf_ok_def)
  moreover from this obtain copy where "df_copy (uf_df st') = Inr copy"
    using df_copy_rect unfolding df_rect_def by metis
  ultimately show ?thesis using rows r by (simp add: uf_finish_def)
qed

text \<open>There is always a run: no schedule gets stuck.\<close>

lemma filter_run_exists: "\<exists>r. filter_run types updates src df r"
proof (cases "uf_new types src")
  case (Inl e)
  then show ?thesis by (blast intro: filter_not_made)
next
  case (Inr st)
  obtain r where "pmap_shared df (updates (uf_set st)) uf_add st r"
    using pmap_shared_exists [of df "updates (uf_set st)" uf_add st] by auto
  then show ?thesis using Inr by (cases r) (blast intro: filter_stops filter_runs)+
qed

section \<open>The filters on commits\<close>

lemma commit_row:
  assumes "commit_frame df" and "i < df_nrows df"
  obtains p a c where "commit_of (df_row_cells df i) = Some (p, a, c)"
    and "deref_int (frame_row df i) 0 = Inr p" and "deref_int (frame_row df i) 1 = Inr a"
    and "deref_int (frame_row df i) 2 = Inr c"
proof -
  obtain t where t: "commit_of (df_row_cells df i) = Some t"
    using assms df_rows_nth [OF assms(2)] by (auto simp: commit_frame_def list_all_iff)
  then obtain p a c rest where "df_row_cells df i = IntCell (Some p) # IntCell (Some a) # IntCell (Some c) # rest"
    by (cases "df_row_cells df i" rule: commit_of.cases) auto
  then show thesis
    using that t by (simp add: deref_int_def row_get_int_def numeral_2_eq_2)
qed

lemma commits_iff: "t \<in> commits df \<longleftrightarrow> (\<exists>r\<in>set (df_rows df). commit_of r = Some t)"
  by (auto simp: commits_def image_iff eq_commute)

text \<open>What the two filters add for a commit.\<close>

definition project_cells :: "i32 set \<Rightarrow> cell list \<Rightarrow> cell list" where
  "project_cells us r = (case commit_of r of None \<Rightarrow> []
     | Some (p, a, c) \<Rightarrow> if a \<in> us \<or> c \<in> us then [IntCell (Some p)] else [])"

definition user_cells :: "i32 set \<Rightarrow> cell list \<Rightarrow> cell list" where
  "user_cells ps r = (case commit_of r of None \<Rightarrow> []
     | Some (p, a, c) \<Rightarrow> if p \<in> ps then [IntCell (Some a), IntCell (Some c)] else [])"

lemma uutp_updates_commit:
  assumes "commit_frame df" and "i < df_nrows df"
  shows "uutp_updates us (frame_row df i) = Inr (project_cells us (df_row_cells df i))"
  by (rule commit_row [OF assms]) (auto simp: uutp_updates_def project_cells_def)

lemma ptuu_updates_commit:
  assumes "commit_frame df" and "i < df_nrows df"
  shows "ptuu_updates ps (frame_row df i) = Inr (user_cells ps (df_row_cells df i))"
  by (rule commit_row [OF assms]) (auto simp: ptuu_updates_def user_cells_def)

lemma commit_cells_typed:
  "x \<in> set (project_cells us r) \<Longrightarrow> cell_type x = CHR ''I'' \<and> (\<exists>v. x = IntCell (Some v))"
  "x \<in> set (user_cells ps r) \<Longrightarrow> cell_type x = CHR ''I'' \<and> (\<exists>v. x = IntCell (Some v))"
  by (auto simp: project_cells_def user_cells_def split: option.splits if_splits)

text \<open>A frame of one column of integers, few enough to be counted in a \<open>size_t\<close>.\<close>

definition id_frame :: "dataframe \<Rightarrow> bool" where
  "id_frame df \<longleftrightarrow> int_frame df \<and> map col_get_type (df_columns df) = ''I'' \<and> df_nrows df < 2 ^ 64"

lemma id_frame_of_mset:
  assumes "df_rect out" and "map col_get_type (df_columns out) = ''I''"
    and "mset (df_rows out) = image_mset (\<lambda>x. [x]) (mset xs)"
    and "\<forall>x\<in>set xs. \<exists>v. x = IntCell (Some v)" and "length xs < 2 ^ 64"
  shows "id_frame out \<and> frame_ints out = {v. IntCell (Some v) \<in> set xs}"
proof -
  have "set (df_rows out) = (\<lambda>x. [x]) ` set xs"
    using arg_cong [OF assms(3), of set_mset] by simp
  moreover have "df_nrows out = length xs"
    using arg_cong [OF assms(3), of size] by (simp add: df_rows_def)
  ultimately show ?thesis
    using assms(1,2,4,5) by (auto simp: id_frame_def int_frame_def frame_ints_def list_all_iff)
qed

lemma commit_cells_few:
  "length (concat (map (project_cells us) rs)) \<le> 2 * length rs"
  "length (concat (map (user_cells ps) rs)) \<le> 2 * length rs"
proof -
  have "length (project_cells us r) \<le> 2" "length (user_cells ps r) \<le> 2" for r
    by (auto simp: project_cells_def user_cells_def split: option.split)
  then have "(\<Sum>r\<leftarrow>rs. length (project_cells us r)) \<le> (\<Sum>r\<leftarrow>rs. 2)"
    "(\<Sum>r\<leftarrow>rs. length (user_cells ps r)) \<le> (\<Sum>r\<leftarrow>rs. 2)"
    by (intro sum_list_mono; simp)+
  then show "length (concat (map (project_cells us) rs)) \<le> 2 * length rs"
    "length (concat (map (user_cells ps) rs)) \<le> 2 * length rs"
    by (simp_all add: length_concat comp_def sum_list_triv)
qed

lemma uutp_run:
  assumes "filter_run ''I'' uutp_updates src cdf r" and "int_frame src" and "commit_frame cdf"
    and "2 * df_nrows cdf < 2 ^ 64"
  shows "\<exists>out. r = Inr out \<and> id_frame out \<and> frame_ints out = projects_of (commits cdf) (frame_ints src)"
proof -
  let ?xs = "concat (map (project_cells (frame_ints src)) (df_rows cdf))"
  obtain out where out: "r = Inr out" "df_rect out" "map col_get_type (df_columns out) = ''I''"
    "mset (df_rows out) = image_mset (\<lambda>x. [x]) (mset ?xs)"
    using filter_run_rows [OF assms(1) _ assms(2) _ uutp_updates_commit [OF assms(3)]]
      commit_cells_typed(1) assms(3) by (auto simp: type_chars_def commit_frame_def)
  have "length ?xs < 2 ^ 64"
    using commit_cells_few(1) [of "frame_ints src" "df_rows cdf"] assms(4) by (simp add: df_rows_def)
  then have "id_frame out \<and> frame_ints out = {v. IntCell (Some v) \<in> set ?xs}"
    using commit_cells_typed(1) by (intro id_frame_of_mset [OF out(2-4)]) auto
  moreover have "IntCell (Some v) \<in> set (project_cells us r) \<longleftrightarrow>
      (\<exists>a c. commit_of r = Some (v, a, c) \<and> (a \<in> us \<or> c \<in> us))" for v us r
    by (cases "commit_of r") (auto simp: project_cells_def)
  then have "{v. IntCell (Some v) \<in> set ?xs} = projects_of (commits cdf) (frame_ints src)"
    by (simp add: projects_of_def commits_iff) blast
  ultimately show ?thesis using out(1) by simp
qed

lemma ptuu_run:
  assumes "filter_run ''I'' ptuu_updates src cdf r" and "int_frame src" and "commit_frame cdf"
    and "2 * df_nrows cdf < 2 ^ 64"
  shows "\<exists>out. r = Inr out \<and> id_frame out \<and> frame_ints out = users_of (commits cdf) (frame_ints src)"
proof -
  let ?xs = "concat (map (user_cells (frame_ints src)) (df_rows cdf))"
  obtain out where out: "r = Inr out" "df_rect out" "map col_get_type (df_columns out) = ''I''"
    "mset (df_rows out) = image_mset (\<lambda>x. [x]) (mset ?xs)"
    using filter_run_rows [OF assms(1) _ assms(2) _ ptuu_updates_commit [OF assms(3)]]
      commit_cells_typed(2) assms(3) by (auto simp: type_chars_def commit_frame_def)
  have "length ?xs < 2 ^ 64"
    using commit_cells_few(2) [of "frame_ints src" "df_rows cdf"] assms(4) by (simp add: df_rows_def)
  then have "id_frame out \<and> frame_ints out = {v. IntCell (Some v) \<in> set ?xs}"
    using commit_cells_typed(2) by (intro id_frame_of_mset [OF out(2-4)]) auto
  moreover have "IntCell (Some v) \<in> set (user_cells ps r) \<longleftrightarrow>
      (\<exists>p a c. commit_of r = Some (p, a, c) \<and> p \<in> ps \<and> (v = a \<or> v = c))" for v ps r
    by (cases "commit_of r") (auto simp: user_cells_def)
  then have "{v. IntCell (Some v) \<in> set ?xs} = users_of (commits cdf) (frame_ints src)"
    by (simp add: users_of_def commits_iff) blast
  ultimately show ?thesis using out(1) by simp
qed

section \<open>Degrees\<close>

lemma key_names_distinct:
  "degree_key i = degree_key j \<longleftrightarrow> i = j" "project_key i = project_key j \<longleftrightarrow> i = j" "degree_key i \<noteq> project_key j"
  "names_key i = names_key j \<longleftrightarrow> i = j"
  using show_nat_inj by (auto simp: degree_key_def project_key_def names_key_def)

section \<open>Users\<close>

text \<open>A user: the number and the name.\<close>

fun user_of :: "cell list \<Rightarrow> (i32 \<times> string) option" where
  "user_of (IntCell (Some u) # StringCell (Some n) # _) = Some (u, n)"
| "user_of _ = None"

definition user_frame :: "dataframe \<Rightarrow> bool" where
  "user_frame df \<longleftrightarrow> df_rect df \<and> list_all (\<lambda>r. user_of r \<noteq> None) (df_rows df)"

definition users :: "dataframe \<Rightarrow> (i32 \<times> string) list" where
  "users df = map (\<lambda>r. the (user_of r)) (df_rows df)"

lemma user_row:
  assumes "user_frame df" and "i < df_nrows df"
  obtains u n rest where "df_row_cells df i = IntCell (Some u) # StringCell (Some n) # rest"
    and "users df ! i = (u, n)"
proof -
  obtain t where t: "user_of (df_row_cells df i) = Some t"
    using assms df_rows_nth [OF assms(2)] by (auto simp: user_frame_def list_all_iff)
  then obtain u n rest where "df_row_cells df i = IntCell (Some u) # StringCell (Some n) # rest"
    by (cases "df_row_cells df i" rule: user_of.cases) auto
  moreover from this have "users df ! i = (u, n)" using assms(2) by (simp add: users_def df_rows_def)
  ultimately show thesis by (rule that)
qed

definition name_cells :: "i32 set \<Rightarrow> cell list \<Rightarrow> cell list" where
  "name_cells ids r = (case user_of r of None \<Rightarrow> [] | Some (u, n) \<Rightarrow> if u \<in> ids then [StringCell (Some n)] else [])"

lemma uutn_updates_user:
  assumes "user_frame df" and "i < df_nrows df"
  shows "uutn_updates ids (frame_row df i) = Inr (name_cells ids (df_row_cells df i))"
  by (rule user_row [OF assms])
    (simp add: uutn_updates_def name_cells_def deref_int_def deref_string_def row_get_int_def row_get_string_def)

text \<open>The names of a degree: those of the users with one of the given numbers.\<close>

lemma uutn_run:
  assumes "filter_run ''S'' uutn_updates src udf r" and "int_frame src" and "user_frame udf"
  shows "\<exists>out. r = Inr out \<and> df_rect out \<and> mset (df_rows out) =
     mset (map (\<lambda>(u, n). [StringCell (Some n)]) (filter (\<lambda>(u, n). u \<in> frame_ints src) (users udf)))"
proof -
  have typed: "x \<in> set (name_cells ids r) \<Longrightarrow> cell_type x = CHR ''S''" for x ids r
    by (auto simp: name_cells_def split: option.splits if_splits)
  obtain out where out: "r = Inr out" "df_rect out" "mset (df_rows out) =
      image_mset (\<lambda>x. [x]) (mset (concat (map (name_cells (frame_ints src)) (df_rows udf))))"
    using filter_run_rows [OF assms(1) _ assms(2) _ uutn_updates_user [OF assms(3)]] typed assms(3)
    by (auto simp: type_chars_def user_frame_def)
  have "concat (map (name_cells ids) rs) =
      map (\<lambda>(u, n). StringCell (Some n)) (filter (\<lambda>(u, n). u \<in> ids) (map (\<lambda>r. the (user_of r)) rs))"
    if "list_all (\<lambda>r. user_of r \<noteq> None) rs" for ids rs
    using that by (induction rs) (auto simp: name_cells_def split: if_splits)
  then have "concat (map (name_cells (frame_ints src)) (df_rows udf)) =
      map (\<lambda>(u, n). StringCell (Some n)) (filter (\<lambda>(u, n). u \<in> frame_ints src) (users udf))"
    using assms(3) by (simp add: users_def user_frame_def)
  moreover have "(\<lambda>x. [x]) \<circ> (\<lambda>(u, n). StringCell (Some n)) = (\<lambda>(u :: i32, n). [StringCell (Some n)])"
    by (rule ext) auto
  ultimately show ?thesis using out by (simp flip: mset_map)
qed

text \<open>The search returns the first user of the name.\<close>

lemma find_user_first:
  assumes "user_frame df"
  shows "find_user df name [0..<df_nrows df] = Inr (map_option fst (find (\<lambda>(u, n). n = name) (users df)))"
proof -
  have "find_user df name is = Inr (map_option fst (find (\<lambda>(u, n). n = name) (map (nth (users df)) is)))"
    if "\<forall>i\<in>set is. i < df_nrows df" for "is"
    using that
  proof (induction "is")
    case (Cons i "is")
    then have i: "i < df_nrows df" by simp
    obtain u n rest where row: "df_row_cells df i = IntCell (Some u) # StringCell (Some n) # rest" "users df ! i = (u, n)"
      by (rule user_row [OF assms i])
    then have "2 \<le> length (df_columns df)" using row_widths [of df i] by simp
    then have "0 < length (df_columns df)" "1 < length (df_columns df)" "df_columns df \<noteq> []" by auto
    then have "df_get_string df 1 i = Inr (Some n)" "df_get_int df 0 i = Inr (Some u)"
      using df_get_cell(1) [of df i 1 "Some n"] df_get_cell(2) [of df i 0 "Some u"] row assms i
      by (simp_all add: user_frame_def)
    with Cons row show ?case by simp
  qed simp
  moreover have "map (nth (users df)) [0..<df_nrows df] = users df"
    using map_nth [of "users df"] by (simp add: users_def df_rows_def)
  ultimately show ?thesis by simp
qed

end
