(* ===== verification/Aliasing.thy ===== *)
theory Aliasing
  imports Linus
begin

text \<open>
  The shared pointers of \<open>include/util/linus_rowers.h\<close> and \<open>src/util/linus_rowers.cpp\<close>. \<open>Linus\<close> treats a
  filter and its clones as one state; here every rower is an object of its own, whose mutex, set and frame
  are addresses of a heap with use counts, and the one state is shown to be what they come to.
\<close>

section \<open>The heap\<close>

text \<open>
  A \<open>std::shared_ptr\<close> is an address; its use count is with what it points to. An address is not used
  again.
\<close>

record heap =
  hp_next :: nat
  hp_count :: "nat \<Rightarrow> nat"
  hp_sets :: "nat \<Rightarrow> i32 set"
  hp_frames :: "nat \<Rightarrow> dataframe"

definition hp_alloc :: "heap \<Rightarrow> nat \<times> heap" where
  "hp_alloc h = (hp_next h, h\<lparr>hp_next := Suc (hp_next h), hp_count := (hp_count h)(hp_next h := 1)\<rparr>)"

definition new_set :: "i32 set \<Rightarrow> heap \<Rightarrow> nat \<times> heap" where
  "new_set s h = (case hp_alloc h of (a, h) \<Rightarrow> (a, h\<lparr>hp_sets := (hp_sets h)(a := s)\<rparr>))"

definition new_frame :: "dataframe \<Rightarrow> heap \<Rightarrow> nat \<times> heap" where
  "new_frame df h = (case hp_alloc h of (a, h) \<Rightarrow> (a, h\<lparr>hp_frames := (hp_frames h)(a := df)\<rparr>))"

definition retain :: "nat \<Rightarrow> heap \<Rightarrow> heap" where
  "retain a h = h\<lparr>hp_count := (hp_count h)(a := hp_count h a + 1)\<rparr>"

definition release :: "nat \<Rightarrow> heap \<Rightarrow> heap" where
  "release a h = h\<lparr>hp_count := (hp_count h)(a := hp_count h a - 1)\<rparr>"

lemmas heap_defs = hp_alloc_def new_set_def new_frame_def retain_def release_def

section \<open>\<open>IntSetGenerator\<close>\<close>

record isg =
  isg_mutex :: nat
  isg_set :: nat

definition isg_new :: "heap \<Rightarrow> isg \<times> heap" where
  "isg_new h = (case hp_alloc h of (m, h) \<Rightarrow> case new_set {} h of (s, h) \<Rightarrow> (\<lparr>isg_mutex = m, isg_set = s\<rparr>, h))"

text \<open>A clone shares both; the destructor is that of the members.\<close>

definition isg_share :: "nat \<Rightarrow> nat \<Rightarrow> heap \<Rightarrow> isg \<times> heap" where
  "isg_share m s h = (\<lparr>isg_mutex = m, isg_set = s\<rparr>, retain s (retain m h))"

definition isg_clone :: "isg \<Rightarrow> heap \<Rightarrow> isg \<times> heap" where
  "isg_clone g h = isg_share (isg_mutex g) (isg_set g) h"

definition isg_destroy :: "isg \<Rightarrow> heap \<Rightarrow> heap" where
  "isg_destroy g h = release (isg_mutex g) (release (isg_set g) h)"

definition isg_visit :: "isg \<Rightarrow> row \<Rightarrow> heap \<Rightarrow> (bool \<times> heap) res" where
  "isg_visit g row h =
     emap (\<lambda>(b, s). (b, h\<lparr>hp_sets := (hp_sets h)(isg_set g := s)\<rparr>)) (isg_accept row (hp_sets h (isg_set g)))"

text \<open>The set goes to the caller, who takes over the one use of it that is left, and the rower gets a new one.\<close>

definition isg_finish :: "isg \<Rightarrow> heap \<Rightarrow> (nat \<times> isg \<times> heap) res" where
  "isg_finish g h =
     (if hp_count h (isg_set g) \<noteq> 1 then Inl Abort
      else case new_set {} h of (s, h) \<Rightarrow> Inr (isg_set g, g\<lparr>isg_set := s\<rparr>, h))"

definition isg_equals :: "isg \<Rightarrow> isg \<Rightarrow> bool" where
  "isg_equals g g' \<longleftrightarrow> isg_mutex g = isg_mutex g' \<and> isg_set g = isg_set g'"

definition isg_hash :: "isg \<Rightarrow> u64" where
  "isg_hash g = word_of_nat (isg_mutex g) XOR word_of_nat (isg_set g)"

text \<open>\<open>join\<close> does nothing.\<close>

definition isg_object :: "isg \<Rightarrow> heap rower" where
  "isg_object g = \<lparr>rower_accept = isg_visit g, rower_join = (\<lambda>h _. Inr h), rower_clone = (\<lambda>h. Some (snd (isg_clone g h)))\<rparr>"

section \<open>\<open>UnorderedFilter\<close> and its subclasses\<close>

datatype filter_class = UUIDsToProjects | ProjectsToUUIDs | UUIDsToNames

fun class_types :: "filter_class \<Rightarrow> string" where
  "class_types UUIDsToNames = ''S''"
| "class_types _ = ''I''"

fun class_updates :: "filter_class \<Rightarrow> i32 set \<Rightarrow> row \<Rightarrow> cell list res" where
  "class_updates UUIDsToProjects = uutp_updates"
| "class_updates ProjectsToUUIDs = ptuu_updates"
| "class_updates UUIDsToNames = uutn_updates"

record filter_object =
  fo_class :: filter_class
  fo_mutex :: nat
  fo_df :: nat
  fo_set :: nat
  fo_row :: row

definition filter_base :: "filter_class \<Rightarrow> heap \<Rightarrow> (filter_object \<times> heap) res" where
  "filter_base cls h =
     ebind (df_of_schema (schema_of_types (class_types cls))) (\<lambda>df.
     ebind (row_of_schema (df_schema df)) (\<lambda>row.
     case hp_alloc h of (m, h) \<Rightarrow> case new_frame df h of (d, h) \<Rightarrow> case new_set {} h of (s, h) \<Rightarrow>
       Inr (\<lparr>fo_class = cls, fo_mutex = m, fo_df = d, fo_set = s, fo_row = row\<rparr>, h)))"

definition filter_new :: "filter_class \<Rightarrow> dataframe \<Rightarrow> heap \<Rightarrow> (filter_object \<times> heap) res" where
  "filter_new cls src h =
     ebind (filter_base cls h) (\<lambda>(f, h).
     case isg_new h of (g, h) \<Rightarrow>
     ebind (df_map src (isg_object g) h) (\<lambda>h.
     ebind (isg_finish g h) (\<lambda>(s, g, h).
     Inr (f\<lparr>fo_set := s\<rparr>, isg_destroy g (release (fo_set f) h)))))"

text \<open>The constructor of a clone has the three pointers, and makes a row of the schema of the shared frame.\<close>

definition filter_share :: "filter_class \<Rightarrow> nat \<Rightarrow> nat \<Rightarrow> nat \<Rightarrow> heap \<Rightarrow> (filter_object \<times> heap) res" where
  "filter_share cls m d s h =
     emap (\<lambda>row. (\<lparr>fo_class = cls, fo_mutex = m, fo_df = d, fo_set = s, fo_row = row\<rparr>, retain s (retain d (retain m h))))
       (row_of_schema (df_schema (hp_frames h d)))"

definition filter_clone :: "filter_object \<Rightarrow> heap \<Rightarrow> (filter_object \<times> heap) res" where
  "filter_clone f h = filter_share (fo_class f) (fo_mutex f) (fo_df f) (fo_set f) h"

definition filter_destroy :: "filter_object \<Rightarrow> heap \<Rightarrow> heap" where
  "filter_destroy f h = release (fo_mutex f) (release (fo_df f) (release (fo_set f) h))"

definition filter_add :: "cell \<Rightarrow> filter_object \<times> heap \<Rightarrow> (filter_object \<times> heap) res" where
  "filter_add x fh = (case fh of (f, h) \<Rightarrow>
     emap (\<lambda>st. (f\<lparr>fo_row := uf_row st\<rparr>, h\<lparr>hp_frames := (hp_frames h)(fo_df f := uf_df st)\<rparr>))
       (uf_add x \<lparr>uf_set = hp_sets h (fo_set f), uf_df = hp_frames h (fo_df f), uf_row = fo_row f\<rparr>))"

text \<open>\<open>accept\<close> of the subclasses: reading the set needs no lock, every addition takes it.\<close>

definition filter_accept :: "row \<Rightarrow> filter_object \<times> heap \<Rightarrow> (bool \<times> filter_object \<times> heap) res" where
  "filter_accept r fh = (case fh of (f, h) \<Rightarrow>
     ebind (class_updates (fo_class f) (hp_sets h (fo_set f)) r) (\<lambda>xs. emap (Pair True) (efold filter_add xs (f, h))))"

definition filter_finish :: "filter_object \<Rightarrow> heap \<Rightarrow> (nat \<times> filter_object \<times> heap) res" where
  "filter_finish f h =
     (if hp_count h (fo_df f) \<noteq> 1 then Inl Abort
      else emap (\<lambda>df. case new_frame df h of (d, h) \<Rightarrow> (fo_df f, f\<lparr>fo_df := d\<rparr>, h)) (df_copy (hp_frames h (fo_df f))))"

definition ptr_equality :: "filter_object \<Rightarrow> filter_object \<Rightarrow> bool" where
  "ptr_equality f f' \<longleftrightarrow> fo_mutex f = fo_mutex f' \<and> fo_df f = fo_df f' \<and> fo_set f = fo_set f'"

text \<open>The \<open>dynamic_cast\<close> of \<open>equals\<close>: the classes have no subclasses.\<close>

definition filter_equals :: "filter_object \<Rightarrow> filter_object \<Rightarrow> bool" where
  "filter_equals f f' \<longleftrightarrow> fo_class f = fo_class f' \<and> ptr_equality f f'"

definition filter_hash :: "filter_object \<Rightarrow> u64" where
  "filter_hash f = word_of_nat (fo_mutex f) XOR word_of_nat (fo_df f) XOR word_of_nat (fo_set f)"

lemma filter_equals_hash: "filter_equals f f' \<Longrightarrow> filter_hash f = filter_hash f'"
  by (simp add: filter_equals_def ptr_equality_def filter_hash_def)

text \<open>The clones \<open>pmap\<close> makes, and an update by one of the threads.\<close>

fun filter_clones :: "nat \<Rightarrow> filter_object \<Rightarrow> heap \<Rightarrow> (filter_object list \<times> heap) res" where
  "filter_clones 0 f h = Inr ([], h)"
| "filter_clones (Suc n) f h = ebind (filter_clone f h) (\<lambda>(c, h). emap (\<lambda>(cs, h). (c # cs, h)) (filter_clones n f h))"

definition thread_add :: "nat \<times> cell \<Rightarrow> filter_object list \<times> heap \<Rightarrow> (filter_object list \<times> heap) res" where
  "thread_add ix fh = (case (ix, fh) of ((i, x), fs, h) \<Rightarrow>
     ebind (vec_at fs i) (\<lambda>f. emap (\<lambda>(f, h). (fs[i := f], h)) (filter_add x (f, h))))"

section \<open>The generator on the heap\<close>

text \<open>Two rowers whose states correspond go through a frame alike.\<close>

lemma efold_sim:
  assumes "\<And>x s. f x (F s) = emap F (g x s)"
  shows "efold f xs (F s) = emap F (efold g xs s)"
proof (induction xs arbitrary: s)
  case (Cons x xs)
  then show ?case by (cases "g x s") (simp_all add: assms)
qed simp

lemma df_map_sim:
  assumes "\<And>row s. rower_accept r' row (F s) = emap (map_prod id F) (rower_accept r row s)"
  shows "df_map df r' (F s) = emap F (df_map df r s)"
proof (cases "row_of_schema (df_schema df)")
  case (Inr row)
  let ?step = "\<lambda>r i (row, s). ebind (df_fill_row df i row) (\<lambda>row'. emap (\<lambda>(b, s'). (row', s')) (rower_accept r row' s))"
  have "?step r' i (map_prod id F x) = emap (map_prod id F) (?step r i x)" for i x
  proof (cases x)
    case (Pair row s)
    show ?thesis
    proof (cases "df_fill_row df i row")
      case (Inr row')
      then show ?thesis using Pair by (cases "rower_accept r row' s") (auto simp: assms)
    qed (simp add: Pair)
  qed
  from efold_sim [where f = "?step r'" and g = "?step r" and F = "map_prod id F", OF this, of "[0..<df_nrows df]" "(row, s)"]
  show ?thesis using Inr
    by (cases "efold (?step r) [0..<df_nrows df] (row, s)") (simp_all add: df_map_def)
qed (simp add: df_map_def)

lemma isg_object_map:
  "df_map src (isg_object g) h =
     emap (\<lambda>s. h\<lparr>hp_sets := (hp_sets h)(isg_set g := s)\<rparr>) (df_map src isg_rower (hp_sets h (isg_set g)))"
proof -
  let ?F = "\<lambda>s. h\<lparr>hp_sets := (hp_sets h)(isg_set g := s)\<rparr>"
  have "rower_accept (isg_object g) row (?F s) = emap (map_prod id ?F) (rower_accept isg_rower row s)" for row s
    by (cases "isg_accept row s") (auto simp: isg_object_def isg_rower_def isg_visit_def)
  from df_map_sim [where F = ?F, OF this, of src "hp_sets h (isg_set g)"] show ?thesis by simp
qed

section \<open>A new filter\<close>

text \<open>It is the only owner of its mutex, its set and its frame, and they are what \<open>uf_new\<close> has.\<close>

lemma filter_new_state:
  assumes "uf_new (class_types cls) src = Inr st"
  obtains f h' where "filter_new cls src h = Inr (f, h')" and "fo_class f = cls" and "fo_row f = uf_row st"
    and "hp_frames h' = (hp_frames h)(fo_df f := uf_df st)" and "hp_sets h' (fo_set f) = uf_set st"
    and "hp_count h' (fo_df f) = 1" and "hp_count h' (fo_set f) = 1" and "hp_count h' (fo_mutex f) = 1"
    and "hp_next h \<le> fo_df f" and "fo_df f < hp_next h'"
proof -
  obtain df row ints where st: "df_of_schema (schema_of_types (class_types cls)) = Inr df" "row_of_schema (df_schema df) = Inr row"
    "df_map src isg_rower {} = Inr ints" "st = \<lparr>uf_set = ints, uf_df = df, uf_row = row\<rparr>"
    using assms by (auto simp: uf_new_def ebind_eq_Inr)
  show thesis
    by (rule that [of "\<lparr>fo_class = cls, fo_mutex = hp_next h, fo_df = Suc (hp_next h), fo_set = Suc (Suc (Suc (Suc (hp_next h)))), fo_row = row\<rparr>"])
      (auto simp: filter_new_def filter_base_def st isg_new_def heap_defs isg_object_map isg_finish_def isg_destroy_def)
qed

section \<open>Clones\<close>

text \<open>\<open>k\<close> more owners of the pointers of an object.\<close>

definition shares :: "nat \<Rightarrow> filter_object \<Rightarrow> heap \<Rightarrow> heap" where
  "shares k f h = h\<lparr>hp_count := (\<lambda>a. hp_count h a + k * count_list [fo_mutex f, fo_df f, fo_set f] a)\<rparr>"

lemma shares_none [simp]: "shares 0 f h = h"
  by (simp add: shares_def)

lemma shares_frames [simp]:
  "hp_frames (shares k f h) = hp_frames h" "hp_sets (shares k f h) = hp_sets h" "hp_next (shares k f h) = hp_next h"
  "shares k f (h\<lparr>hp_frames := F\<rparr>) = (shares k f h)\<lparr>hp_frames := F\<rparr>"
  by (simp_all add: shares_def)

lemma filter_clone_shares:
  assumes "row_of_schema (df_schema (hp_frames h (fo_df f))) = Inr row"
  shows "filter_clone f (shares k f h) = Inr (f\<lparr>fo_row := row\<rparr>, shares (Suc k) f h)"
  using assms by (auto simp: filter_clone_def filter_share_def shares_def retain_def fun_eq_iff)

lemma filter_clones_shares:
  assumes "row_of_schema (df_schema (hp_frames h (fo_df f))) = Inr row"
  shows "filter_clones n f (shares k f h) = Inr (replicate n (f\<lparr>fo_row := row\<rparr>), shares (k + n) f h)"
  by (induction n arbitrary: k) (simp_all add: filter_clone_shares [OF assms])

text \<open>Destroying an object with the same pointers undoes the sharing.\<close>

lemma filter_destroy_shares: "ptr_equality f' f \<Longrightarrow> filter_destroy f' (shares (Suc k) f h) = shares k f h"
  by (auto simp: filter_destroy_def ptr_equality_def shares_def release_def fun_eq_iff)

lemma filter_destroys_shares:
  "list_all (\<lambda>f'. ptr_equality f' f) fs \<Longrightarrow> fold filter_destroy fs (shares (length fs) f h) = h"
  by (induction fs) (simp_all add: filter_destroy_shares)

section \<open>Updates by the threads\<close>

text \<open>
  Every object has a row of its own, but of these only the one value that is overwritten may differ: \<open>base\<close> is
  the row without it.
\<close>

definition row_like :: "row \<Rightarrow> row \<Rightarrow> bool" where
  "row_like base row \<longleftrightarrow> (\<exists>v. row = base\<lparr>row_values := [v]\<rparr>)"

lemma uf_add_base:
  assumes "uf_ok t st" and "cell_type x = t" and "row_like base (uf_row st)"
  shows "uf_add x st =
    emap (\<lambda>df. st\<lparr>uf_row := base\<lparr>row_values := [x]\<rparr>, uf_df := df\<rparr>) (df_add_row (base\<lparr>row_values := [x]\<rparr>) (uf_df st))"
proof -
  have wf: "row_wf (uf_row st)" and rt: "row_types (uf_row st) = [t]" using assms(1) by (simp_all add: uf_ok_def)
  then have width: "row_width (uf_row st) = 1" by (simp add: row_wf_def)
  obtain v where row: "uf_row st = base\<lparr>row_values := [v]\<rparr>" using assms(3) by (auto simp: row_like_def)
  have "row_col_type (uf_row st) 0 = Inr (cell_type x)" using width rt assms(2) by (simp add: row_col_type_def)
  moreover have "row_set 0 x (uf_row st) = Inr (base\<lparr>row_values := [x]\<rparr>)"
    using row_set_typed [OF wf, of 0 x] width rt assms(2) by (simp add: row)
  ultimately show ?thesis by (simp add: uf_add_def)
qed

lemma row_like_fields:
  "row_like base row \<Longrightarrow> row_types row = row_types base \<and> row_width row = row_width base \<and> length (row_values row) = 1"
  by (auto simp: row_like_def)

lemma uf_ok_row:
  assumes "uf_ok t st" and "row_like base (uf_row st)" and "row_like base row"
  shows "uf_ok t (st\<lparr>uf_set := s, uf_row := row\<rparr>)"
proof -
  have st: "row_types (uf_row st) = [t]" "row_wf (uf_row st)" using assms(1) by (simp_all add: uf_ok_def)
  note like = row_like_fields [OF assms(2)] row_like_fields [OF assms(3)]
  have types: "row_types row = [t]" using like st(1) by metis
  have "row_width (uf_row st) = 1" using st by (simp add: row_wf_def)
  then have "row_width row = 1" "length (row_values row) = 1" using like by metis+
  then have "row_wf row" using types by (simp add: row_wf_def)
  then show ?thesis using assms(1) types by (simp add: uf_ok_def)
qed

text \<open>What \<open>accept\<close> does on the object of a thread is a run of its additions.\<close>

lemma thread_adds_efold:
  "i < length fs \<Longrightarrow> efold thread_add (map (Pair i) xs) (fs, h) = emap (\<lambda>(f, h). (fs[i := f], h)) (efold filter_add xs (fs ! i, h))"
proof (induction xs arbitrary: fs h)
  case (Cons x xs)
  have step: "thread_add (i, x) (fs, h) = emap (\<lambda>(f, h). (fs[i := f], h)) (filter_add x (fs ! i, h))"
    using Cons.prems by (simp add: thread_add_def vec_at_def)
  show ?case
  proof (cases "filter_add x (fs ! i, h)")
    case (Inr fh)
    obtain f1 h1 where "fh = (f1, h1)" by fastforce
    then show ?thesis using step Inr Cons.IH [of "fs[i := f1]" h1] Cons.prems by simp
  qed (simp add: step)
qed simp

lemma filter_accept_adds:
  assumes "i < length fs" and "filter_accept r (fs ! i, h) = Inr (ok, f', h')"
  obtains xs where "class_updates (fo_class (fs ! i)) (hp_sets h (fo_set (fs ! i))) r = Inr xs"
    and "efold thread_add (map (Pair i) xs) (fs, h) = Inr (fs[i := f'], h')"
  using assms(2) by (auto simp: filter_accept_def ebind_eq_Inr emap_eq_Inr thread_adds_efold [OF assms(1)])

text \<open>The objects of a run of \<open>pmap\<close>, and the one state they come to.\<close>

definition runs_as :: "char \<Rightarrow> row \<Rightarrow> filter_object \<Rightarrow> filter_object list \<times> heap \<Rightarrow> filter_state \<Rightarrow> bool" where
  "runs_as t base f fh st \<longleftrightarrow> uf_ok t st \<and> row_like base (uf_row st) \<and> hp_frames (snd fh) (fo_df f) = uf_df st
     \<and> list_all (\<lambda>c. filter_equals c f \<and> row_like base (fo_row c)) (fst fh)"

lemma thread_add_runs:
  assumes "runs_as t base f (fs, h) st" and "i < length fs" and "cell_type x = t"
  shows "\<exists>fs' st'. thread_add (i, x) (fs, h) = Inr (fs', h\<lparr>hp_frames := (hp_frames h)(fo_df f := uf_df st')\<rparr>)
    \<and> length fs' = length fs \<and> uf_add x st = Inr st'
    \<and> runs_as t base f (fs', h\<lparr>hp_frames := (hp_frames h)(fo_df f := uf_df st')\<rparr>) st'"
proof -
  let ?c = "fs ! i"
  have st: "uf_ok t st" "row_like base (uf_row st)" "hp_frames h (fo_df f) = uf_df st"
    and all: "list_all (\<lambda>c. filter_equals c f \<and> row_like base (fo_row c)) fs"
    using assms(1) by (simp_all add: runs_as_def)
  then have c: "fo_df ?c = fo_df f" "filter_equals ?c f" "row_like base (fo_row ?c)"
    using assms(2) by (auto simp: list_all_length filter_equals_def ptr_equality_def)
  let ?st = "\<lparr>uf_set = hp_sets h (fo_set ?c), uf_df = uf_df st, uf_row = fo_row ?c\<rparr>"
  have "uf_ok t (st\<lparr>uf_set := hp_sets h (fo_set ?c), uf_row := fo_row ?c\<rparr>)" by (rule uf_ok_row [OF st(1,2) c(3)])
  then have ok: "uf_ok t ?st" by (simp add: uf_ok_def)
  have "row_like base (uf_row ?st)" using c(3) by simp
  note local = uf_add_base [OF ok assms(3) this] and one = uf_add_base [OF st(1) assms(3) st(2)]
  obtain st' where st': "uf_add x st = Inr st'" "uf_ok t st'" using uf_add_ok [OF st(1) assms(3)] by blast
  then have row: "uf_row st' = base\<lparr>row_values := [x]\<rparr>" and df: "df_add_row (base\<lparr>row_values := [x]\<rparr>) (uf_df st) = Inr (uf_df st')"
    unfolding one by (auto simp: emap_eq_Inr)
  let ?fs = "fs[i := ?c\<lparr>fo_row := uf_row st'\<rparr>]"
  have "thread_add (i, x) (fs, h) = Inr (?fs, h\<lparr>hp_frames := (hp_frames h)(fo_df f := uf_df st')\<rparr>)"
    using assms(2) by (simp add: thread_add_def filter_add_def vec_at_def c(1) st(3) local df row)
  moreover have "filter_equals (?c\<lparr>fo_row := uf_row st'\<rparr>) f" "row_like base (uf_row st')"
    using c(2) row by (auto simp: filter_equals_def ptr_equality_def row_like_def)
  then have "list_all (\<lambda>c. filter_equals c f \<and> row_like base (fo_row c)) ?fs"
    using all assms(2) by (simp add: list_all_length nth_list_update)
  with st'(2) \<open>row_like base (uf_row st')\<close>
  have "runs_as t base f (?fs, h\<lparr>hp_frames := (hp_frames h)(fo_df f := uf_df st')\<rparr>) st'" by (simp add: runs_as_def)
  ultimately show ?thesis using st'(1) by (intro exI [of _ ?fs] exI [of _ st']) simp
qed

lemma thread_adds_run:
  assumes "runs_as t base f (fs, h) st" and "\<forall>(i, x)\<in>set sched. i < length fs \<and> cell_type x = t"
  shows "\<exists>fs' st'. efold thread_add sched (fs, h) = Inr (fs', h\<lparr>hp_frames := (hp_frames h)(fo_df f := uf_df st')\<rparr>)
    \<and> length fs' = length fs \<and> efold uf_add (map snd sched) st = Inr st'
    \<and> runs_as t base f (fs', h\<lparr>hp_frames := (hp_frames h)(fo_df f := uf_df st')\<rparr>) st'"
  using assms
proof (induction sched arbitrary: fs h st)
  case Nil
  have "h\<lparr>hp_frames := (hp_frames h)(fo_df f := uf_df st)\<rparr> = h"
    using Nil.prems(1) by (simp add: runs_as_def fun_upd_idem)
  then show ?case using Nil.prems(1) by (simp del: fun_upd_apply)
next
  case (Cons ix sched)
  obtain i x where ix: "ix = (i, x)" by fastforce
  let ?h = "\<lambda>st. h\<lparr>hp_frames := (hp_frames h)(fo_df f := uf_df st)\<rparr>"
  have "i < length fs" "cell_type x = t" using Cons.prems(2) ix by auto
  from thread_add_runs [OF Cons.prems(1) this] obtain fs1 st1 where 1: "thread_add (i, x) (fs, h) = Inr (fs1, ?h st1)"
    "length fs1 = length fs" "uf_add x st = Inr st1" "runs_as t base f (fs1, ?h st1) st1" by blast
  have "\<forall>(i, x)\<in>set sched. i < length fs1 \<and> cell_type x = t" using Cons.prems(2) 1(2) by auto
  from Cons.IH [OF 1(4) this] obtain fs' st' where 2: "efold thread_add sched (fs1, ?h st1) = Inr (fs', ?h st')"
    "length fs' = length fs1" "efold uf_add (map snd sched) st1 = Inr st'" "runs_as t base f (fs', ?h st') st'"
    by (auto simp del: fun_upd_apply)
  have "efold thread_add (ix # sched) (fs, h) = Inr (fs', ?h st')" using 1(1) 2(1) by (simp only: ix efold.simps ebind_simps)
  moreover have "efold uf_add (map snd (ix # sched)) st = Inr st'" using 1(3) 2(3) ix by simp
  ultimately show ?case using 1(2) 2(2,4) by (intro exI [of _ fs'] exI [of _ st']) (simp del: fun_upd_apply efold.simps(2))
qed

section \<open>Properties\<close>

lemma class_type:
  obtains t where "class_types cls = [t]" and "t \<in> type_chars"
  by (cases cls) (auto simp: type_chars_def intro: that)

lemma uf_new_row: "uf_new types src = Inr st \<Longrightarrow> row_of_schema (df_schema (uf_df st)) = Inr (uf_row st)"
  by (auto simp: uf_new_def ebind_eq_Inr)

lemma row_like_self: "length (row_values r) = 1 \<Longrightarrow> row_like r r"
  by (cases r) (auto simp: row_like_def length_Suc_conv)

text \<open>Finishing needs the last owner, whose frame is then the caller's.\<close>

lemma filter_finish_last:
  assumes "hp_count h (fo_df f) = 1" and "fo_df f < hp_next h" and "df_copy (hp_frames h (fo_df f)) = Inr copy"
  shows "\<exists>f' h'. filter_finish f h = Inr (fo_df f, f', h') \<and> hp_count h' (fo_df f) = 1
    \<and> (\<forall>a < hp_next h. hp_frames h' a = hp_frames h a)"
  using assms by (simp add: filter_finish_def heap_defs)

text \<open>An object and its clones, and additions in any order.\<close>

lemma clones_run:
  assumes "int_frame src" and "\<forall>(i, x)\<in>set sched. i \<le> n \<and> [cell_type x] = class_types cls"
  shows "\<exists>f h1 fs h2 fs' h3 st st' f' h4.
      filter_new cls src h = Inr (f, h1) \<and> filter_clones n f h1 = Inr (fs, h2) \<and> list_all (\<lambda>c. filter_equals c f) fs
    \<and> uf_new (class_types cls) src = Inr st \<and> uf_set st = frame_ints src \<and> hp_sets h3 (fo_set f) = frame_ints src
    \<and> efold uf_add (map snd sched) st = Inr st' \<and> (\<exists>copy. df_copy (uf_df st') = Inr copy)
    \<and> efold thread_add sched (f # fs, h2) = Inr (fs', h3) \<and> (0 < n \<longrightarrow> filter_finish (hd fs') h3 = Inl Abort)
    \<and> filter_finish (hd fs') (fold filter_destroy (tl fs') h3) = Inr (fo_df f, f', h4)
    \<and> hp_frames h4 (fo_df f) = uf_df st' \<and> hp_count h4 (fo_df f) = 1 \<and> (\<forall>a < hp_next h. hp_frames h4 a = hp_frames h a)"
proof -
  obtain t where t: "class_types cls = [t]" "t \<in> type_chars" by (rule class_type)
  obtain st where st: "uf_new (class_types cls) src = Inr st" "uf_ok t st" and ints: "uf_set st = frame_ints src"
    using uf_new_ok [OF t(2) assms(1)] t(1) by auto
  obtain f h1 where f: "filter_new cls src h = Inr (f, h1)" "fo_row f = uf_row st"
    "hp_frames h1 = (hp_frames h)(fo_df f := uf_df st)" "hp_count h1 (fo_df f) = 1" "hp_next h \<le> fo_df f" "fo_df f < hp_next h1"
    "hp_sets h1 (fo_set f) = uf_set st"
    by (rule filter_new_state [OF st(1), of h])
  have row: "row_of_schema (df_schema (hp_frames h1 (fo_df f))) = Inr (fo_row f)" using uf_new_row [OF st(1)] f(2,3) by simp
  let ?fs = "replicate n f" and ?h2 = "shares n f h1"
  have clones: "filter_clones n f h1 = Inr (?fs, ?h2)" using filter_clones_shares [OF row, of n 0] by simp
  have "row_like (uf_row st) (uf_row st)" using st(2) by (intro row_like_self) (simp add: uf_ok_def row_wf_def)
  then have "runs_as t (uf_row st) f (f # ?fs, ?h2) st"
    using st(2) f(2,3) by (auto simp: runs_as_def filter_equals_def ptr_equality_def list_all_iff)
  moreover have "\<forall>(i, x)\<in>set sched. i < length (f # ?fs) \<and> cell_type x = t" using assms(2) t(1) by auto
  ultimately obtain fs' st' where run: "efold thread_add sched (f # ?fs, ?h2) = Inr (fs', ?h2\<lparr>hp_frames := (hp_frames ?h2)(fo_df f := uf_df st')\<rparr>)"
    "length fs' = Suc n" "efold uf_add (map snd sched) st = Inr st'" and as: "runs_as t (uf_row st) f (fs', ?h2\<lparr>hp_frames := (hp_frames ?h2)(fo_df f := uf_df st')\<rparr>) st'"
    using thread_adds_run by (metis length_Cons length_replicate)
  let ?F = "(hp_frames h1)(fo_df f := uf_df st')" and ?h3 = "?h2\<lparr>hp_frames := (hp_frames ?h2)(fo_df f := uf_df st')\<rparr>"
  have h3: "?h3 = shares n f (h1\<lparr>hp_frames := ?F\<rparr>)" by simp
  obtain c cs where fs': "fs' = c # cs" "length cs = n" using run(2) by (cases fs') auto
  have same: "fo_df c = fo_df f" "list_all (\<lambda>c. ptr_equality c f) cs"
    using as fs' by (auto simp: runs_as_def filter_equals_def ptr_equality_def list_all_iff)
  have "hp_count ?h3 (fo_df f) \<noteq> 1" if "0 < n" using that f(4) by (simp add: shares_def)
  then have early: "0 < n \<longrightarrow> filter_finish (hd fs') ?h3 = Inl Abort" using fs' same(1) by (auto simp: filter_finish_def)
  have left: "fold filter_destroy (tl fs') ?h3 = h1\<lparr>hp_frames := ?F\<rparr>"
    using filter_destroys_shares [OF same(2), of "h1\<lparr>hp_frames := ?F\<rparr>"] fs' h3 by simp
  have "uf_ok t st'" using as by (simp add: runs_as_def)
  then obtain copy where copy: "df_copy (uf_df st') = Inr copy" using df_copy_rect unfolding uf_ok_def df_rect_def by metis
  obtain f' h4 where "filter_finish c (h1\<lparr>hp_frames := ?F\<rparr>) = Inr (fo_df f, f', h4)" "hp_count h4 (fo_df f) = 1"
    "\<forall>a < hp_next h1. hp_frames h4 a = ?F a"
    using filter_finish_last [of "h1\<lparr>hp_frames := ?F\<rparr>" c copy] f(4,6) same(1) copy by auto
  moreover from this(3) f(3,5,6) have "hp_frames h4 (fo_df f) = uf_df st'" "\<forall>a < hp_next h. hp_frames h4 a = hp_frames h a" by auto
  moreover have "list_all (\<lambda>c. filter_equals c f) ?fs" by (auto simp: list_all_iff filter_equals_def ptr_equality_def)
  ultimately show ?thesis
    using f(1,7) clones st(1) ints run(1,3) copy early left fs'
    by (intro exI [of _ f] exI [of _ h1] exI [of _ ?fs] exI [of _ ?h2] exI [of _ fs'] exI [of _ ?h3] exI [of _ st] exI [of _ st']
        exI [of _ f'] exI [of _ h4]) simp
qed

section \<open>Property\<close>

lemma interleave_map: "interleave xss ys \<Longrightarrow> interleave (map (map f) xss) (map f ys)"
proof (induction rule: interleave.induct)
  case (interleave_done xss)
  then show ?case by (auto intro!: interleave.interleave_done)
next
  case (interleave_step i xss x xs ys)
  then show ?case by (auto intro!: interleave.interleave_step [of i] simp: map_update)
qed

text \<open>The additions of every thread, with its number.\<close>

definition tag_threads :: "'a list list \<Rightarrow> (nat \<times> 'a) list list" where
  "tag_threads progs = map (\<lambda>(i, xs). map (Pair i) xs) (enumerate 0 progs)"

lemma untag_threads: "map (map snd) (tag_threads progs) = progs"
  unfolding tag_threads_def by (rule nth_equalityI) (simp_all add: nth_enumerate_eq comp_def)

lemma tag_threads_elem: "ts \<in> set (tag_threads progs) \<Longrightarrow> (i, x) \<in> set ts \<Longrightarrow> i < length progs \<and> (\<exists>xs\<in>set progs. x \<in> set xs)"
  by (force simp: tag_threads_def in_set_enumerate_eq)

text \<open>What a thread adds is what \<open>accept\<close> of the class adds for some row, and of the type of its frame.\<close>

lemma emapM_elem: "emapM f xs = Inr ys \<Longrightarrow> y \<in> set ys \<Longrightarrow> \<exists>x\<in>set xs. f x = Inr y"
  by (induction xs arbitrary: ys) (auto simp: ebind_eq_Inr emap_eq_Inr)

lemma class_updates_typed: "class_updates cls ints r = Inr xs \<Longrightarrow> x \<in> set xs \<Longrightarrow> [cell_type x] = class_types cls"
  by (cases cls) (auto simp: uutp_updates_def ptuu_updates_def uutn_updates_def ebind_eq_Inr emap_eq_Inr split: if_splits)

lemma threads_typed:
  assumes "ebind (thread_rows df) (emapM (thread_updates df (class_updates cls ints))) = Inr progs"
    and "xs \<in> set progs" and "x \<in> set xs"
  shows "[cell_type x] = class_types cls"
proof -
  obtain runs where runs: "emapM (thread_updates df (class_updates cls ints)) runs = Inr progs"
    using assms(1) by (auto simp: ebind_eq_Inr)
  obtain "is" where "thread_updates df (class_updates cls ints) is = Inr xs" using emapM_elem [OF runs assms(2)] by blast
  then obtain xss where xss: "xs = concat xss"
    "emapM (\<lambda>i. ebind (row_of_schema (df_schema df)) (\<lambda>row. ebind (df_fill_row df i row) (class_updates cls ints))) is = Inr xss"
    by (auto simp: thread_updates_def emap_eq_Inr)
  from assms(3) xss(1) obtain ys where ys: "ys \<in> set xss" "x \<in> set ys" by auto
  from emapM_elem [OF xss(2) ys(1)] obtain r where "class_updates cls ints r = Inr ys" by (auto simp: ebind_eq_Inr)
  then show ?thesis by (rule class_updates_typed) (rule ys(2))
qed

text \<open>
  C13: A filter and the clones that \<open>pmap\<close> makes of it write into one frame. Whatever the order in which the
  threads add what they find, each with the row of its own clone, all objects read the same set, and the
  frame the filter hands out is that of a run of the filter as one state, which is what the theorems on Linus
  are about. It can only be handed out when the clones are gone, as \<open>finish_filter\<close> asserts; then it has no
  owner but the caller, and no other frame has changed.
\<close>

theorem clones_share_frame:
  assumes "int_frame src"
    and "ebind (thread_rows df) (emapM (thread_updates df (class_updates cls (frame_ints src)))) = Inr progs"
    and "interleave (tag_threads progs) sched"
  shows "\<exists>f h1 fs h2 fs' h3 f' h4. filter_new cls src h = Inr (f, h1)
    \<and> filter_clones (length progs - 1) f h1 = Inr (fs, h2) \<and> list_all (\<lambda>c. filter_equals c f) fs
    \<and> efold thread_add sched (f # fs, h2) = Inr (fs', h3) \<and> hp_sets h3 (fo_set f) = frame_ints src
    \<and> (1 < length progs \<longrightarrow> filter_finish (hd fs') h3 = Inl Abort)
    \<and> filter_finish (hd fs') (fold filter_destroy (tl fs') h3) = Inr (fo_df f, f', h4)
    \<and> filter_run (class_types cls) (class_updates cls) src df (Inr (hp_frames h4 (fo_df f)))
    \<and> hp_count h4 (fo_df f) = 1 \<and> (\<forall>a < hp_next h. hp_frames h4 a = hp_frames h a)"
proof -
  let ?n = "length progs - 1"
  have "set sched = set (concat (tag_threads progs))" using interleave_mset [OF assms(3)] by (rule mset_eq_setD)
  then have "i < length progs \<and> (\<exists>xs\<in>set progs. x \<in> set xs)" if "(i, x) \<in> set sched" for i x
    using that tag_threads_elem by fastforce
  then have sched: "\<forall>(i, x)\<in>set sched. i \<le> ?n \<and> [cell_type x] = class_types cls"
    using threads_typed [OF assms(2)] by fastforce
  have order: "interleave progs (map snd sched)" using interleave_map [OF assms(3), of snd] by (simp add: untag_threads)
  from clones_run [OF assms(1) sched, of h] show ?thesis
  proof (elim exE conjE)
    fix f h1 fs h2 fs' h3 st st' f' h4 copy
    assume st: "uf_new (class_types cls) src = Inr st" "uf_set st = frame_ints src"
      and adds: "efold uf_add (map snd sched) st = Inr st'" and copy: "df_copy (uf_df st') = Inr copy"
      and frame: "hp_frames h4 (fo_df f) = uf_df st'"
      and run: "filter_new cls src h = Inr (f, h1)" "filter_clones ?n f h1 = Inr (fs, h2)" "list_all (\<lambda>c. filter_equals c f) fs"
        "efold thread_add sched (f # fs, h2) = Inr (fs', h3)" "hp_sets h3 (fo_set f) = frame_ints src"
        "0 < ?n \<longrightarrow> filter_finish (hd fs') h3 = Inl Abort"
        "filter_finish (hd fs') (fold filter_destroy (tl fs') h3) = Inr (fo_df f, f', h4)"
        "hp_count h4 (fo_df f) = 1" "\<forall>a < hp_next h. hp_frames h4 a = hp_frames h a"
    have "pmap_shared df (class_updates cls (uf_set st)) uf_add st (Inr st')"
      using pmap_threads [where apply_update = uf_add and s = st, OF assms(2) order] adds st(2) by simp
    from filter_runs [where updates = "class_updates cls", OF st(1) this] have "filter_run (class_types cls) (class_updates cls) src df (Inr (hp_frames h4 (fo_df f)))"
      by (simp add: uf_finish_def copy frame)
    with run show ?thesis
      by (intro exI [of _ f] exI [of _ h1] exI [of _ fs] exI [of _ h2] exI [of _ fs'] exI [of _ h3] exI [of _ f'] exI [of _ h4]) simp
  qed
qed

definition hp_empty :: heap where
  "hp_empty = \<lparr>hp_next = 1, hp_count = (\<lambda>_. 0), hp_sets = (\<lambda>_. {}), hp_frames = (\<lambda>_. df_empty)\<rparr>"

text \<open>Two threads over ten thousand users, of whom all are looked for.\<close>

theorem clones_share_frame_witness:
  "\<exists>df progs f h1 fs h2 fs' h3 f' h4. length progs = 2 \<and> df_nrows df = 10000
     \<and> filter_new UUIDsToNames (df_add_column (int_column_of [5]) None df_empty) hp_empty = Inr (f, h1)
     \<and> filter_clones 1 f h1 = Inr (fs, h2) \<and> efold thread_add (concat (tag_threads progs)) (f # fs, h2) = Inr (fs', h3)
     \<and> filter_finish (hd fs') h3 = Inl Abort
     \<and> filter_finish (hd fs') (fold filter_destroy (tl fs') h3) = Inr (fo_df f, f', h4)
     \<and> filter_run ''S'' uutn_updates (df_add_column (int_column_of [5]) None df_empty) df (Inr (hp_frames h4 (fo_df f)))"
proof -
  let ?c = "int_column_of [5]"
  let ?src = "df_add_column ?c None df_empty"
  let ?df = "df_of_columns [int_column_of (replicate 10000 5), string_column_of (replicate 10000 ''ada'')]"
  have src: "int_frame ?src" using one_column_rows [of ?c] by (simp add: int_frame_def column_of_view)
  have df: "df_rect ?df" "df_nrows ?df = 10000" by (subst columns_frame; simp add: column_of_view)+
  have cells: "df_row_cells ?df i = [IntCell (Some 5), StringCell (Some ''ada'')]" if "i < 10000" for i
    using that by (simp add: df_row_cells_def column_of_view)
  have "user_frame ?df" using df cells by (auto simp: user_frame_def df_rows_def list_all_iff)
  then have updates: "class_updates UUIDsToNames (frame_ints ?src) (frame_row ?df i) =
      Inr (name_cells (frame_ints ?src) (df_row_cells ?df i))" if "i < df_nrows ?df" for i
    using uutn_updates_user that by simp
  obtain bounds where "thread_bounds 2 5000 10000 = Inr bounds" "length bounds = 2"
    by (rule thread_bounds_cover [of 2 5000 10000]) simp_all
  then have "thread_rows ?df = Inr (map (\<lambda>(a, b). [a..<b]) bounds)" and "length bounds = 2"
    by (simp_all add: thread_rows_def df(2) THREAD_ROWS_def MAX_THREADS_def)
  with thread_programs [where updates = "class_updates UUIDsToNames (frame_ints ?src)" and g = "name_cells (frame_ints ?src)",
      OF df(1) updates] obtain progs where
    progs: "ebind (thread_rows ?df) (emapM (thread_updates ?df (class_updates UUIDsToNames (frame_ints ?src)))) = Inr progs"
    and two: "length progs = 2" by (metis length_map)
  from clones_share_frame [OF src progs interleave_sequential, of hp_empty] show ?thesis
  proof (elim exE conjE)
    fix f h1 fs h2 fs' h3 f' h4
    assume run: "filter_new UUIDsToNames ?src hp_empty = Inr (f, h1)" "filter_clones (length progs - 1) f h1 = Inr (fs, h2)"
      "efold thread_add (concat (tag_threads progs)) (f # fs, h2) = Inr (fs', h3)"
      "1 < length progs \<longrightarrow> filter_finish (hd fs') h3 = Inl Abort"
      "filter_finish (hd fs') (fold filter_destroy (tl fs') h3) = Inr (fo_df f, f', h4)"
      "filter_run (class_types UUIDsToNames) (class_updates UUIDsToNames) ?src ?df (Inr (hp_frames h4 (fo_df f)))"
    have "length progs - 1 = 1" "1 < length progs" using two by simp_all
    with run two df(2) show ?thesis
      by (intro exI [of _ ?df] exI [of _ progs] exI [of _ f] exI [of _ h1] exI [of _ fs] exI [of _ h2] exI [of _ fs']
          exI [of _ h3] exI [of _ f'] exI [of _ h4]) (simp del: filter_clones.simps)
  qed
qed

end
