(* ===== verification/SorerAdapter.thy ===== *)
theory SorerAdapter
  imports DataFrame Decimal
begin

text \<open>
  \<open>src/adapter/sorer_dataframe_adapter.cpp\<close>: a dataframe from a file, through the SoR parser of
  another group. The parser is not part of the repository: what it answers is the record
  \<open>sor_parser\<close>, a parameter of every definition, as is \<open>std::stod\<close>.
\<close>

datatype sor_type = SOR_BOOL | SOR_INT | SOR_FLOAT | SOR_STRING

record sor_parser =
  sor_ncols :: nat
  sor_type :: "nat \<Rightarrow> sor_type"
  sor_get :: "nat \<Rightarrow> nat \<Rightarrow> string option res"  \<comment> \<open>\<open>getColIdx(col, row)\<close>\<close>

fun sor_char :: "sor_type \<Rightarrow> char" where
  "sor_char SOR_BOOL = CHR ''B''"
| "sor_char SOR_INT = CHR ''I''"
| "sor_char SOR_FLOAT = CHR ''F''"
| "sor_char SOR_STRING = CHR ''S''"

definition initialize_schema :: "sor_parser \<Rightarrow> schema" where
  "initialize_schema p = schema_of_types (map (\<lambda>i. sor_char (sor_type p i)) [0..<sor_ncols p])"

text \<open>A present value is converted, a missing one stays missing; a parser exception goes on.\<close>

definition parse_value :: "(string \<Rightarrow> 'a res) \<Rightarrow> sor_parser \<Rightarrow> nat \<Rightarrow> nat \<Rightarrow> 'a option res" where
  "parse_value convert p col row =
     ebind (sor_get p col row) (\<lambda>v. case v of None \<Rightarrow> Inr None | Some s \<Rightarrow> emap Some (convert s))"

definition parse_int :: "sor_parser \<Rightarrow> nat \<Rightarrow> nat \<Rightarrow> i32 option res" where
  "parse_int = parse_value (\<lambda>s. emap word_of_int (stoi s))"

definition parse_bool :: "sor_parser \<Rightarrow> nat \<Rightarrow> nat \<Rightarrow> bool option res" where
  "parse_bool = parse_value (\<lambda>s. emap (\<lambda>i. i \<noteq> 0) (stoi s))"

definition parse_float :: "(string \<Rightarrow> f64 res) \<Rightarrow> sor_parser \<Rightarrow> nat \<Rightarrow> nat \<Rightarrow> f64 option res" where
  "parse_float stod = parse_value stod"

definition parse_string :: "sor_parser \<Rightarrow> nat \<Rightarrow> nat \<Rightarrow> string option res" where
  "parse_string p col row = sor_get p col row"

definition parse_cell :: "(string \<Rightarrow> f64 res) \<Rightarrow> sor_parser \<Rightarrow> nat \<Rightarrow> nat \<Rightarrow> cell res" where
  "parse_cell stod p c row =
     (case sor_type p c of
        SOR_INT \<Rightarrow> emap IntCell (parse_int p c row)
      | SOR_BOOL \<Rightarrow> emap BoolCell (parse_bool p c row)
      | SOR_FLOAT \<Rightarrow> emap FloatCell (parse_float stod p c row)
      | SOR_STRING \<Rightarrow> emap StringCell (parse_string p c row))"

text \<open>
  The loop of \<open>parse_and_fill_row\<close>: any exception ends the row and reports failure, the end
  of the file and a malformed number alike. Other faults are not exceptions.
\<close>

fun fill_from :: "(string \<Rightarrow> f64 res) \<Rightarrow> sor_parser \<Rightarrow> nat \<Rightarrow> nat list \<Rightarrow> row \<Rightarrow> (bool \<times> row) res" where
  "fill_from stod p r [] row = Inr (True, row)"
| "fill_from stod p r (c # cs) row =
     (case ebind (parse_cell stod p c r) (\<lambda>x. row_set c x row) of
        Inl (Throw e) \<Rightarrow> Inr (False, row)
      | Inl f \<Rightarrow> Inl f
      | Inr row' \<Rightarrow> fill_from stod p r cs row')"

definition parse_and_fill_row :: "(string \<Rightarrow> f64 res) \<Rightarrow> sor_parser \<Rightarrow> nat \<Rightarrow> row \<Rightarrow> (bool \<times> row) res" where
  "parse_and_fill_row stod p r row = fill_from stod p r [0..<sor_ncols p] (row_set_index r row)"

text \<open>The loop over the rows ends with the first row that fails; it need not end.\<close>

partial_function (option) parse_rows ::
  "(string \<Rightarrow> f64 res) \<Rightarrow> sor_parser \<Rightarrow> nat \<Rightarrow> row \<Rightarrow> dataframe \<Rightarrow> dataframe res option" where
  "parse_rows stod p r row df =
     (case parse_and_fill_row stod p r row of
        Inl f \<Rightarrow> Some (Inl f)
      | Inr (ok, row) \<Rightarrow>
          if \<not> ok then Some (Inr df)
          else (case df_add_row row df of
              Inl f \<Rightarrow> Some (Inl f)
            | Inr df \<Rightarrow> parse_rows stod p (Suc r) row df))"

definition parse_file :: "(string \<Rightarrow> f64 res) \<Rightarrow> sor_parser option \<Rightarrow> dataframe option res option" where
  "parse_file stod parser =
     (case parser of
        None \<Rightarrow> Some (Inr None)
      | Some p \<Rightarrow>
          (case ebind (df_of_schema (initialize_schema p)) (\<lambda>df. emap (Pair df) (row_of_schema (df_schema df))) of
             Inl f \<Rightarrow> Some (Inl f)
           | Inr (df, row) \<Rightarrow> map_option (emap Some) (parse_rows stod p 0 row df)))"

section \<open>One row\<close>

definition sor_types :: "sor_parser \<Rightarrow> char list" where
  "sor_types p = map (\<lambda>i. sor_char (sor_type p i)) [0..<sor_ncols p]"

text \<open>The cells of row \<open>r\<close>, when each of them can be parsed.\<close>

definition sor_row :: "(string \<Rightarrow> f64 res) \<Rightarrow> sor_parser \<Rightarrow> nat \<Rightarrow> cell list res" where
  "sor_row stod p r = emapM (\<lambda>c. parse_cell stod p c r) [0..<sor_ncols p]"

lemma sor_char_in: "sor_char t \<in> type_chars"
  by (cases t) (simp_all add: type_chars_def)

lemma parse_cell_type: "parse_cell stod p c r = Inr x \<Longrightarrow> cell_type x = sor_char (sor_type p c)"
  by (auto simp: parse_cell_def emap_eq_Inr split: sor_type.splits)

lemma fill_from_good:
  assumes "row_wf row" and "row_types row = sor_types p" and "length vs = sor_ncols p"
    and "k \<le> sor_ncols p" and "\<forall>c < sor_ncols p. parse_cell stod p c r = Inr (vs ! c)"
    and "take k (row_values row) = take k vs"
  shows "fill_from stod p r [k..<sor_ncols p] row = Inr (True, row\<lparr>row_values := vs\<rparr>)"
  using assms
proof (induction "sor_ncols p - k" arbitrary: k row)
  case 0
  have "length (row_types row) = sor_ncols p" by (simp add: 0(3) sor_types_def)
  then have "length (row_values row) = sor_ncols p" using 0(2) by (simp add: row_wf_def)
  moreover have "k = sor_ncols p" using 0(1,5) by simp
  ultimately have "row_values row = vs" using 0(4,7) by simp
  then show ?case by (simp add: \<open>k = sor_ncols p\<close>)
next
  case (Suc n)
  then have k: "k < sor_ncols p" by simp
  have "length (row_types row) = sor_ncols p" by (simp add: Suc.prems(2) sor_types_def)
  then have width: "row_width row = sor_ncols p" "length (row_values row) = sor_ncols p"
    using Suc.prems(1) by (simp_all add: row_wf_def)
  have cell: "parse_cell stod p k r = Inr (vs ! k)" using Suc.prems(5) k by blast
  have "cell_type (vs ! k) = sor_types p ! k"
    using parse_cell_type [OF cell] k by (simp add: sor_types_def)
  then have set: "row_set k (vs ! k) row = Inr (row\<lparr>row_values := (row_values row)[k := vs ! k]\<rparr>)"
    using row_set_typed [OF Suc.prems(1)] k width Suc.prems(2) by simp
  let ?row = "row\<lparr>row_values := (row_values row)[k := vs ! k]\<rparr>"
  have "fill_from stod p r [Suc k..<sor_ncols p] ?row = Inr (True, ?row\<lparr>row_values := vs\<rparr>)"
  proof (rule Suc.hyps(1))
    show "take (Suc k) (row_values ?row) = take (Suc k) vs"
      using k width Suc.prems(3,6) by (simp add: take_Suc_conv_app_nth)
    show "row_wf ?row" using Suc.prems(1) by (simp add: row_wf_def)
  qed (use Suc.hyps(2) Suc.prems k in simp_all)
  moreover have "[k..<sor_ncols p] = k # [Suc k..<sor_ncols p]" using k by (rule upt_conv_Cons)
  ultimately show ?case by (simp add: cell set)
qed

lemma parse_and_fill_row_good:
  assumes "row_wf row" and "row_types row = sor_types p" and "sor_row stod p r = Inr vs"
  shows "parse_and_fill_row stod p r row = Inr (True, row\<lparr>row_index := r, row_values := vs\<rparr>)"
    and "map cell_type vs = sor_types p"
proof -
  have collect: "length ys = length cs \<and> (\<forall>i<length cs. parse_cell stod p (cs ! i) r = Inr (ys ! i))"
    if "emapM (\<lambda>c. parse_cell stod p c r) cs = Inr ys" for cs ys
    using that
  proof (induction cs arbitrary: ys)
    case (Cons c cs)
    then obtain z zs where "parse_cell stod p c r = Inr z" "ys = z # zs"
      "emapM (\<lambda>c. parse_cell stod p c r) cs = Inr zs"
      by (auto simp: ebind_eq_Inr emap_eq_Inr)
    with Cons.IH [of zs] show ?case by (auto simp: nth_Cons split: nat.split)
  qed simp
  then have vs: "length vs = sor_ncols p" "\<forall>c < sor_ncols p. parse_cell stod p c r = Inr (vs ! c)"
    using collect [of "[0..<sor_ncols p]" vs] assms(3) by (simp_all add: sor_row_def)
  then show "map cell_type vs = sor_types p"
    by (intro nth_equalityI) (auto simp: sor_types_def dest: parse_cell_type)
  have "fill_from stod p r [0..<sor_ncols p] (row_set_index r row) =
      Inr (True, (row_set_index r row)\<lparr>row_values := vs\<rparr>)"
    using assms(1,2) vs by (intro fill_from_good) (simp_all add: row_set_index_def row_wf_def)
  then show "parse_and_fill_row stod p r row = Inr (True, row\<lparr>row_index := r, row_values := vs\<rparr>)"
    by (simp add: parse_and_fill_row_def row_set_index_def)
qed

text \<open>The first cell that throws makes the row fail, whatever the exception is.\<close>

lemma parse_and_fill_row_throws:
  assumes "row_wf row" and "row_types row = sor_types p" and "c < sor_ncols p"
    and "\<forall>j<c. \<exists>x. parse_cell stod p j r = Inr x" and "parse_cell stod p c r = Inl (Throw e)"
  shows "\<exists>row'. parse_and_fill_row stod p r row = Inr (False, row')"
proof -
  have "\<exists>row'. fill_from stod p r [k..<sor_ncols p] row = Inr (False, row')"
    if "row_wf row" and "row_types row = sor_types p" and "k \<le> c" for k row
    using that
  proof (induction "c - k" arbitrary: k row)
    case 0
    then have "[k..<sor_ncols p] = c # [Suc c..<sor_ncols p]" using assms(3) by (simp add: upt_conv_Cons)
    then show ?case using assms(5) by simp
  next
    case (Suc n)
    then have k: "k < c" "k < sor_ncols p" using assms(3) by simp_all
    then obtain x where x: "parse_cell stod p k r = Inr x" using assms(4) by blast
    have "length (row_types row) = sor_ncols p" by (simp add: Suc.prems(2) sor_types_def)
    then have "k < row_width row" using Suc.prems(1) k by (simp add: row_wf_def)
    moreover have "row_types row ! k = cell_type x"
      using parse_cell_type [OF x] k by (simp add: Suc.prems(2) sor_types_def)
    ultimately have set: "row_set k x row = Inr (row\<lparr>row_values := (row_values row)[k := x]\<rparr>)"
      using row_set_typed [OF Suc.prems(1)] by simp
    have "row_wf (row\<lparr>row_values := (row_values row)[k := x]\<rparr>)" using Suc.prems(1) by (simp add: row_wf_def)
    then have "\<exists>row'. fill_from stod p r [Suc k..<sor_ncols p] (row\<lparr>row_values := (row_values row)[k := x]\<rparr>) = Inr (False, row')"
      using Suc.hyps(2) Suc.prems k by (intro Suc.hyps(1)) simp_all
    moreover have "[k..<sor_ncols p] = k # [Suc k..<sor_ncols p]" using k(2) by (rule upt_conv_Cons)
    ultimately show ?case by (simp add: x set)
  qed
  from this [of "row_set_index r row" 0] assms(1,2) show ?thesis
    by (simp add: parse_and_fill_row_def row_set_index_def row_wf_def)
qed

section \<open>A file\<close>

lemma parse_rows_prefix:
  assumes "df_rect df" and "map col_get_type (df_columns df) = sor_types p" and "sor_ncols p \<noteq> 0"
    and "row_wf row" and "row_types row = sor_types p"
    and "\<forall>i<length cells. sor_row stod p (r + i) = Inr (cells ! i)"
    and "c < sor_ncols p" and "\<forall>j<c. \<exists>x. parse_cell stod p j (r + length cells) = Inr x"
    and "parse_cell stod p c (r + length cells) = Inl (Throw e)"
  shows "\<exists>df'. parse_rows stod p r row df = Some (Inr df') \<and> df_rect df'
    \<and> df_rows df' = df_rows df @ cells \<and> map col_get_type (df_columns df') = sor_types p"
  using assms
proof (induction cells arbitrary: r row df)
  case Nil
  obtain row' where "parse_and_fill_row stod p r row = Inr (False, row')"
    using parse_and_fill_row_throws [of row p c stod r e] Nil.prems by auto
  then show ?case using Nil.prems(1,2) by (subst parse_rows.simps) simp
next
  case (Cons vs cells)
  have "sor_row stod p r = Inr vs" using Cons.prems(6) by force
  note good = parse_and_fill_row_good [OF Cons.prems(4,5) this]
  let ?row = "row\<lparr>row_index := r, row_values := vs\<rparr>"
  have "length (row_types row) = length vs" using arg_cong [OF good(2), of length] by (simp add: Cons.prems(5))
  then have wf: "row_wf ?row" using Cons.prems(4) by (simp add: row_wf_def)
  have filled: "row_filled ?row" using wf good(2) by (simp add: row_filled_def Cons.prems(5))
  have types: "row_types ?row = map col_get_type (df_columns df)" by (simp add: Cons.prems(2,5))
  have ne: "df_columns df \<noteq> []"
    using arg_cong [OF Cons.prems(2), of length] Cons.prems(3) by (auto simp: sor_types_def)
  obtain df1 where 1: "df_add_row ?row df = Inr df1" "df_rect df1" "df_rows df1 = df_rows df @ [vs]"
    "map col_get_type (df_columns df1) = map col_get_type (df_columns df)"
    using df_add_row_rows [OF Cons.prems(1) ne filled types] by auto
  have "\<exists>df'. parse_rows stod p (Suc r) ?row df1 = Some (Inr df') \<and> df_rect df'
    \<and> df_rows df' = df_rows df1 @ cells \<and> map col_get_type (df_columns df') = sor_types p"
  proof (rule Cons.IH [OF 1(2) _ Cons.prems(3) wf])
    show "map col_get_type (df_columns df1) = sor_types p" using 1(4) Cons.prems(2) by simp
    show "\<forall>i<length cells. sor_row stod p (Suc r + i) = Inr (cells ! i)"
      using Cons.prems(6) by fastforce
  qed (use Cons.prems(5,7,8,9) in simp_all)
  then show ?case using good(1) 1(1,3) by (subst parse_rows.simps) simp
qed

text \<open>
  C40: The frame of a file holds the rows before the first cell that throws, and only those: at the end of
  the file, and just as well at a number that does not fit an \<open>int\<close>.
\<close>

theorem parse_file_prefix:
  assumes "sor_ncols p \<noteq> 0" and "\<forall>i<length cells. sor_row stod p i = Inr (cells ! i)"
    and "c < sor_ncols p" and "\<forall>j<c. \<exists>x. parse_cell stod p j (length cells) = Inr x"
    and "parse_cell stod p c (length cells) = Inl (Throw e)"
  shows "\<exists>df. parse_file stod (Some p) = Some (Inr (Some df)) \<and> df_rect df \<and> df_rows df = cells
    \<and> map col_get_type (df_columns df) = sor_types p"
proof -
  let ?s = "initialize_schema p"
  have "set (sor_types p) \<subseteq> type_chars" using sor_char_in by (auto simp: sor_types_def)
  then have "plain_types (sor_types p)" by (auto simp: plain_types_def type_chars_def)
  then have types: "sch_types ?s = sor_types p"
    by (simp add: initialize_schema_def schema_of_plain_types sor_types_def [symmetric] del: schema_of_types_fields)
  have wf: "schema_wf ?s" by (simp add: initialize_schema_def schema_ops_wf del: schema_of_types_fields)
  have chars: "set (sch_types ?s) \<subseteq> type_chars" using sor_char_in by (auto simp: types sor_types_def)
  obtain df where df: "df_of_schema ?s = Inr df" using df_of_schema_eq [OF wf chars] by blast
  note df_facts = df_of_schema_typed [OF wf chars df]
  have cols: "map col_get_type (df_columns df) = sor_types p"
    using df_facts(1,3) types by (simp add: df_typed_def)
  have ne: "df_columns df \<noteq> []"
    using arg_cong [OF cols, of length] assms(1) by (auto simp: sor_types_def)
  have nrows: "df_nrows df = 0" using df_facts(2) ne by (simp add: df_nrows_def df_ncols_def)
  have rect: "df_rect df" using df_facts(1,2) by (simp add: df_rect_def nrows)
  obtain row where row: "row_of_schema (df_schema df) = Inr row" "row_wf row" "row_types row = sor_types p"
    using row_of_schema_eq [OF wf] wf types by (simp add: df_facts(3) row_wf_def schema_wf_def)
  have "\<exists>df'. parse_rows stod p 0 row df = Some (Inr df') \<and> df_rect df'
    \<and> df_rows df' = df_rows df @ cells \<and> map col_get_type (df_columns df') = sor_types p"
    using assms(2-5) by (intro parse_rows_prefix [OF rect cols assms(1) row(2,3)]) simp_all
  moreover have "df_rows df = []" by (simp add: df_rows_def nrows)
  ultimately show ?thesis using df row(1) by (auto simp: parse_file_def)
qed

theorem parse_file_prefix_witness:
  "\<exists>df. parse_file (\<lambda>_. Inl (Throw InvalidArgument))
       (Some \<lparr>sor_ncols = 1, sor_type = (\<lambda>_. SOR_INT),
          sor_get = (\<lambda>c r. Inr (Some (if r = 1 then ''99999999999'' else ''12'')))\<rparr>) = Some (Inr (Some df))
     \<and> df_rows df = [[IntCell (Some 12)]]"
proof -
  let ?p = "\<lparr>sor_ncols = 1, sor_type = (\<lambda>_. SOR_INT),
      sor_get = (\<lambda>c r. Inr (Some (if r = 1 then ''99999999999'' else ''12'')))\<rparr>"
  have "stoi ''12'' = Inr 12" "stoi ''99999999999'' = Inl (Throw OutOfRange)"
    by (simp_all add: stoi_def is_space_def is_digit_def digits_value_def)
  then have "parse_cell stod ?p 0 0 = Inr (IntCell (Some 12))" "parse_cell stod ?p 0 1 = Inl (Throw OutOfRange)" for stod
    by (simp_all add: parse_cell_def parse_int_def parse_value_def)
  then show ?thesis
    using parse_file_prefix [of ?p "[[IntCell (Some 12)]]" "\<lambda>_. Inl (Throw InvalidArgument)" 0 OutOfRange]
    by (auto simp: sor_row_def)
qed

text \<open>A parser without columns keeps the loop going for ever.\<close>

lemma parse_rows_returns:
  "parse_rows stod p r row df = Some y \<Longrightarrow> sor_ncols p = 0 \<Longrightarrow> df_columns df = [] \<Longrightarrow> False"
proof (induction stod p r row df y rule: parse_rows.raw_induct [rotated, consumes 1, case_names step])
  case (step f stod p r row df y)
  have "parse_and_fill_row stod p r row = Inr (True, row_set_index r row)"
    using step(3) by (simp add: parse_and_fill_row_def)
  moreover have "df_add_row (row_set_index r row) df = Inr df" using step(4) by (simp add: df_add_row_def)
  ultimately show ?case using step by simp
qed

lemma parse_file_no_columns: "sor_ncols p = 0 \<Longrightarrow> parse_file stod (Some p) = None"
proof -
  assume no_cols: "sor_ncols p = 0"
  then have s: "initialize_schema p = schema_empty"
    by (simp add: initialize_schema_def schema_of_types_def)
  have df: "df_of_schema schema_empty = Inr df_empty"
    by (simp add: df_of_schema_def schema_empty_def df_empty_def)
  obtain row where row: "row_of_schema (df_schema df_empty) = Inr row"
    by (simp add: row_of_schema_def df_empty_def schema_empty_def)
  have "parse_rows stod p 0 row df_empty = None"
    using parse_rows_returns [of stod p 0 row df_empty] no_cols by (cases "parse_rows stod p 0 row df_empty") (auto simp: df_empty_def)
  then show ?thesis using s df row by (simp add: parse_file_def)
qed

end
