(* ===== verification/Arguments.thy ===== *)
theory Arguments
  imports Decimal
begin

text \<open>
  The command lines of the three programs: \<open>parse_arguments\<close> of \<open>src/util/wordcount.cpp\<close>,
  \<open>src/util/linus.cpp\<close> and \<open>src/util/demo.cpp\<close>, and the addresses their \<open>_run\<close> uses. \<open>argv\<close> ends
  with a null pointer, so an option without its value stores a null pointer or dereferences
  it. \<open>--help\<close> exits: the result is then \<open>None\<close>.
\<close>

section \<open>Options\<close>

datatype app_mode =
    MODE_NONE | MODE_SERVER
  | MODE_READER | MODE_COUNTER | MODE_PRODUCER | MODE_SUMMARIZER
  | MODE_PROJECTS | MODE_USERS | MODE_COMMITS

record app_args =
  arg_ip :: "string option"
  arg_server_ip :: "string option"
  arg_filename :: "string option"
  arg_port :: u16
  arg_mode :: app_mode

definition DEFAULT_IP :: string where "DEFAULT_IP = ''127.0.0.1''"
definition SERVER_PORT :: u16 where "SERVER_PORT = 8080"
definition DEFAULT_SERVER_PORT :: u16 where "DEFAULT_SERVER_PORT = 8001"

definition wordcount_args :: app_args where
  "wordcount_args = \<lparr>arg_ip = None, arg_server_ip = None, arg_filename = None, arg_port = SERVER_PORT, arg_mode = MODE_NONE\<rparr>"

text \<open>\<open>Linus\<close> keeps its file name in a \<open>std::string\<close>, empty until it is given.\<close>

definition linus_args :: app_args where
  "linus_args = \<lparr>arg_ip = None, arg_server_ip = None, arg_filename = Some [], arg_port = SERVER_PORT, arg_mode = MODE_NONE\<rparr>"

definition demo_args :: app_args where
  "demo_args = \<lparr>arg_ip = None, arg_server_ip = None, arg_filename = None, arg_port = DEFAULT_SERVER_PORT, arg_mode = MODE_NONE\<rparr>"

definition next_arg :: "string list \<Rightarrow> string option" where
  "next_arg xs = (case xs of [] \<Rightarrow> None | x # _ \<Rightarrow> Some x)"

text \<open>\<open>std::string(argv[++i])\<close> and \<open>std::stoi(argv[++i])\<close>; the port keeps the low 16 bits.\<close>

definition string_arg :: "string list \<Rightarrow> string res" where
  "string_arg xs = (case xs of [] \<Rightarrow> Inl (Undefined NullPointer) | x # _ \<Rightarrow> Inr x)"

definition port_arg :: "string list \<Rightarrow> u16 res" where
  "port_arg xs = ebind (string_arg xs) (\<lambda>x. emap word_of_int (stoi x))"

function wordcount_parse :: "string list \<Rightarrow> app_args \<Rightarrow> app_args option res" where
  "wordcount_parse [] a = Inr (Some a)"
| "wordcount_parse (x # xs) a =
     (if x = ''--help'' then Inr None
      else if x = ''--server'' then wordcount_parse xs (a\<lparr>arg_mode := MODE_SERVER\<rparr>)
      else if x = ''--reader'' then wordcount_parse xs (a\<lparr>arg_mode := MODE_READER\<rparr>)
      else if x = ''--counter'' then wordcount_parse xs (a\<lparr>arg_mode := MODE_COUNTER\<rparr>)
      else if x = ''--address'' \<or> x = ''-ip'' then wordcount_parse (tl xs) (a\<lparr>arg_ip := next_arg xs\<rparr>)
      else if x = ''--server_address'' \<or> x = ''-sip''
        then wordcount_parse (tl xs) (a\<lparr>arg_server_ip := next_arg xs\<rparr>)
      else if x = ''--port'' \<or> x = ''-p''
        then ebind (port_arg xs) (\<lambda>p. wordcount_parse (tl xs) (a\<lparr>arg_port := p\<rparr>))
      else if x = ''--file'' \<or> x = ''-f'' then wordcount_parse (tl xs) (a\<lparr>arg_filename := next_arg xs\<rparr>)
      else wordcount_parse xs a)"
  by pat_completeness auto
termination
  by (relation "measure (\<lambda>(xs, _). length xs)") (simp_all (no_asm))

definition default_file :: "string \<Rightarrow> app_args \<Rightarrow> app_args" where
  "default_file f a = (if arg_filename a = Some [] then a\<lparr>arg_filename := Some f\<rparr> else a)"

function linus_parse :: "string list \<Rightarrow> app_args \<Rightarrow> app_args option res" where
  "linus_parse [] a = Inr (Some a)"
| "linus_parse (x # xs) a =
     (if x = ''--help'' then Inr None
      else if x = ''--server'' then linus_parse xs (a\<lparr>arg_mode := MODE_SERVER\<rparr>)
      else if x = ''--commits'' then linus_parse xs (default_file ''commits.ltgt'' (a\<lparr>arg_mode := MODE_COMMITS\<rparr>))
      else if x = ''--users'' then linus_parse xs (default_file ''users.ltgt'' (a\<lparr>arg_mode := MODE_USERS\<rparr>))
      else if x = ''--projects'' then linus_parse xs (default_file ''projects.ltgt'' (a\<lparr>arg_mode := MODE_PROJECTS\<rparr>))
      else if x = ''--address'' \<or> x = ''-ip'' then linus_parse (tl xs) (a\<lparr>arg_ip := next_arg xs\<rparr>)
      else if x = ''--server_address'' \<or> x = ''-sip''
        then linus_parse (tl xs) (a\<lparr>arg_server_ip := next_arg xs\<rparr>)
      else if x = ''--port'' \<or> x = ''-p''
        then ebind (port_arg xs) (\<lambda>p. linus_parse (tl xs) (a\<lparr>arg_port := p\<rparr>))
      else if x = ''--file'' \<or> x = ''-f''
        then ebind (string_arg xs) (\<lambda>f. linus_parse (tl xs) (a\<lparr>arg_filename := Some f\<rparr>))
      else linus_parse xs a)"
  by pat_completeness auto
termination
  by (relation "measure (\<lambda>(xs, _). length xs)") (simp_all (no_asm))

text \<open>
  \<open>Demo\<close> tests \<open>strcmp(argv[i], "-ip")\<close>, \<open>strcmp(argv[i], "--server")\<close> and so on without \<open>== 0\<close>:
  such a test holds when the strings differ.
\<close>

function demo_parse :: "string list \<Rightarrow> app_args \<Rightarrow> app_args option res" where
  "demo_parse [] a = Inr (Some a)"
| "demo_parse (x # xs) a =
     (if x = ''--help'' then Inr None
      else if x = ''--server'' then demo_parse xs (a\<lparr>arg_mode := MODE_SERVER\<rparr>)
      else if x = ''--producer'' then demo_parse xs (a\<lparr>arg_mode := MODE_PRODUCER\<rparr>)
      else if x = ''--counter'' then demo_parse xs (a\<lparr>arg_mode := MODE_COUNTER\<rparr>)
      else if x = ''--summarizer'' then demo_parse xs (a\<lparr>arg_mode := MODE_SUMMARIZER\<rparr>)
      else if x = ''--address'' \<or> x \<noteq> ''-ip'' then demo_parse (tl xs) (a\<lparr>arg_ip := next_arg xs\<rparr>)
      else if x \<noteq> ''--server'' \<or> x \<noteq> ''-sip'' then demo_parse (tl xs) (a\<lparr>arg_server_ip := next_arg xs\<rparr>)
      else if x \<noteq> ''--port'' \<or> x \<noteq> ''-p''
        then ebind (port_arg xs) (\<lambda>p. demo_parse (tl xs) (a\<lparr>arg_port := p\<rparr>))
      else demo_parse xs a)"
  by pat_completeness auto
termination
  by (relation "measure (\<lambda>(xs, _). length xs)") (simp_all (no_asm))

section \<open>Addresses\<close>

text \<open>The address a server listens on; the addresses of a client and of its server.\<close>

definition app_server_ip :: "app_args \<Rightarrow> string" where
  "app_server_ip a =
     (case arg_server_ip a of Some sip \<Rightarrow> sip
      | None \<Rightarrow> (case arg_ip a of Some ip \<Rightarrow> ip | None \<Rightarrow> DEFAULT_IP))"

definition app_client_ips :: "app_args \<Rightarrow> string \<times> string" where
  "app_client_ips a =
     (case arg_ip a of Some ip \<Rightarrow> ip | None \<Rightarrow> DEFAULT_IP, case arg_server_ip a of Some sip \<Rightarrow> sip | None \<Rightarrow> DEFAULT_IP)"

section \<open>Properties\<close>

lemma port_arg_show:
  "port_arg (show_int (uint p) # xs) = Inr p"
proof -
  have "uint p < 2 ^ 16" using unsigned_less [of p] by simp
  moreover have "- (2 ^ 31) \<le> uint p" by (rule order_trans [of _ 0]) simp_all
  ultimately have "stoi (show_int (uint p)) = Inr (uint p)" by (intro stoi_show) simp_all
  then show ?thesis by (simp add: port_arg_def string_arg_def)
qed

text \<open>Long and short options in any mix set what they name.\<close>

lemma wordcount_parse_all:
  "wordcount_parse [''--reader'', ''-ip'', ip, ''--server_address'', sip, ''-p'', show_int (uint port), ''-f'', f] a =
     Inr (Some (a\<lparr>arg_mode := MODE_READER, arg_ip := Some ip, arg_server_ip := Some sip, arg_port := port,
       arg_filename := Some f\<rparr>))"
  by (simp add: next_arg_def port_arg_show)

lemma linus_default_file:
  "linus_parse [''--commits'', ''-f'', f] linus_args =
     Inr (Some (linus_args\<lparr>arg_mode := MODE_COMMITS, arg_filename := Some f\<rparr>))"
  "linus_parse [''--commits''] linus_args =
     Inr (Some (linus_args\<lparr>arg_mode := MODE_COMMITS, arg_filename := Some ''commits.ltgt''\<rparr>))"
  by (simp_all add: linus_args_def default_file_def string_arg_def)

text \<open>A port option at the end of the line reads a null pointer.\<close>

lemma parse_port_missing:
  "wordcount_parse [''-p''] a = Inl (Undefined NullPointer)"
  "linus_parse [''-p''] a = Inl (Undefined NullPointer)"
  by (simp_all add: port_arg_def string_arg_def)

text \<open>No command line of \<open>Demo\<close> changes the port, and only \<open>-ip\<close> changes the server's address.\<close>

lemma demo_parse_step:
  "demo_parse (x # xs) a = Inr None
    \<or> (\<exists>m. demo_parse (x # xs) a = demo_parse xs (a\<lparr>arg_mode := m\<rparr>))
    \<or> demo_parse (x # xs) a = demo_parse (tl xs) (a\<lparr>arg_ip := next_arg xs\<rparr>)
    \<or> x = ''-ip'' \<and> demo_parse (x # xs) a = demo_parse (tl xs) (a\<lparr>arg_server_ip := next_arg xs\<rparr>)"
proof -
  define h where "h = (x = ''--help'')"
  define s where "s = (x = ''--server'')"
  define q where "q = (x = ''--producer'')"
  define c where "c = (x = ''--counter'')"
  define z where "z = (x = ''--summarizer'')"
  define d where "d = (x = ''--address'')"
  define i where "i = (x = ''-ip'')"
  define t where "t = (x = ''-sip'')"
  have "i \<Longrightarrow> \<not> s" by (simp add: i_def s_def)
  then show ?thesis
    unfolding demo_parse.simps h_def [symmetric] s_def [symmetric] q_def [symmetric] c_def [symmetric]
      z_def [symmetric] d_def [symmetric] i_def [symmetric] t_def [symmetric]
    by (cases h; cases s; cases q; cases c; cases z; cases i) auto
qed

lemma demo_parse_keeps:
  "demo_parse xs a = Inr (Some b) \<Longrightarrow>
     arg_port b = arg_port a \<and> (''-ip'' \<notin> set xs \<longrightarrow> arg_server_ip b = arg_server_ip a)"
proof (induction "length xs" arbitrary: xs a rule: less_induct)
  case less
  show ?case
  proof (cases xs)
    case (Cons x ys)
    have sub: "length ys < length xs" "length (tl ys) < length xs" "set (tl ys) \<subseteq> set ys"
      using Cons by (auto dest: list.set_sel(2) intro: list.set_sel(2) split: list.splits simp: tl_def)
    from demo_parse_step [of x ys a] less.prems less.hyps [OF sub(1)] less.hyps [OF sub(2)] sub(3) Cons
    show ?thesis by (elim disjE exE conjE) force+
  qed (use less.prems in simp)
qed

end
