(* ===== verification/Cluster.thy ===== *)
theory Cluster
  imports System Arguments
begin

text \<open>
  The nodes of a running program, whose parts hand frames to each other through the distributed store
  (\<open>KVStore::set\<close> and \<open>KVStore::get\<close> in \<open>src/data/kvstore.cpp\<close> on each of them), and the steps of their
  network threads. The programs differ in their roles and in who stores which key; what they share
  is proved once, in the locale \<open>cluster\<close>. At the end, how \<open>main\<close> and \<open>_run\<close> of an application get to its node.
\<close>

section \<open>Reachable states\<close>

text \<open>A step has a new state, or the failure that ends the program.\<close>

inductive reaches :: "('s \<Rightarrow> 's res \<Rightarrow> bool) \<Rightarrow> 's \<Rightarrow> 's \<Rightarrow> bool" for step s where
  reaches_refl: "reaches step s s"
| reaches_step: "reaches step s s' \<Longrightarrow> step s' (Inr s'') \<Longrightarrow> reaches step s s''"

lemma reaches_one: "step s (Inr s') \<Longrightarrow> reaches step s s'"
  by (rule reaches_step [OF reaches_refl])

lemma reaches_trans: "reaches step s' s'' \<Longrightarrow> reaches step s s' \<Longrightarrow> reaches step s s''"
  by (induction rule: reaches.induct) (auto intro: reaches_step)

lemma reaches_inv:
  assumes "reaches step s s'" and "P s" and "\<And>s s'. P s \<Longrightarrow> step s (Inr s') \<Longrightarrow> P s'"
  shows "P s'"
  using assms by (induction rule: reaches.induct) blast+

lemma reaches_mono:
  assumes "reaches step s s'" and "\<And>s s'. step s (Inr s') \<Longrightarrow> step' (f s) (Inr (f s'))"
  shows "reaches step' (f s) (f s')"
  using assms by (induction rule: reaches.induct) (auto intro: reaches_refl reaches_step)

text \<open>A system that can always do something useful can finish.\<close>

lemma reaches_done:
  assumes "P s" and "\<And>s. P s \<Longrightarrow> \<not> ready s \<Longrightarrow> \<exists>s'. reaches step s s' \<and> P s' \<and> left s' < (left s :: nat)"
  shows "\<exists>s'. reaches step s s' \<and> P s' \<and> ready s'"
  using assms(1)
proof (induction "left s" arbitrary: s rule: less_induct)
  case less
  show ?case
  proof (cases "ready s")
    case True
    with less.prems show ?thesis by (intro exI [of _ s]) (simp add: reaches_refl)
  next
    case False
    then obtain s1 where s1: "reaches step s s1" "P s1" "left s1 < left s" using assms(2) less.prems by blast
    from less.hyps [OF s1(3,2)] obtain s' where "reaches step s1 s'" "P s'" "ready s'" by blast
    with reaches_trans [OF _ s1(1)] show ?thesis by blast
  qed
qed

section \<open>Nodes\<close>

type_synonym 'r nodes = "'r \<Rightarrow> client"

abbreviation store_view :: "'r nodes \<Rightarrow> 'r \<Rightarrow> string \<Rightarrow> dataframe option" where
  "store_view ns r \<equiv> kv_view (cl_store (ns r))"

abbreviation store_remote :: "'r nodes \<Rightarrow> 'r \<Rightarrow> string \<Rightarrow> sockaddr option" where
  "store_remote ns r \<equiv> kv_remote_view (cl_store (ns r))"

definition put_store :: "'r \<Rightarrow> kvstore \<Rightarrow> 'r nodes \<Rightarrow> 'r nodes" where
  "put_store r st ns = ns(r := (ns r)\<lparr>cl_store := st\<rparr>)"

text \<open>
  What a request for a key on another node brings back: the answer the node makes, as it is decoded
  (\<open>System\<close> has the way of both through the connections). The address tells the node. That the code uses an
  iterator once more after erasing it when the answer arrives (\<open>Client.ctc_parse_request_response\<close>) is left out
  here.
\<close>

definition fetch :: "'r list \<Rightarrow> ('r \<Rightarrow> sockaddr) \<Rightarrow> 'r nodes \<Rightarrow> kv_key \<Rightarrow> dataframe option res" where
  "fetch roles addr ns k =
     (case find (\<lambda>r. sockaddr_eq (addr r) (key_node k)) roles of
        None \<Rightarrow> Inr None
      | Some r \<Rightarrow> ebind (ctc_get_requested_value (key_name k) (ns r))
          (\<lambda>p. emap snd (decode_response (pk_value p))))"

definition lookup :: "'r list \<Rightarrow> ('r \<Rightarrow> sockaddr) \<Rightarrow> 'r nodes \<Rightarrow> 'r \<Rightarrow> string \<Rightarrow> dataframe option res" where
  "lookup roles addr ns r n = kv_get (Some (fetch roles addr ns)) (cl_store (ns r)) (key_of n)"

text \<open>
  \<open>get_or_wait\<close> with a timeout, for which other nodes are waited for: it returns what a lookup finds, or a null
  pointer when the time is over. One without a timeout (\<open>timeout_ms = 0\<close>) is a step when the frame can be had.
\<close>

inductive waited :: "'r list \<Rightarrow> ('r \<Rightarrow> sockaddr) \<Rightarrow> 'r nodes \<Rightarrow> 'r \<Rightarrow> string \<Rightarrow> dataframe option res \<Rightarrow> bool"
  for roles addr ns r n where
  waited_found: "lookup roles addr ns r n = Inr (Some df) \<Longrightarrow> waited roles addr ns r n (Inr (Some df))"
| waited_failed: "lookup roles addr ns r n = Inl e \<Longrightarrow> waited roles addr ns r n (Inl e)"
| waited_too_long: "waited roles addr ns r n (Inr None)"

inductive_cases waitedE: "waited roles addr ns r n v"

text \<open>The loop of \<open>get_or_wait\<close> has no other results, whatever the states \<open>ns i\<close> in which it polls.\<close>

lemma kv_get_or_wait_waited:
  assumes "kv_get_or_wait clock (\<lambda>i. lookup roles addr (ns i) r n) timeout i None = Some v"
  shows "\<exists>j. waited roles addr (ns j) r n v"
  using kv_get_or_wait_outcome [OF assms] waited.intros
  by (metis not_None_eq old.sum.exhaust)

text \<open>
  The network threads. A node is connected when its thread has made the connection to the server, which it does
  before it accepts or makes others; connected nodes announce their keys to each other.
\<close>

inductive net_step :: "('r \<Rightarrow> sockaddr) \<Rightarrow> 'r nodes \<Rightarrow> 'r nodes res \<Rightarrow> bool" for addr ns where
  net_initial: "cl_server_conn (ns r) = None \<Longrightarrow> net_step addr ns (Inr (ns(r := client_initial sock (ns r))))"
| net_announce: "a \<noteq> b \<Longrightarrow> cl_server_conn (ns a) \<noteq> None \<Longrightarrow> cl_server_conn (ns b) \<noteq> None \<Longrightarrow> cn_other c = addr a
    \<Longrightarrow> net_step addr ns
     (emap (\<lambda>(_, _, cl). ns(b := cl)) (ctc_update_keys (ctc_key_packet (ns a)) c (ns b)))"

inductive_cases net_stepE: "net_step addr ns r"

lemma put_store_view [simp]:
  "put_store r st ns q = (if q = r then (ns r)\<lparr>cl_store := st\<rparr> else ns q)"
  by (simp add: put_store_def)

lemma put_store_same [simp]: "put_store r (cl_store (ns r)) ns = ns"
  by (simp add: put_store_def)

lemma client_initial_store [simp]: "cl_store (client_initial sock cl) = cl_store cl"
  by (simp add: client_initial_def split: prod.split)

text \<open>Different nodes have different addresses, as far as \<open>sockaddr_eq\<close> sees.\<close>

definition addrs_apart :: "('r \<Rightarrow> sockaddr) \<Rightarrow> bool" where
  "addrs_apart addr \<longleftrightarrow> (\<forall>r r'. sockaddr_eq (addr r) (addr r') \<longrightarrow> r = r')"

text \<open>Every node stores its own keys only, and what it knows of others is true.\<close>

definition stores_own :: "('r \<Rightarrow> string \<Rightarrow> bool) \<Rightarrow> ('r \<Rightarrow> sockaddr) \<Rightarrow> 'r nodes \<Rightarrow> bool" where
  "stores_own owns addr ns \<longleftrightarrow> (\<forall>r n. store_view ns r n \<noteq> None \<longrightarrow> owns r n)
     \<and> (\<forall>r n a. store_remote ns r n = Some a \<longrightarrow> (\<exists>r'. r' \<noteq> r \<and> a = addr r' \<and> store_view ns r' n \<noteq> None))"

lemma stores_ownD:
  assumes "stores_own owns addr ns"
  shows "store_view ns r n \<noteq> None \<Longrightarrow> owns r n"
    and "store_remote ns r n = Some a \<Longrightarrow> \<exists>r'. r' \<noteq> r \<and> a = addr r' \<and> store_view ns r' n \<noteq> None"
  using assms unfolding stores_own_def by blast+

lemma stores_own_views:
  assumes "\<And>r. store_view ns' r = store_view ns r" and "\<And>r. store_remote ns' r = store_remote ns r"
  shows "stores_own owns addr ns' = stores_own owns addr ns"
  using assms by (simp add: stores_own_def)

text \<open>A node that knows of keys on other nodes has its connection to the server.\<close>

definition knows_connected :: "'r nodes \<Rightarrow> bool" where
  "knows_connected ns \<longleftrightarrow> (\<forall>r n. store_remote ns r n \<noteq> None \<longrightarrow> cl_server_conn (ns r) \<noteq> None)"

lemma knows_connected_net:
  assumes "net_step addr ns (Inr ns')" and "knows_connected ns"
  shows "knows_connected ns'"
  using assms(1)
proof cases
  case (net_initial r sock)
  then have "store_remote ns r m = None" for m using assms(2) unfolding knows_connected_def by blast
  then show ?thesis using assms(2) net_initial by (simp add: knows_connected_def)
next
  case (net_announce a b c)
  then obtain st where "ns' = ns(b := (ns b)\<lparr>cl_store := st\<rparr>)"
    by (auto simp: ctc_update_keys_def ctc_key_packet_def packet_of_def emap_eq_Inr split: if_splits dest!: sym [of "Inr _"])
  then show ?thesis using assms(2) net_announce by (auto simp: knows_connected_def)
qed

lemma knows_connected_store:
  assumes "knows_connected ns"
  shows "knows_connected (put_store r (kv_set_store k df (cl_store (ns r))) ns)"
  using assms by (auto simp: knows_connected_def)

text \<open>A frame on its way to another node loses its names and keeps its cells.\<close>

lemma received_rows:
  assumes "df_rect df" and "df_columns df \<noteq> []"
  shows "df_rect (df_of_columns (df_columns df))" and "df_rows (df_of_columns (df_columns df)) = df_rows df"
    and "df_nrows (df_of_columns (df_columns df)) = df_nrows df"
proof -
  show n: "df_nrows (df_of_columns (df_columns df)) = df_nrows df" using assms(2) by (simp add: df_nrows_def df_ncols_def)
  have "df_typed (df_of_columns (df_columns df))"
    using assms(1) by (intro df_of_columns_typed) (simp add: df_rect_def df_typed_def)
  then show "df_rect (df_of_columns (df_columns df))" using assms n by (simp add: df_rect_def)
  show "df_rows (df_of_columns (df_columns df)) = df_rows df" by (rule df_of_columns_rows [OF assms(2)])
qed

text \<open>
  The keys of a program: every key belongs to at most one role, and key names are short enough to be
  sent.
\<close>

locale cluster =
  fixes roles :: "'r list" and owns :: "'r \<Rightarrow> string \<Rightarrow> bool"
  assumes all_roles: "r \<in> set roles"
    and owns_one: "owns r n \<Longrightarrow> owns r' n \<Longrightarrow> r = r'"
    and owns_ok: "owns r n \<Longrightarrow> ok_string n"
begin

lemma empty_own: "(\<And>r. cl_store (ns r) = kv_empty) \<Longrightarrow> stores_own owns addr ns"
  by (simp add: stores_own_def kv_view_map kv_remote_view_def kv_empty_def)

text \<open>A node can store its own keys.\<close>

lemma store_own_key:
  assumes "stores_own owns addr ns" and "owns r n"
  shows "kv_set (key_of n) df (cl_store (ns r)) = Inr (kv_set_store (key_of n) df (cl_store (ns r)))"
    and "stores_own owns addr (put_store r (kv_set_store (key_of n) df (cl_store (ns r))) ns)"
proof -
  let ?ns = "put_store r (kv_set_store (key_of n) df (cl_store (ns r))) ns"
  have "store_remote ns r n = None"
  proof (rule ccontr)
    assume "store_remote ns r n \<noteq> None"
    then obtain r' where "r' \<noteq> r" "owns r' n" using stores_ownD [OF assms(1)] by blast
    with assms(2) show False using owns_one by blast
  qed
  then show "kv_set (key_of n) df (cl_store (ns r)) = Inr (kv_set_store (key_of n) df (cl_store (ns r)))"
    by (simp add: kv_set_eq key_of_def)
  have "store_remote ?ns q = store_remote ns q" for q by simp
  moreover have "store_view ?ns q m \<noteq> None \<longleftrightarrow> store_view ns q m \<noteq> None \<or> q = r \<and> m = n" for q m
    by (auto simp: key_of_def)
  ultimately show "stores_own owns addr ?ns"
    using assms unfolding stores_own_def by (metis (no_types, lifting))
qed

text \<open>An announcement gives the receiver the sender's keys and changes nothing else.\<close>

lemma announce_ok:
  assumes "stores_own owns addr ns" and "a \<noteq> b" and "cn_other c = addr a"
  obtains st where
    "ctc_update_keys (ctc_key_packet (ns a)) c (ns b) = Inr (Success, c, (ns b)\<lparr>cl_store := st\<rparr>)"
    and "stores_own owns addr (put_store b st ns)" and "kv_view st = store_view ns b"
    and "\<And>n. kv_remote_view st n = (if store_view ns a n = None then store_remote ns b n else Some (addr a))"
proof -
  have "ok_string n" if "n \<in> set (kv_local_keys (cl_store (ns a)))" for n
  proof -
    have "store_view ns a n \<noteq> None" using that set_local_keys by auto
    then show ?thesis by (intro owns_ok stores_ownD(1) [OF assms(1)])
  qed
  then have "list_all ok_string (kv_local_keys (cl_store (ns a)))" by (simp add: list_all_iff)
  from ctc_update_keys_views [OF this, of c "ns b"] obtain st where st:
    "ctc_update_keys (ctc_key_packet (ns a)) c (ns b) = Inr (Success, c, (ns b)\<lparr>cl_store := st\<rparr>)"
    "kv_view st = store_view ns b"
    "\<And>n. kv_remote_view st n = (if store_view ns a n = None then store_remote ns b n else Some (addr a))"
    using assms(3) by auto
  have view: "store_view (put_store b st ns) r = store_view ns r" for r using st(2) by simp
  have remote: "store_remote (put_store b st ns) r n =
      (if r = b \<and> store_view ns a n \<noteq> None then Some (addr a) else store_remote ns r n)" for r n
    using st(3) by simp
  have "stores_own owns addr (put_store b st ns)"
    using assms(1,2) unfolding stores_own_def view remote by auto
  with that st show thesis by blast
qed

lemma net_step_ok:
  assumes step: "net_step addr ns r" and "stores_own owns addr ns"
  shows "\<exists>ns'. r = Inr ns' \<and> stores_own owns addr ns' \<and> (\<forall>q. store_view ns' q = store_view ns q)
     \<and> (\<forall>q. cl_server_conn (ns q) \<noteq> None \<longrightarrow> cl_server_conn (ns' q) \<noteq> None)"
  using step
proof cases
  case (net_initial q sock)
  let ?ns = "ns(q := client_initial sock (ns q))"
  have "stores_own owns addr ?ns = stores_own owns addr ns" by (rule stores_own_views) simp_all
  then show ?thesis using net_initial assms(2) by (intro exI [of _ ?ns]) auto
next
  case (net_announce a b c)
  from announce_ok [OF assms(2) net_announce(2,5)] obtain st where st:
    "ctc_update_keys (ctc_key_packet (ns a)) c (ns b) = Inr (Success, c, (ns b)\<lparr>cl_store := st\<rparr>)"
    "stores_own owns addr (put_store b st ns)" "kv_view st = store_view ns b" .
  have "r = Inr (put_store b st ns)" using net_announce(1) st(1) by (simp add: put_store_def)
  then show ?thesis using st(2,3) net_announce(4) by (intro exI [of _ "put_store b st ns"]) auto
qed

text \<open>
  A node that does not own a key gets the owner's frame, as it arrives, once it knows of the key, and
  nothing before.
\<close>

lemma find_role:
  assumes "addrs_apart addr"
  shows "find (\<lambda>r. sockaddr_eq (addr r) (addr q)) roles = Some q"
proof -
  have "find (\<lambda>r. sockaddr_eq (addr r) (addr q)) roles \<noteq> None"
    using all_roles [of q] by (auto simp: find_None_iff sockaddr_eq_equiv(1))
  then obtain r where r: "find (\<lambda>r. sockaddr_eq (addr r) (addr q)) roles = Some r" by blast
  then have "sockaddr_eq (addr r) (addr q)" by (auto simp: find_Some_iff)
  with assms r show ?thesis by (auto simp: addrs_apart_def)
qed

lemma lookup_other:
  assumes "stores_own owns addr ns" and "addrs_apart addr" and "owns q n" and "q \<noteq> r"
    and "\<forall>df. store_view ns q n = Some df \<longrightarrow> df_ok df"
  shows "(case store_remote ns r n of
      None \<Rightarrow> lookup roles addr ns r n = Inr None
    | Some a \<Rightarrow> \<exists>df. store_view ns q n = Some df \<and> lookup roles addr ns r n = Inr (Some (df_of_columns (df_columns df))))"
proof -
  have local: "store_view ns r n = None"
    using stores_ownD(1) [OF assms(1)] owns_one [OF assms(3)] assms(4) by blast
  show ?thesis
  proof (cases "store_remote ns r n")
    case None
    with local show ?thesis by (simp add: lookup_def kv_get_view key_of_def)
  next
    case (Some a)
    then obtain r' where r': "a = addr r'" "store_view ns r' n \<noteq> None" using stores_ownD(2) [OF assms(1)] by blast
    then have "r' = q" using stores_ownD(1) [OF assms(1)] owns_one [OF assms(3)] by blast
    then obtain df where df: "a = addr q" "store_view ns q n = Some df" using r' by blast
    have "ok_string n" "df_ok df" using owns_ok [OF assms(3)] assms(5) df(2) by simp_all
    then have "fetch roles addr ns \<lparr>key_name = n, key_node = a\<rparr> = Inr (Some (df_of_columns (df_columns df)))"
      using ctc_get_requested_value_decodes [of n "ns q"] df find_role [OF assms(2), of q]
      by (auto simp: fetch_def)
    with local Some df show ?thesis by (simp add: lookup_def kv_get_view key_of_def)
  qed
qed

lemma lookup_result:
  assumes "stores_own owns addr ns" and "addrs_apart addr" and "owns q n" and "q \<noteq> r"
    and "\<forall>df. store_view ns q n = Some df \<longrightarrow> df_ok df"
  shows "lookup roles addr ns r n \<noteq> Inl e"
    and "lookup roles addr ns r n = Inr (Some df') \<Longrightarrow>
       \<exists>df. store_view ns q n = Some df \<and> df' = df_of_columns (df_columns df)"
    and "lookup roles addr ns r n = Inr (Some df') \<Longrightarrow> store_remote ns r n \<noteq> None"
  using lookup_other [OF assms] by (auto split: option.splits)

text \<open>A key that is stored can be had by every node, if need be after steps of the network threads.\<close>

lemma can_connect:
  "\<exists>ns'. reaches (net_step addr) ns ns' \<and> cl_server_conn (ns' r) \<noteq> None \<and> (\<forall>q. cl_store (ns' q) = cl_store (ns q))
     \<and> (\<forall>q. cl_server_conn (ns q) \<noteq> None \<longrightarrow> cl_server_conn (ns' q) \<noteq> None)"
proof (cases "cl_server_conn (ns r)")
  case None
  let ?ns = "ns(r := client_initial (0, [], []) (ns r))"
  have "net_step addr ns (Inr ?ns)" using None by (rule net_initial)
  then have "reaches (net_step addr) ns ?ns" by (rule reaches_one)
  moreover have "cl_server_conn (?ns r) \<noteq> None" by (simp add: client_initial_def)
  moreover have "cl_store (?ns q) = cl_store (ns q)" for q by simp
  moreover have "cl_server_conn (ns q) \<noteq> None \<longrightarrow> cl_server_conn (?ns q) \<noteq> None" for q using None by simp
  ultimately show ?thesis by (intro exI [of _ ?ns] conjI allI)
next
  case (Some c)
  then show ?thesis by (intro exI [of _ ns]) (simp add: reaches_refl)
qed

lemma can_lookup:
  assumes own: "stores_own owns addr ns" and "addrs_apart addr" and "owns q n" and "q \<noteq> r"
    and "store_view ns q n \<noteq> None" and "\<forall>df. store_view ns q n = Some df \<longrightarrow> df_ok df"
  obtains ns' df where "reaches (net_step addr) ns ns'" and "lookup roles addr ns' r n = Inr (Some df)"
proof -
  obtain ns1 where ns1: "reaches (net_step addr) ns ns1" "cl_server_conn (ns1 q) \<noteq> None"
    "\<And>r. cl_store (ns1 r) = cl_store (ns r)" using can_connect [of addr ns q] by blast
  obtain ns2 where ns2: "reaches (net_step addr) ns1 ns2" "cl_server_conn (ns2 r) \<noteq> None" "cl_server_conn (ns2 q) \<noteq> None"
    "\<And>r. cl_store (ns2 r) = cl_store (ns1 r)" using can_connect [of addr ns1 r] ns1(2) by blast
  let ?c = "conn_new (addr q) [] []"
  have c: "cn_other ?c = addr q" by (simp add: conn_new_def)
  have "stores_own owns addr ns2 = stores_own owns addr ns" by (rule stores_own_views) (simp_all add: ns1(3) ns2(4))
  with own have own2: "stores_own owns addr ns2" by simp
  from announce_ok [OF own2 assms(4) c] obtain st where st:
    "ctc_update_keys (ctc_key_packet (ns2 q)) ?c (ns2 r) = Inr (Success, ?c, (ns2 r)\<lparr>cl_store := st\<rparr>)"
    "stores_own owns addr (put_store r st ns2)" "kv_view st = store_view ns2 r"
    "\<And>n. kv_remote_view st n = (if store_view ns2 q n = None then store_remote ns2 r n else Some (addr q))" by blast
  let ?ns = "put_store r st ns2"
  have "net_step addr ns2 (Inr ?ns)"
    using net_announce [of q r ns2 ?c addr] assms(4) ns2(2,3) c st(1) by (simp add: put_store_def)
  then have reach: "reaches (net_step addr) ns ?ns"
    using reaches_step [OF reaches_trans [OF ns2(1) ns1(1)]] by blast
  have view: "store_view ?ns p = store_view ns p" for p using st(3) by (simp add: ns1(3) ns2(4))
  moreover have "store_remote ?ns r n = Some (addr q)" using st(4) [of n] assms(5) by (simp add: ns1(3) ns2(4))
  ultimately obtain df where "lookup roles addr ?ns r n = Inr (Some df)"
    using lookup_other [OF st(2) assms(2,3,4)] assms(6) by auto
  with reach that show thesis by blast
qed

end

section \<open>\<open>_run\<close>\<close>

text \<open>
  What \<open>_run\<close> of an application comes to: the program exits, serves as the server, or does the work
  of a client's role next to its network thread. \<open>get_instance().lock()\<close> is a null pointer when the
  process is a node of the other kind.
\<close>

datatype launch = Exits int | Serves server | Works client

record machine =
  m_pton :: "string \<Rightarrow> u32 option"
  m_calls :: sock_calls
  m_addr :: sockaddr
  m_conns :: "nat \<Rightarrow> conn"
  m_ctcs :: "nat \<Rightarrow> ctc"

definition start_server :: "machine \<Rightarrow> app_args \<Rightarrow> node option \<Rightarrow> (bool \<times> node option) res" where
  "start_server m a inst =
     server_init (m_pton m) (m_calls m) (m_addr m) (m_conns m) (app_server_ip a) (arg_port a) inst"

definition start_client :: "machine \<Rightarrow> app_args \<Rightarrow> node option \<Rightarrow> (bool \<times> node option) res" where
  "start_client m a inst =
     (case app_client_ips a of (ip, sip) \<Rightarrow>
        client_init (m_pton m) (m_calls m) (m_addr m) (m_conns m) (m_ctcs m) ip sip (arg_port a) inst)"

definition serve :: "node option \<Rightarrow> launch res" where
  "serve inst = (case server_get_instance inst of None \<Rightarrow> Inl (Undefined NullPointer) | Some s \<Rightarrow> Inr (Serves s))"

definition work :: "node option \<Rightarrow> launch res" where
  "work inst = (case client_get_instance inst of None \<Rightarrow> Inl (Undefined NullPointer) | Some cl \<Rightarrow> Inr (Works cl))"

definition wordcount_run :: "machine \<Rightarrow> app_args \<Rightarrow> node option \<Rightarrow> launch res" where
  "wordcount_run m a inst =
     (if arg_mode a = MODE_NONE then Inr (Exits 1)
      else if arg_mode a = MODE_SERVER then
        ebind (start_server m a inst) (\<lambda>(made, inst). if made then serve inst else Inl Abort)
      else if arg_mode a = MODE_READER \<or> arg_mode a = MODE_COUNTER then
        ebind (start_client m a inst) (\<lambda>(made, inst). if made then work inst else Inl Abort)
      else Inl Abort)"

definition demo_run :: "machine \<Rightarrow> app_args \<Rightarrow> node option \<Rightarrow> launch res" where
  "demo_run m a inst =
     (if arg_mode a = MODE_NONE then Inr (Exits 1)
      else if arg_mode a = MODE_SERVER then
        ebind (start_server m a inst) (\<lambda>(made, inst). if made then serve inst else Inl Abort)
      else ebind (start_client m a inst) (\<lambda>(made, inst).
        if \<not> made then Inl Abort
        else if arg_mode a \<in> {MODE_PRODUCER, MODE_SUMMARIZER, MODE_COUNTER} then work inst else Inl Abort))"

text \<open>\<open>Linus\<close> does not look at what \<open>init\<close> returns; without a mode it prints its help, which exits.\<close>

definition linus_run :: "machine \<Rightarrow> app_args \<Rightarrow> node option \<Rightarrow> launch res" where
  "linus_run m a inst =
     (if arg_mode a = MODE_NONE then Inr (Exits 0)
      else if arg_mode a = MODE_SERVER then ebind (start_server m a inst) (\<lambda>(_, inst). serve inst)
      else ebind (start_client m a inst) (\<lambda>(_, inst).
        if arg_mode a \<in> {MODE_PROJECTS, MODE_USERS, MODE_COMMITS} then work inst else Inl Abort))"

text \<open>The client a process starts with: an empty store, no connection yet, the server of its command line.\<close>

lemma start_client_new:
  assumes "start_client m a None = Inr (made, inst)"
  shows "\<exists>cl ip. made \<and> inst = Some (ClientNode cl) \<and> cl_store cl = kv_empty \<and> cl_server_conn cl = None
     \<and> m_pton m (snd (app_client_ips a)) = Some ip \<and> sin_addr (cl_server cl) = ip \<and> sin_port (cl_server cl) = htons (arg_port a)"
  using assms
  by (auto simp: start_client_def client_init_def node_init_def client_new_def emap_eq_Inr ebind_eq_Inr
      netport.defs client.defs split: prod.splits option.splits)

text \<open>Every mode that does not serve or exit starts as such a client.\<close>

definition new_client :: "app_args \<Rightarrow> client \<Rightarrow> bool" where
  "new_client a cl \<longleftrightarrow> cl_store cl = kv_empty \<and> cl_server_conn cl = None \<and> sin_port (cl_server cl) = htons (arg_port a)"

lemma start_client_work:
  assumes "start_client m a None = Inr (made, inst)"
  shows "made \<and> (\<exists>cl. work inst = Inr (Works cl) \<and> new_client a cl)"
  using start_client_new [OF assms] by (auto simp: work_def client_get_instance_def new_client_def)

lemma run_client:
  assumes "wordcount_run m a None = Inr l \<or> demo_run m a None = Inr l \<or> linus_run m a None = Inr l"
    and "arg_mode a \<noteq> MODE_NONE" and "arg_mode a \<noteq> MODE_SERVER"
  shows "\<exists>cl. l = Works cl \<and> new_client a cl"
proof -
  obtain made inst where start: "start_client m a None = Inr (made, inst)" and "work inst = Inr l"
    using assms by (auto simp: wordcount_run_def demo_run_def linus_run_def ebind_eq_Inr split: if_splits)
  with start_client_work [OF start] show ?thesis by auto
qed

text \<open>
  \<open>main\<close>: the arguments over the defaults, then \<open>start\<close>, in a process that is no node yet. \<open>--help\<close> exits while
  they are parsed.
\<close>

definition start_app :: "(app_args \<Rightarrow> node option \<Rightarrow> launch res) \<Rightarrow> app_args option res \<Rightarrow> launch res" where
  "start_app run parsed = ebind parsed (\<lambda>a. case a of None \<Rightarrow> Inr (Exits 0) | Some a \<Rightarrow> run a None)"

definition wordcount_main :: "machine \<Rightarrow> string list \<Rightarrow> launch res" where
  "wordcount_main m args = start_app (wordcount_run m) (wordcount_parse args wordcount_args)"

definition demo_main :: "machine \<Rightarrow> string list \<Rightarrow> launch res" where
  "demo_main m args = start_app (demo_run m) (demo_parse args demo_args)"

definition linus_main :: "machine \<Rightarrow> string list \<Rightarrow> launch res" where
  "linus_main m args = start_app (linus_run m) (linus_parse args linus_args)"

lemma main_help:
  "wordcount_main m (''--help'' # args) = Inr (Exits 0)" "demo_main m (''--help'' # args) = Inr (Exits 0)"
  "linus_main m (''--help'' # args) = Inr (Exits 0)"
  by (simp_all add: wordcount_main_def demo_main_def linus_main_def start_app_def wordcount_parse.simps demo_parse.simps
      linus_parse.simps)

text \<open>A program that does a client's work has a new client of its arguments.\<close>

lemma start_app_works:
  assumes "start_app run parsed = Inr (Works cl)" and "run \<in> {wordcount_run m, demo_run m, linus_run m}"
  shows "\<exists>a. parsed = Inr (Some a) \<and> new_client a cl"
proof -
  from assms(1) obtain a where a: "parsed = Inr (Some a)" "run a None = Inr (Works cl)"
    by (auto simp: start_app_def ebind_eq_Inr split: option.splits)
  have serves: "serve inst \<noteq> Inr (Works cl)" for inst by (simp add: serve_def split: option.split)
  have "arg_mode a \<noteq> MODE_NONE" using a(2) assms(2) by (auto simp: wordcount_run_def demo_run_def linus_run_def)
  moreover have "arg_mode a \<noteq> MODE_SERVER"
    using a(2) assms(2) serves by (auto simp: wordcount_run_def demo_run_def linus_run_def ebind_eq_Inr split: if_splits)
  ultimately have "new_client a cl" using run_client [of m a "Works cl"] a(2) assms(2) by auto
  then show ?thesis using a(1) by blast
qed

lemma main_works:
  "wordcount_main m args = Inr (Works cl) \<Longrightarrow> \<exists>a. wordcount_parse args wordcount_args = Inr (Some a) \<and> new_client a cl"
  "demo_main m args = Inr (Works cl) \<Longrightarrow> \<exists>a. demo_parse args demo_args = Inr (Some a) \<and> new_client a cl"
  "linus_main m args = Inr (Works cl) \<Longrightarrow> \<exists>a. linus_parse args linus_args = Inr (Some a) \<and> new_client a cl"
  unfolding wordcount_main_def demo_main_def linus_main_def
  by (erule start_app_works [where m = m], rule insertI1 insertI2 [OF insertI1] insertI2 [OF insertI2 [OF insertI1]])+

end
