(* ===== verification/LinusSystem.thy ===== *)
theory LinusSystem
  imports Linus SorerAdapter Cluster
begin

text \<open>
  \<open>src/util/linus.cpp\<close> as it runs: three nodes, of which one has the projects, one the users and one the
  commits. Each reads its file, stores it and starts its network thread; then \<open>_users\<close> and \<open>_commits\<close>
  hand frames to each other through the distributed store. A state is the three nodes with the
  places \<open>_users\<close> and \<open>_commits\<close> have reached; the steps are theirs and those of the network threads,
  which announce the keys of a node to another one. Progress messages on the terminal are left out.
\<close>

section \<open>The nodes\<close>

definition linus_read_in_file ::
  "(string \<Rightarrow> f64 res) \<Rightarrow> (string \<Rightarrow> sor_parser option) \<Rightarrow> kv_key \<Rightarrow> string \<Rightarrow> kvstore \<Rightarrow> (dataframe \<times> kvstore) res option" where
  "linus_read_in_file stod open_file k fn st =
     map_option (\<lambda>r. ebind r (\<lambda>df. case df of
         None \<Rightarrow> Inl Abort
       | Some df \<Rightarrow> emap (Pair df) (kv_set k df st)))
       (parse_file stod (open_file fn))"

datatype role = Users | Commits | Projects

text \<open>
  Where \<open>_users\<close> is: before the search; waiting for the users of a degree; about to print their names.
  It is done when it would wait for the degree after the last one.
\<close>

datatype users_at = U_find | U_wait nat | U_names nat dataframe

text \<open>
  Where \<open>_commits\<close> is: waiting for the user to start from; about to find his projects; about to find the
  users of the projects of a degree; about to find the projects of these users; done.
\<close>

datatype commits_at = C_wait | C_start dataframe | C_users nat dataframe | C_projects nat dataframe | C_done

record linus_system =
  ls_node :: "role \<Rightarrow> client"
  ls_users :: users_at
  ls_commits :: commits_at
  ls_out :: string

definition node_store :: "role \<Rightarrow> kvstore \<Rightarrow> linus_system \<Rightarrow> linus_system" where
  "node_store r st s = s\<lparr>ls_node := put_store r st (ls_node s)\<rparr>"

definition node_set :: "role \<Rightarrow> string \<Rightarrow> dataframe \<Rightarrow> linus_system \<Rightarrow> linus_system res" where
  "node_set r n df s = emap (\<lambda>st. node_store r st s) (kv_set (key_of n) df (cl_store (ls_node s r)))"

definition node_get :: "(role \<Rightarrow> sockaddr) \<Rightarrow> linus_system \<Rightarrow> role \<Rightarrow> string \<Rightarrow> dataframe option res" where
  "node_get addr s r n = lookup [Users, Commits, Projects] addr (ls_node s) r n"

section \<open>Steps\<close>

text \<open>
  A step has a new state, or the failure that ends the program. \<open>get_or_wait\<close> is a step when the
  frame can be had.
\<close>

definition degree_heading :: "nat \<Rightarrow> string" where
  "degree_heading d = [CHR 0x0A] @ ''Degree '' @ show_nat d @ '':'' @ [CHR 0x0A, CHR 0x0A]"

inductive ustep :: "(role \<Rightarrow> sockaddr) \<Rightarrow> (f64 \<Rightarrow> string) \<Rightarrow> dataframe \<Rightarrow> linus_system \<Rightarrow> linus_system res \<Rightarrow> bool"
  for addr show_double udf s where
  u_find: "ls_users s = U_find \<Longrightarrow> ustep addr show_double udf s
     (emap (\<lambda>st. node_store Users st (s\<lparr>ls_users := U_wait 1\<rparr>)) (linus_find udf (cl_store (ls_node s Users))))"
| u_wait: "ls_users s = U_wait d \<Longrightarrow> d \<le> MAX_DEGREE \<Longrightarrow> node_get addr s Users (degree_key d) = Inr (Some df)
    \<Longrightarrow> ustep addr show_double udf s (Inr (s\<lparr>ls_users := U_names d df\<rparr>))"
| u_wait_fails: "ls_users s = U_wait d \<Longrightarrow> d \<le> MAX_DEGREE \<Longrightarrow> node_get addr s Users (degree_key d) = Inl e
    \<Longrightarrow> ustep addr show_double udf s (Inl e)"
| u_names: "ls_users s = U_names d df \<Longrightarrow> filter_run ''S'' uutn_updates df udf r \<Longrightarrow> ustep addr show_double udf s
     (ebind r (\<lambda>names.
      ebind (node_set Users (names_key d) names s) (\<lambda>s.
      emap (\<lambda>out. s\<lparr>ls_users := U_wait (Suc d), ls_out := out\<rparr>)
        (df_print show_double names (ls_out s @ degree_heading d)))))"

inductive cstep :: "(role \<Rightarrow> sockaddr) \<Rightarrow> dataframe \<Rightarrow> linus_system \<Rightarrow> linus_system res \<Rightarrow> bool"
  for addr cdf s where
  c_wait: "ls_commits s = C_wait \<Longrightarrow> node_get addr s Commits ''linus_uuid'' = Inr (Some df)
    \<Longrightarrow> cstep addr cdf s (Inr (s\<lparr>ls_commits := C_start df\<rparr>))"
| c_wait_fails: "ls_commits s = C_wait \<Longrightarrow> node_get addr s Commits ''linus_uuid'' = Inl e \<Longrightarrow> cstep addr cdf s (Inl e)"
| c_start: "ls_commits s = C_start luuid \<Longrightarrow> filter_run ''I'' uutp_updates luuid cdf r \<Longrightarrow> cstep addr cdf s
     (ebind r (\<lambda>ps. emap (\<lambda>s. s\<lparr>ls_commits := C_users 1 ps\<rparr>) (node_set Commits ''linus_projects'' ps s)))"
| c_users: "ls_commits s = C_users d ps \<Longrightarrow> filter_run ''I'' ptuu_updates ps cdf r \<Longrightarrow> cstep addr cdf s
     (ebind r (\<lambda>us. emap (\<lambda>s. s\<lparr>ls_commits := if d = MAX_DEGREE then C_done else C_projects d us\<rparr>)
        (node_set Commits (degree_key d) us s)))"
| c_projects: "ls_commits s = C_projects d us \<Longrightarrow> filter_run ''I'' uutp_updates us cdf r \<Longrightarrow> cstep addr cdf s
     (ebind r (\<lambda>ps. emap (\<lambda>s. s\<lparr>ls_commits := C_users (Suc d) ps\<rparr>) (node_set Commits (project_key d) ps s)))"

inductive lstep :: "(role \<Rightarrow> sockaddr) \<Rightarrow> (f64 \<Rightarrow> string) \<Rightarrow> dataframe \<Rightarrow> dataframe \<Rightarrow> linus_system \<Rightarrow> linus_system res \<Rightarrow> bool"
  for addr show_double udf cdf s where
  users: "ustep addr show_double udf s r \<Longrightarrow> lstep addr show_double udf cdf s r"
| commits: "cstep addr cdf s r \<Longrightarrow> lstep addr show_double udf cdf s r"
| network: "net_step addr (ls_node s) r \<Longrightarrow> lstep addr show_double udf cdf s (emap (\<lambda>ns. s\<lparr>ls_node := ns\<rparr>) r)"

inductive_cases ustepE: "ustep addr show_double udf s r"
inductive_cases cstepE: "cstep addr cdf s r"
inductive_cases lstepE: "lstep addr show_double udf cdf s r"

abbreviation lreach :: "(role \<Rightarrow> sockaddr) \<Rightarrow> (f64 \<Rightarrow> string) \<Rightarrow> dataframe \<Rightarrow> dataframe \<Rightarrow> linus_system \<Rightarrow> linus_system \<Rightarrow> bool" where
  "lreach addr show_double udf cdf \<equiv> reaches (lstep addr show_double udf cdf)"

text \<open>All three nodes have read their files into empty stores.\<close>

definition linus_start :: "dataframe \<Rightarrow> dataframe \<Rightarrow> dataframe \<Rightarrow> (role \<Rightarrow> client) \<Rightarrow> linus_system" where
  "linus_start udf cdf pdf node =
     \<lparr>ls_node = (\<lambda>r. (node r)\<lparr>cl_store := kv_set_store
          (key_of (case r of Users \<Rightarrow> ''users'' | Commits \<Rightarrow> ''commits'' | Projects \<Rightarrow> ''projects''))
          (case r of Users \<Rightarrow> udf | Commits \<Rightarrow> cdf | Projects \<Rightarrow> pdf) kv_empty\<rparr>),
      ls_users = U_find, ls_commits = C_wait, ls_out = []\<rparr>"

lemma linus_read_in_file_empty:
  "parse_file stod (open_file fn) = Some (Inr (Some df))
     \<Longrightarrow> linus_read_in_file stod open_file (key_of n) fn kv_empty = Some (Inr (df, kv_set_store (key_of n) df kv_empty))"
  by (simp add: linus_read_in_file_def kv_set_eq kv_remote_view_def kv_empty_def)

section \<open>Who stores which key\<close>

definition owns :: "role \<Rightarrow> string \<Rightarrow> bool" where
  "owns r n = (case r of
       Users \<Rightarrow> n = ''users'' \<or> n = ''linus_uuid'' \<or> (\<exists>k\<le>MAX_DEGREE. n = names_key k)
     | Commits \<Rightarrow> n = ''commits'' \<or> n = ''linus_projects'' \<or> (\<exists>k\<le>MAX_DEGREE. n = degree_key k \<or> n = project_key k)
     | Projects \<Rightarrow> n = ''projects'')"

lemma owns_one: "owns r n \<Longrightarrow> owns r' n \<Longrightarrow> r = r'"
  by (cases r; cases r') (auto simp: owns_def names_key_def degree_key_def project_key_def)

lemma show_nat_short: "k \<le> MAX_DEGREE \<Longrightarrow> length (show_nat k) = 1"
  by (simp add: show_nat.simps MAX_DEGREE_def)

lemma owns_ok: "owns r n \<Longrightarrow> ok_string n"
  by (cases r) (auto simp: owns_def ok_string_def names_key_def degree_key_def project_key_def show_nat_short)

interpretation linus: cluster "[Users, Commits, Projects]" owns
proof unfold_locales
  show "r \<in> set [Users, Commits, Projects]" for r by (cases r) simp_all
qed (erule owns_one, assumption, erule owns_ok)

abbreviation node_view :: "linus_system \<Rightarrow> role \<Rightarrow> string \<Rightarrow> dataframe option" where
  "node_view s \<equiv> store_view (ls_node s)"

abbreviation stores_ok :: "(role \<Rightarrow> sockaddr) \<Rightarrow> linus_system \<Rightarrow> bool" where
  "stores_ok addr s \<equiv> stores_own owns addr (ls_node s)"

lemma node_store_fields [simp]:
  "ls_node (node_store r st s) = put_store r st (ls_node s)"
  "ls_users (node_store r st s) = ls_users s" "ls_commits (node_store r st s) = ls_commits s"
  "ls_out (node_store r st s) = ls_out s"
  by (simp_all add: node_store_def)

section \<open>Frames of ids\<close>

lemma id_frame_columns:
  assumes "id_frame df"
  shows "df_ok df" and "df_columns df \<noteq> []"
proof -
  obtain c where c: "df_columns df = [c]" "col_get_type c = CHR ''I''"
    using assms by (auto simp: id_frame_def map_eq_Cons_conv)
  have typed: "df_typed df" using assms by (simp add: id_frame_def int_frame_def df_rect_def)
  then have wf: "col_wf c" using c(1) by (simp add: df_typed_def)
  have "col_size c < 2 ^ 64" using assms c(1) by (simp add: id_frame_def df_nrows_def df_ncols_def)
  moreover have "StringCell (Some s) \<notin> set (col_view c)" for s
    using col_view_type [of "StringCell (Some s)" c] c(2) by auto
  ultimately have "col_ok c" using wf by (simp add: col_ok_view col_size_view)
  then show "df_ok df" "df_columns df \<noteq> []" using typed c(1) by (simp_all add: df_ok_def)
qed

lemma id_frame_received:
  assumes "id_frame df"
  shows "id_frame (df_of_columns (df_columns df)) \<and> frame_ints (df_of_columns (df_columns df)) = frame_ints df"
  using received_rows [of df] id_frame_columns [OF assms] assms
  by (simp add: id_frame_def int_frame_def frame_ints_def)

section \<open>What the nodes compute\<close>

text \<open>
  Two users have collaborated if both have worked on one project; the users of degree \<open>d\<close> are those
  that a chain of \<open>d\<close> collaborations connects with the user to start from.
\<close>

definition worked_on :: "(i32 \<times> i32 \<times> i32) set \<Rightarrow> (i32 \<times> i32) set" where
  "worked_on cs = {(u, p). \<exists>a c. (p, a, c) \<in> cs \<and> (u = a \<or> u = c)}"

definition collaborated :: "(i32 \<times> i32 \<times> i32) set \<Rightarrow> (i32 \<times> i32) set" where
  "collaborated cs = worked_on cs O (worked_on cs)\<inverse>"

definition linus_id :: "dataframe \<Rightarrow> i32 option" where
  "linus_id udf = map_option fst (find (\<lambda>(u, n). n = ''torvalds'') (users udf))"

definition degree_users :: "dataframe \<Rightarrow> dataframe \<Rightarrow> nat \<Rightarrow> i32 set" where
  "degree_users udf cdf d = (collaborated (commits cdf) ^^ d) `` set_option (linus_id udf)"

definition degree_names :: "dataframe \<Rightarrow> dataframe \<Rightarrow> nat \<Rightarrow> string multiset" where
  "degree_names udf cdf d = mset (map snd (filter (\<lambda>(u, n). u \<in> degree_users udf cdf d) (users udf)))"

lemma users_of_projects: "users_of cs (projects_of cs us) = collaborated cs `` us"
proof -
  have "projects_of cs us = worked_on cs `` us" by (auto simp: projects_of_def worked_on_def)
  moreover have "users_of cs ps = (worked_on cs)\<inverse> `` ps" for ps by (auto simp: users_of_def worked_on_def)
  ultimately show ?thesis by (simp add: collaborated_def relcomp_Image)
qed

lemma degree_users_Suc:
  "degree_users udf cdf (Suc d) = users_of (commits cdf) (projects_of (commits cdf) (degree_users udf cdf d))"
  by (auto simp: degree_users_def users_of_projects)

text \<open>From the first degree on, the users of a degree are among those of every later one.\<close>

lemma degree_users_grow: "1 \<le> d \<Longrightarrow> degree_users udf cdf d \<subseteq> degree_users udf cdf (Suc d)"
proof
  fix u
  assume "1 \<le> d" and "u \<in> degree_users udf cdf d"
  then have "\<exists>v. (v, u) \<in> collaborated (commits cdf)"
    by (cases d) (auto simp: degree_users_def elim: relpow_Suc_E)
  then have "(u, u) \<in> collaborated (commits cdf)" by (auto simp: collaborated_def)
  then show "u \<in> degree_users udf cdf (Suc d)"
    using \<open>u \<in> degree_users udf cdf d\<close> by (auto simp: degree_users_def intro: relcompI)
qed

text \<open>The terminal of the users' node: for each degree so far a heading and the names, one to a line.\<close>

definition degree_block :: "nat \<Rightarrow> string list \<Rightarrow> string" where
  "degree_block d ns = degree_heading d @ concat (map (\<lambda>n. ''<'' @ c_str n @ ''>'' @ [CHR 0x0A]) ns)"

inductive printed :: "(nat \<Rightarrow> string multiset) \<Rightarrow> nat \<Rightarrow> string \<Rightarrow> bool" for names where
  printed_none: "printed names 0 []"
| printed_degree: "printed names d out \<Longrightarrow> mset ns = names (Suc d) \<Longrightarrow> printed names (Suc d) (out @ degree_block (Suc d) ns)"

section \<open>The invariant\<close>

definition holds :: "dataframe \<Rightarrow> dataframe \<Rightarrow> nat \<Rightarrow> dataframe \<Rightarrow> bool" where
  "holds udf cdf d df \<longleftrightarrow> linus_id udf \<noteq> None \<and> id_frame df \<and> frame_ints df = degree_users udf cdf d"

definition frames_ok :: "dataframe \<Rightarrow> dataframe \<Rightarrow> linus_system \<Rightarrow> bool" where
  "frames_ok udf cdf s \<longleftrightarrow> (\<forall>df. node_view s Users ''linus_uuid'' = Some df \<longrightarrow> holds udf cdf 0 df)
     \<and> (\<forall>d df. node_view s Commits (degree_key d) = Some df \<longrightarrow> holds udf cdf d df)"

definition stored :: "nat \<Rightarrow> linus_system \<Rightarrow> bool" where
  "stored d s \<longleftrightarrow> (\<forall>k. 1 \<le> k \<and> k \<le> d \<longrightarrow> node_view s Commits (degree_key k) \<noteq> None)"

definition commits_ok :: "dataframe \<Rightarrow> dataframe \<Rightarrow> linus_system \<Rightarrow> bool" where
  "commits_ok udf cdf s = (case ls_commits s of
       C_wait \<Rightarrow> True
     | C_start df \<Rightarrow> holds udf cdf 0 df
     | C_users d ps \<Rightarrow> 1 \<le> d \<and> d \<le> MAX_DEGREE \<and> stored (d - 1) s \<and> linus_id udf \<noteq> None \<and> id_frame ps
         \<and> frame_ints ps = projects_of (commits cdf) (degree_users udf cdf (d - 1))
     | C_projects d us \<Rightarrow> 1 \<le> d \<and> d < MAX_DEGREE \<and> stored d s \<and> holds udf cdf d us
     | C_done \<Rightarrow> linus_id udf \<noteq> None \<and> stored MAX_DEGREE s)"

definition users_ok :: "dataframe \<Rightarrow> dataframe \<Rightarrow> linus_system \<Rightarrow> bool" where
  "users_ok udf cdf s = (case ls_users s of
       U_find \<Rightarrow> printed (degree_names udf cdf) 0 (ls_out s)
     | U_wait d \<Rightarrow> 1 \<le> d \<and> d \<le> Suc MAX_DEGREE \<and> printed (degree_names udf cdf) (d - 1) (ls_out s)
         \<and> (d = 1 \<or> linus_id udf \<noteq> None)
         \<and> (linus_id udf \<noteq> None \<longrightarrow> node_view s Users ''linus_uuid'' \<noteq> None)
     | U_names d df \<Rightarrow> 1 \<le> d \<and> d \<le> MAX_DEGREE \<and> printed (degree_names udf cdf) (d - 1) (ls_out s)
         \<and> node_view s Users ''linus_uuid'' \<noteq> None \<and> holds udf cdf d df)"

definition linus_inv :: "(role \<Rightarrow> sockaddr) \<Rightarrow> dataframe \<Rightarrow> dataframe \<Rightarrow> linus_system \<Rightarrow> bool" where
  "linus_inv addr udf cdf s \<longleftrightarrow> stores_ok addr s \<and> frames_ok udf cdf s \<and> commits_ok udf cdf s \<and> users_ok udf cdf s"

lemma places_keep [simp]:
  "frames_ok udf cdf (s\<lparr>ls_users := u\<rparr>) = frames_ok udf cdf s"
  "frames_ok udf cdf (s\<lparr>ls_commits := c\<rparr>) = frames_ok udf cdf s"
  "frames_ok udf cdf (s\<lparr>ls_out := out\<rparr>) = frames_ok udf cdf s"
  "commits_ok udf cdf (s\<lparr>ls_users := u\<rparr>) = commits_ok udf cdf s"
  "commits_ok udf cdf (s\<lparr>ls_out := out\<rparr>) = commits_ok udf cdf s"
  "users_ok udf cdf (s\<lparr>ls_commits := c\<rparr>) = users_ok udf cdf s"
  by (simp_all add: frames_ok_def commits_ok_def users_ok_def stored_def
      split: commits_at.split users_at.split)

text \<open>Storing an own key that keeps its meaning succeeds and changes nothing else.\<close>

definition adds :: "role \<Rightarrow> string \<Rightarrow> dataframe \<Rightarrow> linus_system \<Rightarrow> linus_system \<Rightarrow> bool" where
  "adds r n df s s' \<longleftrightarrow> (\<forall>q m. node_view s' q m = (if q = r \<and> m = n then Some df else node_view s q m))
     \<and> ls_users s' = ls_users s \<and> ls_commits s' = ls_commits s \<and> ls_out s' = ls_out s"

lemma node_set_ok:
  assumes "stores_ok addr s" and "frames_ok udf cdf s" and "owns r n"
    and "n = ''linus_uuid'' \<Longrightarrow> holds udf cdf 0 df" and "\<And>d. n = degree_key d \<Longrightarrow> holds udf cdf d df"
  shows "\<exists>s'. node_set r n df s = Inr s' \<and> stores_ok addr s' \<and> frames_ok udf cdf s' \<and> adds r n df s s'"
proof -
  let ?st = "kv_set_store (key_of n) df (cl_store (ls_node s r))"
  let ?s = "node_store r ?st s"
  have view: "node_view ?s q m = (if q = r \<and> m = n then Some df else node_view s q m)" for q m
    by (simp add: key_of_def)
  then have "frames_ok udf cdf ?s"
    using assms(2,4,5) unfolding frames_ok_def by (metis option.sel)
  moreover have "adds r n df s ?s" using view unfolding adds_def by simp
  ultimately show ?thesis
    using linus.store_own_key [OF assms(1,3), of df] by (simp add: node_set_def)
qed

text \<open>Places depend on the stores only through what is stored, and stores only grow.\<close>

lemma adds_keeps:
  assumes "adds r n df s s'"
  shows "commits_ok udf cdf s \<Longrightarrow> commits_ok udf cdf s'" and "users_ok udf cdf s \<Longrightarrow> users_ok udf cdf s'"
proof -
  have "node_view s' q m \<noteq> None" if "node_view s q m \<noteq> None" for q m
    using assms that by (simp add: adds_def)
  then show "commits_ok udf cdf s \<Longrightarrow> commits_ok udf cdf s'" and "users_ok udf cdf s \<Longrightarrow> users_ok udf cdf s'"
    using assms unfolding commits_ok_def users_ok_def stored_def adds_def
    by (fastforce split: commits_at.splits users_at.splits)+
qed

section \<open>Steps of the users' node\<close>

definition scalar_frame :: "i32 \<Rightarrow> dataframe" where
  "scalar_frame i = df_add_column (IntColumn (na_push_back (Some i) na_empty)) None df_empty"

lemma scalar_frame: "id_frame (scalar_frame i)" "frame_ints (scalar_frame i) = {i}"
proof -
  let ?c = "IntColumn (na_push_back (Some i) na_empty)"
  have wf: "col_wf ?c" and view: "col_view ?c = [IntCell (Some i)]"
    by (simp_all add: na.inv_push na.inv_empty na.view_push na.view_empty)
  note col = one_column_rows [OF wf]
  have rows: "df_rows (scalar_frame i) = [[IntCell (Some i)]]" unfolding scalar_frame_def col(2) view by simp
  then have "length (df_rows (scalar_frame i)) = 1" by simp
  then have "df_nrows (scalar_frame i) = 1" by (simp add: df_rows_def)
  then show "id_frame (scalar_frame i)" "frame_ints (scalar_frame i) = {i}"
    using rows col(1,3) by (simp_all add: id_frame_def int_frame_def frame_ints_def) (simp_all add: scalar_frame_def)
qed

lemma linus_find_eq:
  assumes "user_frame udf"
  shows "linus_find udf st = (case linus_id udf of
      None \<Rightarrow> Inr st | Some i \<Rightarrow> kv_set (key_of ''linus_uuid'') (scalar_frame i) st)"
proof -
  have "emap snd (emap (Pair x) r) = r" for x :: dataframe and r :: "kvstore res" by (cases r) simp_all
  then show ?thesis
    by (simp add: linus_find_def find_user_first [OF assms] linus_id_def scalar_frame_def store_column_def Let_def
        split: option.split)
qed

lemma owns_keys:
  "owns Users ''linus_uuid''" "owns Commits ''linus_projects''"
  "d \<le> MAX_DEGREE \<Longrightarrow> owns Users (names_key d)" "d \<le> MAX_DEGREE \<Longrightarrow> owns Commits (degree_key d)"
  "d \<le> MAX_DEGREE \<Longrightarrow> owns Commits (project_key d)"
  by (auto simp: owns_def)

lemma key_names_apart:
  "names_key d \<noteq> ''linus_uuid''" "names_key d \<noteq> degree_key k" "degree_key d \<noteq> ''linus_uuid''"
  "project_key d \<noteq> ''linus_uuid''" "project_key d \<noteq> degree_key k" "''linus_projects'' \<noteq> degree_key k"
  "''linus_uuid'' \<noteq> degree_key k"
  by (simp_all add: names_key_def degree_key_def project_key_def)

lemma node_store_same: "node_store r (cl_store (ls_node s r)) s = s"
  by (simp add: node_store_def)

lemma holds_received: "holds udf cdf d df \<Longrightarrow> holds udf cdf d (df_of_columns (df_columns df))"
  using id_frame_received by (simp add: holds_def)

text \<open>The node that waits gets what the other one stored.\<close>

lemma get_holds:
  assumes "stores_ok addr s" and "addrs_apart addr" and "owns q n" and "q \<noteq> r"
    and "\<And>df. node_view s q n = Some df \<Longrightarrow> holds udf cdf d df"
  shows "node_get addr s r n \<noteq> Inl e" and "node_get addr s r n = Inr (Some df) \<Longrightarrow> holds udf cdf d df"
proof -
  have "\<forall>df. node_view s q n = Some df \<longrightarrow> df_ok df"
    using assms(5) id_frame_columns(1) by (auto simp: holds_def)
  note get = linus.lookup_result [OF assms(1-4) this, folded node_get_def]
  show "node_get addr s r n \<noteq> Inl e" by (rule get(1))
  show "holds udf cdf d df" if "node_get addr s r n = Inr (Some df)"
    using get(2) [OF that] assms(5) holds_received by blast
qed

text \<open>Frames of names, as lists of names.\<close>

lemma name_rows:
  assumes "mset rows = mset (map (\<lambda>(u, n). [StringCell (Some n)]) us)"
  obtains ns where "rows = map (\<lambda>n. [StringCell (Some n)]) ns" and "mset ns = mset (map snd us)"
proof -
  let ?f = "\<lambda>n. [StringCell (Some n)]"
  define g where "g row = (case hd row of StringCell (Some n) \<Rightarrow> n | _ \<Rightarrow> [])" for row :: "cell list"
  have gf: "g (?f n) = n" for n by (simp add: g_def)
  have f: "map (\<lambda>(u, n). ?f n) us = map ?f (map snd us)" by auto
  have "set rows = set (map ?f (map snd us))" using mset_eq_setD [OF assms] unfolding f .
  then have "?f (g row) = row" if "row \<in> set rows" for row using that gf by auto
  then have "map ?f (map g rows) = rows" by (simp add: map_idI)
  moreover have "mset (map g rows) = mset (map snd us)"
    using arg_cong [OF assms, of "image_mset g"] unfolding f by (simp add: multiset.map_comp comp_def gf flip: mset_map)
  ultimately show thesis using that by metis
qed

lemma print_names:
  "concat (map (print_row sd) (map (\<lambda>n. [StringCell (Some n)]) ns)) =
     concat (map (\<lambda>n. ''<'' @ c_str n @ ''>'' @ [CHR 0x0A]) ns)"
  by (induction ns) (simp_all add: print_row_def print_value_def)

lemma ustep_ok:
  assumes step: "ustep addr sd udf s r" and inv: "linus_inv addr udf cdf s"
    and frames: "user_frame udf" "addrs_apart addr"
  shows "\<exists>s'. r = Inr s' \<and> linus_inv addr udf cdf s'"
proof -
  have stores: "stores_ok addr s" and fr: "frames_ok udf cdf s" and c: "commits_ok udf cdf s" and u: "users_ok udf cdf s"
    using inv by (simp_all add: linus_inv_def)
  have stored: "node_view s Commits (degree_key d) = Some df \<Longrightarrow> holds udf cdf d df" for d df
    using fr by (simp add: frames_ok_def)
  note get = get_holds [OF stores frames(2) owns_keys(4) _ stored, of _ Users]
  from step show ?thesis
  proof cases
    case u_find
    let ?s = "s\<lparr>ls_users := U_wait 1\<rparr>"
    show ?thesis
    proof (cases "linus_id udf")
      case None
      then have "r = Inr ?s" using u_find node_store_same [of Users ?s] by (simp add: linus_find_eq [OF frames(1)])
      moreover have "linus_inv addr udf cdf ?s" using stores fr c u u_find None by (simp add: linus_inv_def users_ok_def)
      ultimately show ?thesis by blast
    next
      case (Some i)
      have "holds udf cdf 0 (scalar_frame i)"
        using Some scalar_frame by (simp add: holds_def degree_users_def)
      then obtain s' where s': "node_set Users ''linus_uuid'' (scalar_frame i) ?s = Inr s'"
        "stores_ok addr s'" "frames_ok udf cdf s'" "adds Users ''linus_uuid'' (scalar_frame i) ?s s'"
        using node_set_ok [of addr ?s udf cdf Users "''linus_uuid''" "scalar_frame i"] stores fr owns_keys(1)
          key_names_apart by auto
      have "commits_ok udf cdf s'" using c by (intro adds_keeps(1) [OF s'(4)]) simp
      moreover have "users_ok udf cdf s'" using s'(4) u u_find by (simp add: users_ok_def adds_def)
      moreover have "r = Inr s'" using u_find s'(1) Some by (simp add: linus_find_eq [OF frames(1)] node_set_def)
      ultimately show ?thesis using s'(2,3) by (simp add: linus_inv_def)
    qed
  next
    case (u_wait d df)
    then have "holds udf cdf d df" using get(2) by blast
    moreover from this have "linus_id udf \<noteq> None" by (simp add: holds_def)
    ultimately have "users_ok udf cdf (s\<lparr>ls_users := U_names d df\<rparr>)" using u u_wait by (simp add: users_ok_def)
    then show ?thesis using stores fr c u_wait(1) by (simp add: linus_inv_def)
  next
    case (u_wait_fails d e)
    then show ?thesis using get(1) by blast
  next
    case (u_names d df run)
    have d: "1 \<le> d" "d \<le> MAX_DEGREE" "holds udf cdf d df" "printed (degree_names udf cdf) (d - 1) (ls_out s)"
      "node_view s Users ''linus_uuid'' \<noteq> None"
      using u u_names(2) by (simp_all add: users_ok_def)
    have ids: "int_frame df" "frame_ints df = degree_users udf cdf d" using d(3) by (simp_all add: holds_def id_frame_def)
    obtain names where names: "run = Inr names" "df_rect names" "mset (df_rows names) =
        mset (map (\<lambda>(u, n). [StringCell (Some n)]) (filter (\<lambda>(u, n). u \<in> degree_users udf cdf d) (users udf)))"
      using uutn_run [OF u_names(3) ids(1) frames(1)] ids(2) by auto
    obtain ns where ns: "df_rows names = map (\<lambda>n. [StringCell (Some n)]) ns" "mset ns = degree_names udf cdf d"
      using name_rows [OF names(3)] unfolding degree_names_def by metis
    obtain s' where s': "node_set Users (names_key d) names s = Inr s'"
      "stores_ok addr s'" "frames_ok udf cdf s'" "adds Users (names_key d) names s s'"
      using node_set_ok [OF stores fr owns_keys(3) [OF d(2)], of names] key_names_apart by auto
    let ?out = "ls_out s @ degree_block d ns"
    have "df_print sd names (ls_out s @ degree_heading d) = Inr ?out"
      using df_print_eq [OF names(2)] unfolding ns(1) print_names degree_block_def by simp
    then have r: "r = Inr (s'\<lparr>ls_users := U_wait (Suc d), ls_out := ?out\<rparr>)"
      using u_names(1) names(1) s'(1,4) by (simp add: adds_def)
    have "printed (degree_names udf cdf) (Suc (d - 1)) (ls_out s @ degree_block (Suc (d - 1)) ns)"
      using printed_degree [OF d(4)] ns(2) d(1) by simp
    then have "printed (degree_names udf cdf) d ?out" using d(1) by simp
    then have "users_ok udf cdf (s'\<lparr>ls_users := U_wait (Suc d), ls_out := ?out\<rparr>)"
      using d(2,3,5) s'(4) by (simp add: users_ok_def adds_def holds_def)
    moreover have "commits_ok udf cdf s'" using c by (rule adds_keeps(1) [OF s'(4)])
    ultimately show ?thesis using r s'(2,3) by (simp add: linus_inv_def)
  qed
qed

section \<open>Steps of the commits' node\<close>

lemma cstep_ok:
  assumes step: "cstep addr cdf s r" and inv: "linus_inv addr udf cdf s"
    and frames: "commit_frame cdf" "2 * df_nrows cdf < 2 ^ 64" "addrs_apart addr"
  shows "\<exists>s'. r = Inr s' \<and> linus_inv addr udf cdf s'"
proof -
  have stores: "stores_ok addr s" and fr: "frames_ok udf cdf s" and c: "commits_ok udf cdf s" and u: "users_ok udf cdf s"
    using inv by (simp_all add: linus_inv_def)
  have stored: "node_view s Users ''linus_uuid'' = Some df \<Longrightarrow> holds udf cdf 0 df" for df
    using fr by (simp add: frames_ok_def)
  note get = get_holds [OF stores frames(3) owns_keys(1) _ stored, of Commits]
  note put = node_set_ok [OF stores fr]
  have keep: "users_ok udf cdf s'" if "adds r n df s s'" for r n df s'
    using u by (rule adds_keeps(2) [OF that])
  from step show ?thesis
  proof cases
    case (c_wait df)
    then have "holds udf cdf 0 df" using get(2) by blast
    then show ?thesis using stores fr u c_wait(1) by (simp add: linus_inv_def commits_ok_def)
  next
    case (c_wait_fails e)
    then show ?thesis using get(1) by blast
  next
    case (c_start luuid run)
    then have l: "holds udf cdf 0 luuid" using c by (simp add: commits_ok_def)
    then have "int_frame luuid" by (simp add: holds_def id_frame_def)
    from uutp_run [OF c_start(3) this frames(1,2)] obtain ps where ps: "run = Inr ps" "id_frame ps"
      "frame_ints ps = projects_of (commits cdf) (degree_users udf cdf 0)"
      using l by (auto simp: holds_def)
    obtain s' where s': "node_set Commits ''linus_projects'' ps s = Inr s'"
      "stores_ok addr s'" "frames_ok udf cdf s'" "adds Commits ''linus_projects'' ps s s'"
      using put [OF owns_keys(2), of ps] key_names_apart by auto
    have "commits_ok udf cdf (s'\<lparr>ls_commits := C_users 1 ps\<rparr>)"
      using ps l by (simp add: commits_ok_def stored_def MAX_DEGREE_def holds_def)
    then show ?thesis using s' ps(1) c_start(1) keep [OF s'(4)] by (simp add: linus_inv_def)
  next
    case (c_users d ps run)
    then have d: "1 \<le> d" "d \<le> MAX_DEGREE" "stored (d - 1) s" "linus_id udf \<noteq> None" "id_frame ps"
      "frame_ints ps = projects_of (commits cdf) (degree_users udf cdf (d - 1))"
      using c by (simp_all add: commits_ok_def)
    have "int_frame ps" using d(5) by (simp add: id_frame_def)
    from ptuu_run [OF c_users(3) this frames(1,2)] obtain us where us: "run = Inr us" "holds udf cdf d us"
      using d(1,4,6) degree_users_Suc [of udf cdf "d - 1"] by (auto simp: holds_def)
    have "degree_key d = degree_key k \<Longrightarrow> holds udf cdf k us" for k using us(2) by (simp add: key_names_distinct)
    then obtain s' where s': "node_set Commits (degree_key d) us s = Inr s'"
      "stores_ok addr s'" "frames_ok udf cdf s'" "adds Commits (degree_key d) us s s'"
      using put [OF owns_keys(4) [OF d(2)], of us] key_names_apart by auto
    let ?at = "if d = MAX_DEGREE then C_done else C_projects d us"
    have "stored d s'"
      using d(1,3) s'(4) unfolding stored_def adds_def
      by (metis Suc_diff_1 le_Suc_eq less_le_trans option.distinct(1) zero_less_one)
    then have "commits_ok udf cdf (s'\<lparr>ls_commits := ?at\<rparr>)"
      using d(1,2,4) us(2) by (simp add: commits_ok_def stored_def)
    then show ?thesis using s' us(1) c_users(1) keep [OF s'(4)] by (simp add: linus_inv_def)
  next
    case (c_projects d us run)
    then have d: "1 \<le> d" "d < MAX_DEGREE" "stored d s" "holds udf cdf d us"
      using c by (simp_all add: commits_ok_def)
    then have "int_frame us" by (simp add: holds_def id_frame_def)
    from uutp_run [OF c_projects(3) this frames(1,2)] obtain ps where ps: "run = Inr ps" "id_frame ps"
      "frame_ints ps = projects_of (commits cdf) (degree_users udf cdf d)"
      using d(4) by (auto simp: holds_def)
    obtain s' where s': "node_set Commits (project_key d) ps s = Inr s'"
      "stores_ok addr s'" "frames_ok udf cdf s'" "adds Commits (project_key d) ps s s'"
      using put [OF owns_keys(5), of d ps] d(2) key_names_apart by auto
    have "stored d s'" using d(3) s'(4) by (auto simp: stored_def adds_def)
    then have "commits_ok udf cdf (s'\<lparr>ls_commits := C_users (Suc d) ps\<rparr>)"
      using d ps by (simp add: commits_ok_def stored_def holds_def)
    then show ?thesis using s' ps(1) c_projects(1) keep [OF s'(4)] by (simp add: linus_inv_def)
  qed
qed

lemma lstep_ok:
  assumes step: "lstep addr sd udf cdf s r" and inv: "linus_inv addr udf cdf s"
    and frames: "user_frame udf" "commit_frame cdf" "2 * df_nrows cdf < 2 ^ 64" "addrs_apart addr"
  shows "\<exists>s'. r = Inr s' \<and> linus_inv addr udf cdf s'"
  using step
proof cases
  case users
  then show ?thesis using ustep_ok inv frames by blast
next
  case commits
  then show ?thesis using cstep_ok inv frames by blast
next
  case (network r)
  have stores: "stores_ok addr s" using inv by (simp add: linus_inv_def)
  obtain ns where ns: "r = Inr ns" "stores_own owns addr ns" "\<And>q. store_view ns q = node_view s q"
    using linus.net_step_ok [OF network(2) stores] by blast
  let ?s = "s\<lparr>ls_node := ns\<rparr>"
  have "frames_ok udf cdf ?s = frames_ok udf cdf s" "commits_ok udf cdf ?s = commits_ok udf cdf s"
    "users_ok udf cdf ?s = users_ok udf cdf s"
    using ns(3) by (simp_all add: frames_ok_def commits_ok_def users_ok_def stored_def split: users_at.split commits_at.split)
  then show ?thesis using ns(1,2) inv network(1) by (simp add: linus_inv_def)
qed

lemma lreach_inv:
  assumes "lreach addr sd udf cdf s s'" and "linus_inv addr udf cdf s"
    and frames: "user_frame udf" "commit_frame cdf" "2 * df_nrows cdf < 2 ^ 64" "addrs_apart addr"
  shows "linus_inv addr udf cdf s'"
  using assms(1,2) by (rule reaches_inv) (use lstep_ok [OF _ _ frames] in blast)

lemma linus_start_inv: "linus_inv addr udf cdf (linus_start udf cdf pdf node)"
proof -
  let ?s = "linus_start udf cdf pdf node"
  have view: "node_view ?s r n \<noteq> None \<longleftrightarrow>
      n = (case r of Users \<Rightarrow> ''users'' | Commits \<Rightarrow> ''commits'' | Projects \<Rightarrow> ''projects'')" for r n
    by (auto simp: linus_start_def key_of_def) (simp_all add: kv_view_map kv_empty_def)
  have remote: "store_remote (ls_node ?s) r = Map.empty" for r
    by (simp add: linus_start_def kv_remote_view_def kv_empty_def fun_eq_iff)
  have "stores_ok addr ?s"
    unfolding stores_own_def view remote by (auto simp: owns_def split: role.split)
  moreover have "node_view ?s Users ''linus_uuid'' = None" "node_view ?s Commits (degree_key d) = None" for d
    using view [of Users "''linus_uuid''"] view [of Commits "degree_key d"] by (auto simp: degree_key_def)
  then have "frames_ok udf cdf ?s" by (simp add: frames_ok_def)
  moreover have "commits_ok udf cdf ?s" "users_ok udf cdf ?s"
    by (simp_all add: commits_ok_def users_ok_def linus_start_def printed_none)
  ultimately show ?thesis by (simp add: linus_inv_def)
qed

section \<open>Progress\<close>

text \<open>The steps the two processes have left.\<close>

fun users_left :: "users_at \<Rightarrow> nat" where
  "users_left U_find = 2 * Suc MAX_DEGREE + 1"
| "users_left (U_wait d) = 2 * (Suc MAX_DEGREE - d)"
| "users_left (U_names d _) = 2 * (Suc MAX_DEGREE - d) - 1"

fun commits_left :: "commits_at \<Rightarrow> nat" where
  "commits_left C_wait = 2 * MAX_DEGREE + 2"
| "commits_left (C_start _) = 2 * MAX_DEGREE + 1"
| "commits_left (C_users d _) = 2 * (Suc MAX_DEGREE - d)"
| "commits_left (C_projects d _) = 2 * (Suc MAX_DEGREE - d) - 1"
| "commits_left C_done = 0"

definition steps_left :: "linus_system \<Rightarrow> nat" where
  "steps_left s = users_left (ls_users s) + commits_left (ls_commits s)"

lemma ustep_left:
  assumes "ustep addr sd udf s (Inr s')" and "linus_inv addr udf cdf s"
  shows "steps_left s' < steps_left s"
  using assms(1)
proof cases
  case u_find
  then show ?thesis by (cases "linus_find udf (cl_store (ls_node s Users))") (auto simp: steps_left_def)
next
  case (u_wait d df)
  then show ?thesis by (simp add: steps_left_def)
next
  case (u_names d df run)
  then have "d \<le> MAX_DEGREE" using assms(2) by (simp add: linus_inv_def users_ok_def)
  moreover have "ls_users s' = U_wait (Suc d)" "ls_commits s' = ls_commits s"
    using u_names(1) by (auto simp: ebind_eq_Inr emap_eq_Inr node_set_def dest!: sym [of "Inr _"])
  ultimately show ?thesis using u_names(2) by (simp add: steps_left_def)
qed

lemma cstep_left:
  assumes "cstep addr cdf s (Inr s')" and "linus_inv addr udf cdf s"
  shows "steps_left s' < steps_left s"
  using assms(1)
proof cases
  case (c_wait df)
  then show ?thesis by (simp add: steps_left_def)
next
  case (c_start luuid run)
  then have "ls_commits s' = C_users 1 (projr run)" "ls_users s' = ls_users s"
    by (auto simp: ebind_eq_Inr emap_eq_Inr node_set_def dest!: sym [of "Inr _"])
  then show ?thesis using c_start(2) by (simp add: steps_left_def)
next
  case (c_users d ps run)
  then have d: "d \<le> MAX_DEGREE" using assms(2) by (simp add: linus_inv_def commits_ok_def)
  have "ls_commits s' = (if d = MAX_DEGREE then C_done else C_projects d (projr run))" "ls_users s' = ls_users s"
    using c_users(1) by (auto simp: ebind_eq_Inr emap_eq_Inr node_set_def dest!: sym [of "Inr _"])
  then show ?thesis using c_users(2) d by (simp add: steps_left_def)
next
  case (c_projects d us run)
  then have d: "d < MAX_DEGREE" using assms(2) by (simp add: linus_inv_def commits_ok_def)
  have "ls_commits s' = C_users (Suc d) (projr run)" "ls_users s' = ls_users s"
    using c_projects(1) by (auto simp: ebind_eq_Inr emap_eq_Inr node_set_def dest!: sym [of "Inr _"])
  then show ?thesis using c_projects(2) d by (simp add: steps_left_def)
qed

text \<open>
  When a user to start from exists and the processes are not done, one of them can take a step, if
  need be after an announcement.
\<close>

lemma can_announce:
  assumes "linus_inv addr udf cdf s" and "addrs_apart addr" and "owns a n" and "a \<noteq> b"
    and "node_view s a n \<noteq> None" and "\<forall>df. node_view s a n = Some df \<longrightarrow> id_frame df"
  obtains s' df where "lreach addr sd udf cdf s s'" and "node_get addr s' b n = Inr (Some df)"
    and "ls_users s' = ls_users s" and "ls_commits s' = ls_commits s"
proof -
  have "stores_ok addr s" using assms(1) by (simp add: linus_inv_def)
  from linus.can_lookup [OF this assms(2-5)] assms(6) id_frame_columns(1) obtain ns df where
    ns: "reaches (net_step addr) (ls_node s) ns" "lookup [Users, Commits, Projects] addr ns b n = Inr (Some df)" by blast
  let ?f = "\<lambda>ns. s\<lparr>ls_node := ns\<rparr>"
  have "lstep addr sd udf cdf (?f ns) (Inr (?f ns'))" if "net_step addr ns (Inr ns')" for ns ns'
    using network [of addr "?f ns" "Inr ns'"] that by simp
  then have "lreach addr sd udf cdf (?f (ls_node s)) (?f ns)" by (rule reaches_mono [OF ns(1)])
  then show thesis using ns(2) by (intro that [of "?f ns" df]) (simp_all add: node_get_def)
qed

definition linus_done :: "linus_system \<Rightarrow> bool" where
  "linus_done s \<longleftrightarrow> ls_users s = U_wait (Suc MAX_DEGREE) \<and> ls_commits s = C_done"

lemma some_step:
  assumes inv: "linus_inv addr udf cdf s" and "addrs_apart addr" and "linus_id udf \<noteq> None" and "\<not> linus_done s"
  shows "\<exists>s1 r. lreach addr sd udf cdf s s1 \<and> steps_left s1 = steps_left s
     \<and> (ustep addr sd udf s1 r \<or> cstep addr cdf s1 r)"
proof -
  have here: ?thesis if "ustep addr sd udf s r \<or> cstep addr cdf s r" for r
    using that by (intro exI [of _ s] exI [of _ r]) (simp add: reaches_refl)
  have fr: "frames_ok udf cdf s" and c: "commits_ok udf cdf s" and u: "users_ok udf cdf s"
    using inv by (simp_all add: linus_inv_def)
  have keep: "frames_ok udf cdf s'" if "\<forall>r. node_view s' r = node_view s r" for s'
    using fr that by (simp add: frames_ok_def)
  show ?thesis
  proof (cases "ls_users s")
    case U_find
    then show ?thesis using here u_find by blast
  next
    case (U_names d df)
    obtain r where "filter_run ''S'' uutn_updates df udf r" using filter_run_exists by blast
    then show ?thesis using here u_names [OF U_names] by blast
  next
    case (U_wait d)
    then have d: "d \<le> Suc MAX_DEGREE" "node_view s Users ''linus_uuid'' \<noteq> None"
      using u assms(3) by (simp_all add: users_ok_def)
    show ?thesis
    proof (cases "ls_commits s")
      case C_wait
      obtain s' df where s': "lreach addr sd udf cdf s s'" "node_get addr s' Commits ''linus_uuid'' = Inr (Some df)"
        "ls_users s' = ls_users s" "ls_commits s' = ls_commits s"
        by (rule can_announce [OF inv assms(2) owns_keys(1) _ d(2), of Commits])
          (use fr in \<open>auto simp: frames_ok_def holds_def\<close>)
      have "cstep addr cdf s' (Inr (s'\<lparr>ls_commits := C_start df\<rparr>))"
        using c_wait [of s' addr df] s'(2,4) C_wait by simp
      then show ?thesis using s'(1,3,4) by (intro exI [of _ s']) (auto simp: steps_left_def)
    next
      case C_done
      with U_wait assms(4) d(1) have le: "d \<le> MAX_DEGREE" by (auto simp: linus_done_def)
      have "1 \<le> d" using u U_wait by (simp add: users_ok_def)
      then have at: "node_view s Commits (degree_key d) \<noteq> None"
        using c C_done le by (simp add: commits_ok_def stored_def)
      obtain s' df where s': "lreach addr sd udf cdf s s'" "node_get addr s' Users (degree_key d) = Inr (Some df)"
        "ls_users s' = ls_users s" "ls_commits s' = ls_commits s"
        by (rule can_announce [OF inv assms(2) owns_keys(4) [OF le] _ at, of Users])
          (use fr in \<open>auto simp: frames_ok_def holds_def\<close>)
      have "ls_users s' = U_wait d" using s'(3) U_wait by simp
      from u_wait [OF this le s'(2)] have "ustep addr sd udf s' (Inr (s'\<lparr>ls_users := U_names d df\<rparr>))" .
      then show ?thesis using s'(1,3,4) by (intro exI [of _ s']) (auto simp: steps_left_def)
    next
      case (C_start luuid)
      obtain r where "filter_run ''I'' uutp_updates luuid cdf r" using filter_run_exists by blast
      then show ?thesis using here c_start [OF C_start] by blast
    next
      case (C_users e ps)
      obtain r where "filter_run ''I'' ptuu_updates ps cdf r" using filter_run_exists by blast
      then show ?thesis using here c_users [OF C_users] by blast
    next
      case (C_projects e us)
      obtain r where "filter_run ''I'' uutp_updates us cdf r" using filter_run_exists by blast
      then show ?thesis using here c_projects [OF C_projects] by blast
    qed
  qed
qed

lemma can_finish:
  assumes "linus_inv addr udf cdf s" and "linus_id udf \<noteq> None"
    and frames: "user_frame udf" "commit_frame cdf" "2 * df_nrows cdf < 2 ^ 64" "addrs_apart addr"
  shows "\<exists>s'. lreach addr sd udf cdf s s' \<and> linus_done s'"
proof -
  let ?inv = "linus_inv addr udf cdf"
  have "\<exists>s'. lreach addr sd udf cdf s s' \<and> ?inv s' \<and> steps_left s' < steps_left s" if inv: "?inv s" "\<not> linus_done s" for s
  proof -
    obtain s1 r where s1: "lreach addr sd udf cdf s s1" "steps_left s1 = steps_left s"
      "ustep addr sd udf s1 r \<or> cstep addr cdf s1 r"
      using some_step [OF inv(1) frames(4) assms(2) inv(2)] by blast
    have inv1: "?inv s1" by (rule lreach_inv [OF s1(1) inv(1) frames])
    have step: "lstep addr sd udf cdf s1 r" using s1(3) users commits by blast
    then obtain s2 where s2: "r = Inr s2" "?inv s2" using lstep_ok [OF _ inv1 frames] by blast
    have "steps_left s2 < steps_left s1" using s1(3) s2(1) ustep_left [OF _ inv1] cstep_left [OF _ inv1] by blast
    moreover have "lreach addr sd udf cdf s s2" using reaches_step [OF s1(1)] step s2(1) by simp
    ultimately show ?thesis using s1(2) s2(2) by (intro exI [of _ s2]) simp
  qed
  from reaches_done [where P = ?inv and ready = linus_done and left = steps_left, OF assms(1) this] show ?thesis by blast
qed

section \<open>An example\<close>

definition sample_users :: "string \<Rightarrow> dataframe" where
  "sample_users name = df_of_columns [int_column_of [5, 6, 7, 8], string_column_of [name, ''ada'', ''bob'', ''eve'']]"

definition sample_commits :: dataframe where
  "sample_commits = df_of_columns
     [int_column_of [10, 10, 11, 12], int_column_of [5, 7, 7, 9], int_column_of [6, 7, 8, 9]]"

definition sample_addr :: "role \<Rightarrow> sockaddr" where
  "sample_addr r = sockaddr_zero\<lparr>sin_port := (case r of Users \<Rightarrow> 1 | Commits \<Rightarrow> 2 | Projects \<Rightarrow> 3)\<rparr>"

lemma sample_frames:
  "user_frame (sample_users name)"
  "users (sample_users name) = [(5, name), (6, ''ada''), (7, ''bob''), (8, ''eve'')]"
  "commit_frame sample_commits" "commits sample_commits = {(10, 5, 6), (10, 7, 7), (11, 7, 8), (12, 9, 9)}"
  "df_nrows sample_commits = 4"
proof -
  have u: "df_rect (sample_users name)" "df_nrows (sample_users name) = 4"
    unfolding sample_users_def by (subst columns_frame; simp add: column_of_view)+
  have c: "df_rect sample_commits" "df_nrows sample_commits = 4"
    unfolding sample_commits_def by (subst columns_frame; simp add: column_of_view)+
  have "df_rows (sample_users name) = [[IntCell (Some 5), StringCell (Some name)], [IntCell (Some 6), StringCell (Some ''ada'')],
      [IntCell (Some 7), StringCell (Some ''bob'')], [IntCell (Some 8), StringCell (Some ''eve'')]]"
    unfolding df_rows_def u(2) by (simp add: df_row_cells_def sample_users_def column_of_view numeral_eq_Suc)
  then show "user_frame (sample_users name)"
    "users (sample_users name) = [(5, name), (6, ''ada''), (7, ''bob''), (8, ''eve'')]"
    using u(1) by (simp_all add: user_frame_def users_def)
  have "df_rows sample_commits =
      [[IntCell (Some 10), IntCell (Some 5), IntCell (Some 6)], [IntCell (Some 10), IntCell (Some 7), IntCell (Some 7)],
       [IntCell (Some 11), IntCell (Some 7), IntCell (Some 8)], [IntCell (Some 12), IntCell (Some 9), IntCell (Some 9)]]"
    unfolding df_rows_def c(2) by (simp add: df_row_cells_def sample_commits_def column_of_view numeral_eq_Suc)
  then show "commit_frame sample_commits" "commits sample_commits = {(10, 5, 6), (10, 7, 7), (11, 7, 8), (12, 9, 9)}"
    using c(1) by (auto simp: commit_frame_def commits_def)
  show "df_nrows sample_commits = 4" by (rule c(2))
qed

lemma sample_linus:
  "linus_id (sample_users ''torvalds'') = Some 5" "linus_id (sample_users ''linus'') = None"
  "addrs_apart sample_addr"
proof -
  show "linus_id (sample_users ''torvalds'') = Some 5" "linus_id (sample_users ''linus'') = None"
    by (simp_all add: linus_id_def sample_frames(2))
  show "addrs_apart sample_addr"
    by (auto simp: addrs_apart_def sample_addr_def sockaddr_eq_def split: role.splits)
qed

lemma sample_names: "degree_names (sample_users ''torvalds'') sample_commits 1 = {#''torvalds'', ''ada'', ''bob''#}"
proof -
  have "worked_on (commits sample_commits) = {(5, 10), (6, 10), (7, 10), (7, 11), (8, 11), (9, 12)}"
    unfolding sample_frames(4) by (auto simp: worked_on_def)
  then have "degree_users (sample_users ''torvalds'') sample_commits 1 = {5, 6, 7}"
    by (auto simp: degree_users_def sample_linus(1) collaborated_def)
  then show ?thesis by (simp add: degree_names_def sample_frames(2))
qed

section \<open>Properties\<close>





text \<open>
  C30: If no user has the name, nothing is stored to start from: both nodes wait for ever, and nothing is
  printed.
\<close>

theorem linus_unknown_user:
  assumes "user_frame udf" and "commit_frame cdf" and "2 * df_nrows cdf < 2 ^ 64" and "addrs_apart addr"
    and "linus_id udf = None" and "lreach addr sd udf cdf (linus_start udf cdf pdf node) s"
  shows "ls_commits s = C_wait \<and> (ls_users s = U_find \<or> ls_users s = U_wait 1) \<and> ls_out s = []"
proof -
  have inv: "linus_inv addr udf cdf s" by (rule lreach_inv [OF assms(6) linus_start_inv assms(1-4)])
  then have c: "ls_commits s = C_wait"
    using assms(5) by (auto simp: linus_inv_def commits_ok_def holds_def split: commits_at.splits)
  have "printed (degree_names udf cdf) 0 out \<Longrightarrow> out = []" for out by (erule printed.cases) simp_all
  then have "(ls_users s = U_find \<or> ls_users s = U_wait 1) \<and> ls_out s = []"
    using inv assms(5) by (auto simp: linus_inv_def users_ok_def holds_def split: users_at.splits)
  with c show ?thesis by simp
qed

theorem linus_unknown_user_witness:
  "\<exists>s. lreach sample_addr (\<lambda>_. []) (sample_users ''linus'') sample_commits
       (linus_start (sample_users ''linus'') sample_commits df_empty (\<lambda>_. sample_client)) s
     \<and> ls_users s = U_wait 1 \<and> ls_commits s = C_wait \<and> ls_out s = []"
proof -
  have few: "2 * df_nrows sample_commits < 2 ^ 64" by (simp add: sample_frames(5))
  let ?s = "linus_start (sample_users ''linus'') sample_commits df_empty (\<lambda>_. sample_client)"
  have "ls_users ?s = U_find" by (simp add: linus_start_def)
  moreover have "node_store Users (cl_store (ls_node ?s Users)) (?s\<lparr>ls_users := U_wait 1\<rparr>) = ?s\<lparr>ls_users := U_wait 1\<rparr>"
    by (auto simp: node_store_def linus_start_def)
  moreover have "linus_find (sample_users ''linus'') st = Inr st" for st
    by (simp add: linus_find_eq [OF sample_frames(1)] sample_linus(2))
  ultimately have "ustep sample_addr (\<lambda>_. []) (sample_users ''linus'') ?s (Inr (?s\<lparr>ls_users := U_wait 1\<rparr>))"
    using u_find [of ?s sample_addr "\<lambda>_. []" "sample_users ''linus''"] by (simp only: emap_simps)
  then have "lreach sample_addr (\<lambda>_. []) (sample_users ''linus'') sample_commits ?s (?s\<lparr>ls_users := U_wait 1\<rparr>)"
    by (intro reaches_one users)
  from this linus_unknown_user [OF sample_frames(1,3) few sample_linus(3,2) this] show ?thesis
    by (intro exI [of _ "?s\<lparr>ls_users := U_wait 1\<rparr>"]) simp
qed

end
