(* ===== verification/Demo.thy ===== *)
theory Demo
  imports Rower KVStore
begin

text \<open>
  \<open>include/util/demo.h\<close> and \<open>src/util/demo.cpp\<close>: a producer stores an array and its sum, a counter
  sums the array again in parallel, a summarizer compares. Addition of doubles and the
  conversion of an integer to a double are parameters.
\<close>

section \<open>\<open>SumRower\<close>\<close>

definition sum_accept :: "(f64 \<Rightarrow> f64 \<Rightarrow> f64) \<Rightarrow> row \<Rightarrow> f64 \<Rightarrow> (bool \<times> f64) res" where
  "sum_accept dadd r s =
     emap (Pair True)
       (efold (\<lambda>c s. ebind (row_col_type r c) (\<lambda>t.
           if t = CHR ''F'' then emap (\<lambda>d. case d of Some d \<Rightarrow> dadd s d | None \<Rightarrow> s) (row_get_double r c)
           else Inr s))
         [0..<row_width r] s)"

text \<open>A new rower starts from \<open>0.0\<close>, whose bit pattern is 0; a clone is a new rower.\<close>

definition sum_new :: f64 where "sum_new = 0"

definition sum_join :: "(f64 \<Rightarrow> f64 \<Rightarrow> f64) \<Rightarrow> f64 \<Rightarrow> f64 \<Rightarrow> f64 res" where
  "sum_join dadd s other = Inr (dadd s other)"

definition sum_clone :: "f64 \<Rightarrow> f64 option" where
  "sum_clone s = Some sum_new"

definition sum_rower :: "(f64 \<Rightarrow> f64 \<Rightarrow> f64) \<Rightarrow> f64 rower" where
  "sum_rower dadd = \<lparr>rower_accept = sum_accept dadd, rower_join = sum_join dadd, rower_clone = sum_clone\<rparr>"

lemmas sum_rower_defs = sum_rower_def sum_join_def sum_clone_def sum_new_def

section \<open>The three roles\<close>

text \<open>\<open>vals[i] = i\<close> and the running sum.\<close>

definition demo_values :: "(nat \<Rightarrow> f64) \<Rightarrow> nat \<Rightarrow> f64 list" where
  "demo_values dbl n = map dbl [0..<n]"

definition demo_sum :: "(f64 \<Rightarrow> f64 \<Rightarrow> f64) \<Rightarrow> f64 list \<Rightarrow> f64" where
  "demo_sum dadd vals = fold (\<lambda>v s. dadd s v) vals 0"

definition DEMO_SIZE :: nat where "DEMO_SIZE = 100 * 1000"

text \<open>Producer and counter print the value in row 100 of the frame, which must be there.\<close>

definition demo_sample :: "dataframe \<Rightarrow> f64 res" where
  "demo_sample df =
     ebind (df_get_double df 0 100) (\<lambda>d. case d of None \<Rightarrow> Inl (Undefined NulloptDeref) | Some d \<Rightarrow> Inr d)"

definition demo_producer :: "(f64 \<Rightarrow> f64 \<Rightarrow> f64) \<Rightarrow> (nat \<Rightarrow> f64) \<Rightarrow> nat \<Rightarrow> kvstore \<Rightarrow> kvstore res" where
  "demo_producer dadd dbl n st =
     ebind (from_double_array (key_of ''main'') (demo_values dbl n) st) (\<lambda>(df, st).
     ebind (demo_sample df) (\<lambda>_.
     emap snd (from_scalar (key_of ''check'') (FloatCell (Some (demo_sum dadd (demo_values dbl n)))) st)))"

text \<open>\<open>df\<close> is what \<open>get_or_wait\<close> returned; a null pointer is dereferenced after the timeout.\<close>

definition demo_counter :: "(f64 \<Rightarrow> f64 \<Rightarrow> f64) \<Rightarrow> dataframe option \<Rightarrow> kvstore \<Rightarrow> kvstore res" where
  "demo_counter dadd df st =
     (case df of
        None \<Rightarrow> Inl (Undefined NullPointer)
      | Some df \<Rightarrow>
          ebind (demo_sample df) (\<lambda>_.
          ebind (df_pmap df (sum_rower dadd) 0) (\<lambda>s.
          emap snd (from_scalar (key_of ''verify'') (FloatCell (Some s)) st))))"

text \<open>The summarizer reads both scalars; \<open>close\<close> is its test \<open>expected - actual < 0.001\<close>.\<close>

definition demo_summarizer :: "(f64 \<Rightarrow> f64 \<Rightarrow> bool) \<Rightarrow> dataframe option \<Rightarrow> dataframe option \<Rightarrow> bool res" where
  "demo_summarizer close result expected =
     (case (result, expected) of
        (Some r, Some e) \<Rightarrow>
          ebind (df_get_double e 0 0) (\<lambda>x. ebind (df_get_double r 0 0) (\<lambda>y.
          case (x, y) of (Some x, Some y) \<Rightarrow> Inr (close x y) | _ \<Rightarrow> Inl (Undefined NulloptDeref)))
      | _ \<Rightarrow> Inl (Undefined NullPointer))"

section \<open>The sum in parallel\<close>

lemma sum_accept_one:
  assumes "row_filled r" and "row_values r = [FloatCell (Some v)]"
  shows "sum_accept dadd r s = Inr (True, dadd s v)"
proof -
  have "row_width r = 1" "row_types r = [CHR ''F'']"
    using assms by (auto simp: row_filled_def row_wf_def)
  then show ?thesis
    using assms(2) by (simp add: sum_accept_def row_col_type_def row_get_double_def)
qed

text \<open>
  \<open>dadd\<close> is exact on the integers up to \<open>bound\<close>, as IEEE 754 addition is up to \<open>2 ^ 53\<close>.
\<close>

definition exact_upto :: "(f64 \<Rightarrow> f64 \<Rightarrow> f64) \<Rightarrow> (nat \<Rightarrow> f64) \<Rightarrow> nat \<Rightarrow> bool" where
  "exact_upto dadd dbl bound \<longleftrightarrow> dbl 0 = 0 \<and> (\<forall>a b. a + b \<le> bound \<longrightarrow> dadd (dbl a) (dbl b) = dbl (a + b))"

lemma exact_fold:
  assumes "exact_upto dadd dbl bound" and "a + sum_list vs \<le> bound"
  shows "fold (\<lambda>v s. dadd s (dbl v)) vs (dbl a) = dbl (a + sum_list vs)"
  using assms(2)
proof (induction vs arbitrary: a)
  case (Cons v vs)
  then have "dadd (dbl a) (dbl v) = dbl (a + v)" using assms(1) by (simp add: exact_upto_def)
  with Cons.IH [of "a + v"] Cons.prems show ?case by (simp add: add.assoc)
qed simp

text \<open>A frame with one column of integers as doubles.\<close>

definition holds_values :: "(nat \<Rightarrow> f64) \<Rightarrow> nat list \<Rightarrow> dataframe \<Rightarrow> bool" where
  "holds_values dbl vs df \<longleftrightarrow> df_rect df \<and> df_rows df = map (\<lambda>v. [FloatCell (Some (dbl v))]) vs"

lemma accept_rows_sum:
  assumes df: "holds_values dbl vs df" and "exact_upto dadd dbl bound"
    and "a + sum_list (map (nth vs) is) \<le> bound" and "\<forall>i\<in>set is. i < length vs"
  shows "accept_rows df (sum_rower dadd) is (dbl a) = Inr (dbl (a + sum_list (map (nth vs) is)))"
proof -
  have n: "df_nrows df = length vs"
    using arg_cong [of _ _ length, OF conjunct2 [OF df [unfolded holds_values_def]]] by simp
  have "accept_rows df (sum_rower dadd) is (dbl a) = Inr (fold (\<lambda>i s. dadd s (dbl (vs ! i))) is (dbl a))"
    unfolding accept_rows_def
  proof (rule efold_total)
    fix i s
    assume "i \<in> set is"
    then have i: "i < length vs" using assms(4) by blast
    have "df_row_cells df i = df_rows df ! i" using i n by (simp add: df_rows_def)
    then have "row_values (frame_row df i) = [FloatCell (Some (dbl (vs ! i)))]"
      using df i by (simp add: holds_values_def frame_row_def)
    then show "emap snd (rower_accept (sum_rower dadd) (frame_row df i) s) = Inr (dadd s (dbl (vs ! i)))"
      using sum_accept_one frame_row_filled df i n by (simp add: sum_rower_defs holds_values_def)
  qed
  also have "fold (\<lambda>i s. dadd s (dbl (vs ! i))) is (dbl a) = fold (\<lambda>v s. dadd s (dbl v)) (map (nth vs) is) (dbl a)"
    by (simp add: fold_map comp_def)
  finally show ?thesis using exact_fold [OF assms(2,3)] by simp
qed

lemma join_sums:
  assumes "exact_upto dadd dbl bound" and "a + sum_list ss \<le> bound"
  shows "efold (\<lambda>other st. rower_join (sum_rower dadd) st other) (map dbl ss) (dbl a) = Inr (dbl (a + sum_list ss))"
proof -
  have "efold (\<lambda>other st. rower_join (sum_rower dadd) st other) xs s = Inr (fold (\<lambda>v s. dadd s v) xs s)" for xs s
    by (rule efold_total) (simp add: sum_rower_defs)
  then show ?thesis using exact_fold [OF assms] by (simp add: fold_map comp_def)
qed

text \<open>Whatever the number of threads, the parallel sum is the exact one.\<close>

lemma sum_pmap:
  assumes df: "holds_values dbl vs df" and exact: "exact_upto dadd dbl bound" and "sum_list vs \<le> bound"
  shows "df_pmap df (sum_rower dadd) 0 = Inr (dbl (sum_list vs))"
proof (cases "2 * THREAD_ROWS \<le> df_nrows df")
  case True
  have n: "df_nrows df = length vs"
    using arg_cong [of _ _ length, OF conjunct2 [OF df [unfolded holds_values_def]]] by simp
  have rect: "df_rect df" and zero: "dbl 0 = 0"
    using df exact by (simp_all add: holds_values_def exact_upto_def)
  have clone: "rower_clone (sum_rower dadd) 0 = Some (dbl 0)" by (simp add: sum_rower_defs zero)
  obtain runs where ne: "runs \<noteq> []" and cover: "concat runs = [0..<df_nrows df]"
    and run: "df_pmap df (sum_rower dadd) 0 = ebind (accept_rows df (sum_rower dadd) (hd runs) 0) (\<lambda>s0.
      ebind (emapM (\<lambda>is. accept_rows df (sum_rower dadd) is (dbl 0)) (tl runs)) (\<lambda>sts.
      efold (\<lambda>other st. rower_join (sum_rower dadd) st other) sts s0))"
    using df_pmap_threads [OF rect clone True] by metis
  define S where "S is = sum_list (map (nth vs) is)" for "is"
  have "sum_list (map S runs) = sum_list (map (nth vs) (concat runs))"
    by (induction runs) (simp_all add: S_def)
  also have "\<dots> = sum_list vs" by (simp add: cover n map_nth)
  finally have total: "S (hd runs) + sum_list (map S (tl runs)) = sum_list vs"
    using ne by (cases runs) simp_all
  have each: "accept_rows df (sum_rower dadd) is (dbl 0) = Inr (dbl (S is))" if "is \<in> set runs" for "is"
  proof -
    have "S is \<le> sum_list (map S runs)" using that by (intro member_le_sum_list) auto
    then have "S is \<le> bound" using assms(3) total ne by (cases runs) simp_all
    moreover have "\<forall>i\<in>set is. i < length vs" using that arg_cong [OF cover, of set] n by auto
    ultimately show ?thesis using accept_rows_sum [OF df exact, of 0 "is"] by (simp add: S_def)
  qed
  have "emapM (\<lambda>is. accept_rows df (sum_rower dadd) is (dbl 0)) (tl runs) = Inr (map dbl (map S (tl runs)))"
    using each ne by (subst emapM_total) (auto dest: list.set_sel(2))
  moreover have "accept_rows df (sum_rower dadd) (hd runs) 0 = Inr (dbl (S (hd runs)))"
    using each [of "hd runs"] ne by (simp add: zero)
  ultimately show ?thesis
    using run join_sums [OF exact, of "S (hd runs)" "map S (tl runs)"] total assms(3) by simp
next
  case False
  have rect: "df_rect df" and zero: "dbl 0 = 0"
    using df exact by (simp_all add: holds_values_def exact_upto_def)
  have n: "df_nrows df = length vs"
    using arg_cong [of _ _ length, OF conjunct2 [OF df [unfolded holds_values_def]]] by simp
  from False have "df_nrows df div THREAD_ROWS \<le> 1" by (simp add: THREAD_ROWS_def)
  then have "df_pmap df (sum_rower dadd) 0 = accept_rows df (sum_rower dadd) [0..<length vs] (dbl 0)"
    using df_map_rows [OF rect] by (simp add: df_pmap_def accept_rows_def zero n)
  then show ?thesis using accept_rows_sum [OF df exact, of 0 "[0..<length vs]"] assms(3) by (simp add: map_nth)
qed

lemma demo_sum_exact:
  assumes "exact_upto dadd dbl bound" and "sum_list [0..<n] \<le> bound"
  shows "demo_sum dadd (demo_values dbl n) = dbl (sum_list [0..<n])"
  using exact_fold [of dadd dbl bound 0 "[0..<n]"] assms
  by (simp add: demo_sum_def demo_values_def fold_map comp_def exact_upto_def)

section \<open>What the roles store\<close>

definition float_scalar :: "f64 \<Rightarrow> dataframe" where
  "float_scalar x = df_add_column (FloatColumn (na_push_back (Some x) na_empty)) None df_empty"

lemma from_scalar_float:
  assumes "kv_remote_view st (key_name k) = None"
  shows "from_scalar k (FloatCell (Some x)) st = Inr (float_scalar x, kv_set_store k (float_scalar x) st)"
  using assms by (simp add: float_scalar_def store_column_def Let_def kv_set_eq)

lemma float_scalar: "df_get_double (float_scalar x) 0 0 = Inr (Some x)" "df_ok (float_scalar x)"
proof -
  show "df_get_double (float_scalar x) 0 0 = Inr (Some x)"
    by (simp add: df_get_defs float_scalar_def df_add_column_def df_empty_def na_get_def na_push_back_def na_empty_def)
  have "col_ok (FloatColumn (na_push_back (Some x) na_empty))"
    by (simp add: na_ok_view na.inv_push na.inv_empty na.view_push na.view_empty)
  then show "df_ok (float_scalar x)" unfolding float_scalar_def by (rule one_column_ok)
qed

lemma holds_values_sample:
  assumes "holds_values dbl vs df" and "100 < length vs"
  shows "\<exists>d. demo_sample df = Inr d"
proof -
  have rows: "df_rect df" "df_rows df = map (\<lambda>v. [FloatCell (Some (dbl v))]) vs"
    using assms(1) by (simp_all add: holds_values_def)
  have n: "100 < df_nrows df" using assms(2) arg_cong [OF rows(2), of length] by simp
  then have "df_row_cells df 100 = df_rows df ! 100" by (simp add: df_rows_def)
  also have "\<dots> = [FloatCell (Some (dbl (vs ! 100)))]" using rows(2) assms(2) by simp
  finally have cells: "df_row_cells df 100 = [FloatCell (Some (dbl (vs ! 100)))]" .
  then have "length (df_columns df) = 1" by (auto simp: df_row_cells_def map_eq_Cons_conv)
  then have "df_get_double df 0 100 = Inr (Some (dbl (vs ! 100)))"
    using df_get_cell(3) [OF rows(1) n, of 0] cells by simp
  then show ?thesis by (simp add: demo_sample_def)
qed

text \<open>The producer's array, as a frame that can be sent.\<close>

definition main_frame :: "(nat \<Rightarrow> f64) \<Rightarrow> nat \<Rightarrow> dataframe \<Rightarrow> bool" where
  "main_frame dbl n df \<longleftrightarrow> holds_values dbl [0..<n] df \<and> df_columns df \<noteq> [] \<and> df_ok df"

lemma producer_stores:
  assumes exact: "exact_upto dadd dbl bound" "sum_list [0..<n] \<le> bound" and n: "100 < n" "n < 2 ^ 64"
    and remote: "kv_remote_view st ''main'' = None" "kv_remote_view st ''check'' = None"
  shows "\<exists>df. main_frame dbl n df \<and> demo_producer dadd dbl n st =
     Inr (kv_set_store (key_of ''check'') (float_scalar (dbl (sum_list [0..<n]))) (kv_set_store (key_of ''main'') df st))"
proof -
  have key: "kv_remote_view st (key_name (key_of ''main'')) = None" using remote by (simp add: key_of_def)
  obtain c df where df: "store_column (key_of ''main'')
      (push_values (\<lambda>v. FloatCell (Some v)) (demo_values dbl n) (FloatColumn na_empty)) st =
      Inr (df, kv_set_store (key_of ''main'') df st)"
    "df = df_add_column c None df_empty" "col_wf c" "col_view c = map (\<lambda>v. FloatCell (Some v)) (demo_values dbl n)"
    by (rule store_values_column [OF empty_column_views(3,4) _ key, of "\<lambda>v. FloatCell (Some v)" "demo_values dbl n"]) simp_all
  have "col_ok c" using df(3,4) n(2) by (auto simp: col_ok_view demo_values_def)
  then have main: "main_frame dbl n df"
    using one_column_rows [OF df(3)] df(2,4) one_column_ok
    by (simp add: main_frame_def holds_values_def demo_values_def)
  then obtain d where "demo_sample df = Inr d"
    using holds_values_sample [of dbl "[0..<n]" df] n(1) by (auto simp: main_frame_def)
  with df(1) main show ?thesis
    using remote(2) by (intro exI [of _ df])
      (simp add: demo_producer_def from_double_array_def demo_sum_exact [OF exact] from_scalar_float key_of_def del: from_scalar.simps)
qed

lemma counter_stores:
  assumes "exact_upto dadd dbl bound" and "sum_list [0..<n] \<le> bound" and "100 < n" and "holds_values dbl [0..<n] df"
    and "kv_remote_view st ''verify'' = None"
  shows "demo_counter dadd (Some df) st =
     Inr (kv_set_store (key_of ''verify'') (float_scalar (dbl (sum_list [0..<n]))) st)"
proof -
  obtain d where "demo_sample df = Inr d" using holds_values_sample [OF assms(4)] assms(3) by auto
  moreover have "df_pmap df (sum_rower dadd) 0 = Inr (dbl (sum_list [0..<n]))"
    using sum_pmap [OF assms(4,1)] assms(2) by simp
  ultimately show ?thesis
    using assms(5) by (simp add: demo_counter_def from_scalar_float key_of_def del: from_scalar.simps)
qed

end
