(* ===== verification/DemoSystem.thy ===== *)
theory DemoSystem
  imports Demo Cluster
begin

text \<open>
  \<open>src/util/demo.cpp\<close> as it runs: the producer's node stores an array and its sum, the counter's node waits for
  the array, adds it up and stores its own sum, the summarizer's node waits for both sums and compares.
  A state is the three nodes with the places their functions have reached; the steps are theirs and those
  of the network threads. A wait of more than a minute ends with a null pointer.
\<close>

section \<open>The three programs\<close>

datatype demo_role = DProducer | DCounter | DSummarizer

datatype producer_at = P_work | P_join

datatype dcounter_at = D_wait | D_sum "dataframe option" | D_join

text \<open>\<open>_summarizer\<close> ends with a request to the server to end everything.\<close>

datatype summarizer_at =
    S_result
  | S_expected "dataframe option"
  | S_compare "dataframe option" "dataframe option"
  | S_teardown bool
  | S_join bool

record demo_system =
  ds_node :: "demo_role \<Rightarrow> client"
  ds_producer :: producer_at
  ds_counter :: dcounter_at
  ds_summarizer :: summarizer_at

abbreviation demo_roles :: "demo_role list" where
  "demo_roles \<equiv> [DProducer, DCounter, DSummarizer]"

definition demo_store :: "demo_role \<Rightarrow> kvstore \<Rightarrow> demo_system \<Rightarrow> demo_system" where
  "demo_store r st s = s\<lparr>ds_node := put_store r st (ds_node s)\<rparr>"

text \<open>The addition of doubles, the conversion of integers and the summarizer's test are parameters.\<close>

record arithmetic =
  ar_add :: "f64 \<Rightarrow> f64 \<Rightarrow> f64"
  ar_of_nat :: "nat \<Rightarrow> f64"
  ar_close :: "f64 \<Rightarrow> f64 \<Rightarrow> bool"

inductive demo_step :: "arithmetic \<Rightarrow> nat \<Rightarrow> (demo_role \<Rightarrow> sockaddr) \<Rightarrow> demo_system \<Rightarrow> demo_system res \<Rightarrow> bool"
  for ar n addr s where
  d_produce: "ds_producer s = P_work \<Longrightarrow> demo_step ar n addr s
     (emap (\<lambda>st. demo_store DProducer st (s\<lparr>ds_producer := P_join\<rparr>))
       (demo_producer (ar_add ar) (ar_of_nat ar) n (cl_store (ds_node s DProducer))))"
| d_wait: "ds_counter s = D_wait \<Longrightarrow> waited demo_roles addr (ds_node s) DCounter ''main'' v
    \<Longrightarrow> demo_step ar n addr s (emap (\<lambda>v. s\<lparr>ds_counter := D_sum v\<rparr>) v)"
| d_sum: "ds_counter s = D_sum v \<Longrightarrow> demo_step ar n addr s
     (emap (\<lambda>st. demo_store DCounter st (s\<lparr>ds_counter := D_join\<rparr>))
       (demo_counter (ar_add ar) v (cl_store (ds_node s DCounter))))"
| d_result: "ds_summarizer s = S_result \<Longrightarrow> waited demo_roles addr (ds_node s) DSummarizer ''verify'' v
    \<Longrightarrow> demo_step ar n addr s (emap (\<lambda>v. s\<lparr>ds_summarizer := S_expected v\<rparr>) v)"
| d_expected: "ds_summarizer s = S_expected v \<Longrightarrow> waited demo_roles addr (ds_node s) DSummarizer ''check'' w
    \<Longrightarrow> demo_step ar n addr s (emap (\<lambda>w. s\<lparr>ds_summarizer := S_compare v w\<rparr>) w)"
| d_compare: "ds_summarizer s = S_compare v w \<Longrightarrow> demo_step ar n addr s
     (emap (\<lambda>b. s\<lparr>ds_summarizer := S_teardown b\<rparr>) (demo_summarizer (ar_close ar) v w))"
| d_teardown: "ds_summarizer s = S_teardown b \<Longrightarrow> demo_step ar n addr s
     (emap (\<lambda>cl. s\<lparr>ds_node := (ds_node s)(DSummarizer := cl), ds_summarizer := S_join b\<rparr>)
       (client_request_teardown (ds_node s DSummarizer)))"
| d_network: "net_step addr (ds_node s) r \<Longrightarrow> demo_step ar n addr s (emap (\<lambda>ns. s\<lparr>ds_node := ns\<rparr>) r)"

inductive_cases demo_stepE: "demo_step ar n addr s r"

definition demo_start :: "app_args \<Rightarrow> demo_system \<Rightarrow> bool" where
  "demo_start a s \<longleftrightarrow> (\<forall>r. new_client a (ds_node s r))
     \<and> ds_producer s = P_work \<and> ds_counter s = D_wait \<and> ds_summarizer s = S_result"

abbreviation demo_reach :: "arithmetic \<Rightarrow> nat \<Rightarrow> (demo_role \<Rightarrow> sockaddr) \<Rightarrow> demo_system \<Rightarrow> demo_system \<Rightarrow> bool" where
  "demo_reach ar n addr \<equiv> reaches (demo_step ar n addr)"

section \<open>The stores\<close>

fun demo_owns :: "demo_role \<Rightarrow> string \<Rightarrow> bool" where
  "demo_owns DProducer k \<longleftrightarrow> k = ''main'' \<or> k = ''check''"
| "demo_owns DCounter k \<longleftrightarrow> k = ''verify''"
| "demo_owns DSummarizer k \<longleftrightarrow> False"

interpretation demo: cluster demo_roles demo_owns
proof unfold_locales
  show "r \<in> set demo_roles" for r by (cases r) simp_all
  show "demo_owns r n \<Longrightarrow> demo_owns r' n \<Longrightarrow> r = r'" for r n r' by (cases r; cases r') auto
  show "demo_owns r n \<Longrightarrow> ok_string n" for r n by (cases r) (auto simp: ok_string_def)
qed

lemma demo_store_fields [simp]:
  "ds_node (demo_store r st s) = put_store r st (ds_node s)" "ds_producer (demo_store r st s) = ds_producer s"
  "ds_counter (demo_store r st s) = ds_counter s" "ds_summarizer (demo_store r st s) = ds_summarizer s"
  by (simp_all add: demo_store_def)

text \<open>A frame with one double, as it is stored or as it arrives.\<close>

definition scalar :: "f64 \<Rightarrow> dataframe \<Rightarrow> bool" where
  "scalar x df \<longleftrightarrow> df_get_double df 0 0 = Inr (Some x) \<and> df_ok df"

lemma scalar_received: "scalar x df \<Longrightarrow> df_get_double (df_of_columns (df_columns df)) 0 0 = Inr (Some x)"
  by (auto simp: scalar_def df_get_defs split: if_splits)

lemma main_frame_received: "main_frame dbl n df \<Longrightarrow> holds_values dbl [0..<n] (df_of_columns (df_columns df))"
  using received_rows [of df] by (simp add: main_frame_def holds_values_def)

text \<open>
  What the demo is about: the sum of the numbers below \<open>n\<close>, which doubles hold exactly.
\<close>

definition demo_total :: "arithmetic \<Rightarrow> nat \<Rightarrow> f64" where
  "demo_total ar n = ar_of_nat ar (sum_list [0..<n])"

definition demo_ok :: "arithmetic \<Rightarrow> nat \<Rightarrow> bool" where
  "demo_ok ar n \<longleftrightarrow> exact_upto (ar_add ar) (ar_of_nat ar) (sum_list [0..<n]) \<and> (\<forall>x. ar_close ar x x)
     \<and> 100 < n \<and> n < 2 ^ 64"

definition demo_frames :: "arithmetic \<Rightarrow> nat \<Rightarrow> demo_role nodes \<Rightarrow> bool" where
  "demo_frames ar n ns \<longleftrightarrow>
       (\<forall>df. store_view ns DProducer ''main'' = Some df \<longrightarrow> main_frame (ar_of_nat ar) n df)
     \<and> (\<forall>df. store_view ns DProducer ''check'' = Some df \<longrightarrow> scalar (demo_total ar n) df)
     \<and> (\<forall>df. store_view ns DCounter ''verify'' = Some df \<longrightarrow> scalar (demo_total ar n) df)"

text \<open>What came out of a wait: nothing, or a frame with the total.\<close>

definition got_total :: "arithmetic \<Rightarrow> nat \<Rightarrow> demo_role nodes \<Rightarrow> dataframe option \<Rightarrow> bool" where
  "got_total ar n ns v \<longleftrightarrow> (\<forall>df. v = Some df \<longrightarrow>
     df_get_double df 0 0 = Inr (Some (demo_total ar n)) \<and> cl_server_conn (ns DSummarizer) \<noteq> None)"

fun producer_ok :: "demo_role nodes \<Rightarrow> producer_at \<Rightarrow> bool" where
  "producer_ok ns P_work \<longleftrightarrow> True"
| "producer_ok ns P_join \<longleftrightarrow> store_view ns DProducer ''main'' \<noteq> None \<and> store_view ns DProducer ''check'' \<noteq> None"

fun counter_ok :: "arithmetic \<Rightarrow> nat \<Rightarrow> demo_role nodes \<Rightarrow> dcounter_at \<Rightarrow> bool" where
  "counter_ok ar n ns D_wait \<longleftrightarrow> True"
| "counter_ok ar n ns (D_sum v) \<longleftrightarrow> (\<forall>df. v = Some df \<longrightarrow> holds_values (ar_of_nat ar) [0..<n] df)"
| "counter_ok ar n ns D_join \<longleftrightarrow> store_view ns DCounter ''verify'' \<noteq> None"

fun summarizer_ok :: "arithmetic \<Rightarrow> nat \<Rightarrow> demo_role nodes \<Rightarrow> summarizer_at \<Rightarrow> bool" where
  "summarizer_ok ar n ns S_result \<longleftrightarrow> True"
| "summarizer_ok ar n ns (S_expected v) \<longleftrightarrow> got_total ar n ns v"
| "summarizer_ok ar n ns (S_compare v w) \<longleftrightarrow> got_total ar n ns v \<and> got_total ar n ns w"
| "summarizer_ok ar n ns (S_teardown b) \<longleftrightarrow> b \<and> cl_server_conn (ns DSummarizer) \<noteq> None"
| "summarizer_ok ar n ns (S_join b) \<longleftrightarrow> b"

definition nodes_ok :: "arithmetic \<Rightarrow> nat \<Rightarrow> (demo_role \<Rightarrow> sockaddr) \<Rightarrow> demo_role nodes \<Rightarrow> bool" where
  "nodes_ok ar n addr ns \<longleftrightarrow> stores_own demo_owns addr ns \<and> demo_frames ar n ns \<and> knows_connected ns"

definition demo_inv :: "arithmetic \<Rightarrow> nat \<Rightarrow> (demo_role \<Rightarrow> sockaddr) \<Rightarrow> demo_system \<Rightarrow> bool" where
  "demo_inv ar n addr s \<longleftrightarrow> nodes_ok ar n addr (ds_node s) \<and> producer_ok (ds_node s) (ds_producer s)
     \<and> counter_ok ar n (ds_node s) (ds_counter s) \<and> summarizer_ok ar n (ds_node s) (ds_summarizer s)"

text \<open>The steps that go wrong: those of a program that has waited in vain, and a request that cannot be sent.\<close>

definition demo_late :: "demo_system \<Rightarrow> bool" where
  "demo_late s \<longleftrightarrow> ds_counter s = D_sum None
     \<or> (\<exists>v w. ds_summarizer s = S_compare v w \<and> (v = None \<or> w = None))"

lemma demo_summarizer_total:
  assumes "demo_ok ar n" and "got_total ar n ns v" and "got_total ar n ns w"
  shows "demo_summarizer (ar_close ar) v w = (if v = None \<or> w = None then Inl (Undefined NullPointer) else Inr True)"
  using assms by (auto simp: demo_summarizer_def got_total_def demo_ok_def split: option.splits)

lemma demo_start_inv: "demo_start a s \<Longrightarrow> demo_inv ar n addr s"
  using demo.empty_own [of "ds_node s" addr]
  by (auto simp: demo_start_def new_client_def demo_inv_def nodes_ok_def demo_frames_def kv_view_map kv_remote_view_def knows_connected_def kv_empty_def)

text \<open>A node's own key is not known to be somebody else's.\<close>

lemma demo_key_local:
  assumes "stores_own demo_owns addr ns" and "demo_owns r k"
  shows "kv_remote_view (cl_store (ns r)) k = None"
  using demo.store_own_key(1) [OF assms, of df_empty] by (auto simp: kv_set_eq key_of_def split: if_splits)

text \<open>What the waits bring.\<close>

lemma wait_totals:
  assumes "stores_own demo_owns addr ns" and "demo_frames ar n ns" and "knows_connected ns" and "addrs_apart addr"
    and "waited demo_roles addr ns DSummarizer k r" and "k = ''verify'' \<or> k = ''check''"
  shows "\<exists>v. r = Inr v \<and> got_total ar n ns v"
proof -
  obtain q where q: "demo_owns q k" "q \<noteq> DSummarizer" "\<And>df. store_view ns q k = Some df \<Longrightarrow> scalar (demo_total ar n) df"
    using assms(2,6) by (auto simp: demo_frames_def) (metis demo_owns.simps demo_role.distinct(4,6))+
  then have "\<forall>df. store_view ns q k = Some df \<longrightarrow> df_ok df" by (auto simp: scalar_def)
  note get = demo.lookup_result [OF assms(1,4) q(1,2) this]
  from assms(5) show ?thesis
  proof cases
    case (waited_found df)
    from get(2) [OF waited_found(2)] q(3) scalar_received
    have "df_get_double df 0 0 = Inr (Some (demo_total ar n))" by blast
    moreover have "cl_server_conn (ns DSummarizer) \<noteq> None"
      using get(3) [OF waited_found(2)] assms(3) unfolding knows_connected_def by blast
    ultimately show ?thesis using waited_found(1) by (simp add: got_total_def)
  next
    case (waited_failed e)
    then show ?thesis using get(1) by blast
  next
    case waited_too_long
    then show ?thesis by (simp add: got_total_def)
  qed
qed

lemma wait_main:
  assumes "stores_own demo_owns addr ns" and "demo_frames ar n ns" and "addrs_apart addr"
    and "waited demo_roles addr ns DCounter ''main'' r"
  shows "\<exists>v. r = Inr v \<and> (\<forall>df. v = Some df \<longrightarrow> holds_values (ar_of_nat ar) [0..<n] df)"
proof -
  have main: "store_view ns DProducer ''main'' = Some df \<Longrightarrow> main_frame (ar_of_nat ar) n df" for df
    using assms(2) by (simp add: demo_frames_def)
  then have "\<forall>df. store_view ns DProducer ''main'' = Some df \<longrightarrow> df_ok df" by (auto simp: main_frame_def)
  note get = demo.lookup_result [OF assms(1,3) _ _ this, of DCounter]
  from assms(4) show ?thesis
  proof cases
    case (waited_found df)
    then show ?thesis using get(2) [of df] main main_frame_received by auto
  next
    case (waited_failed e)
    then show ?thesis using get(1) by simp
  qed simp
qed

text \<open>A change of the stores that keeps what was stored and connected keeps the places.\<close>

definition keeps :: "demo_role nodes \<Rightarrow> demo_role nodes \<Rightarrow> bool" where
  "keeps ns ns' \<longleftrightarrow> (\<forall>q k. store_view ns q k \<noteq> None \<longrightarrow> store_view ns' q k \<noteq> None)
     \<and> (cl_server_conn (ns DSummarizer) \<noteq> None \<longrightarrow> cl_server_conn (ns' DSummarizer) \<noteq> None)"

lemma keeps_places:
  assumes "keeps ns ns'"
  shows "producer_ok ns p \<Longrightarrow> producer_ok ns' p" and "counter_ok ar n ns c \<Longrightarrow> counter_ok ar n ns' c"
    and "summarizer_ok ar n ns z \<Longrightarrow> summarizer_ok ar n ns' z"
proof -
  show "producer_ok ns p \<Longrightarrow> producer_ok ns' p" using assms by (cases p) (simp_all add: keeps_def)
  show "counter_ok ar n ns c \<Longrightarrow> counter_ok ar n ns' c" using assms by (cases c) (simp_all add: keeps_def)
  show "summarizer_ok ar n ns z \<Longrightarrow> summarizer_ok ar n ns' z"
    using assms by (cases z) (simp_all add: keeps_def got_total_def)
qed

lemma demo_inv_nodes:
  assumes "demo_inv ar n addr s" and "nodes_ok ar n addr ns" and "keeps (ds_node s) ns"
  shows "demo_inv ar n addr (s\<lparr>ds_node := ns\<rparr>)"
  using assms keeps_places [OF assms(3)] by (simp add: demo_inv_def)

lemma put_keeps: "keeps ns (put_store r (kv_set_store k df (cl_store (ns r))) ns)"
  by (simp add: keeps_def)

lemma keeps_trans: "keeps ns ns' \<Longrightarrow> keeps ns' ns'' \<Longrightarrow> keeps ns ns''"
  by (simp add: keeps_def)

text \<open>An own key can be stored, with a frame that means what it should.\<close>

definition key_frame :: "arithmetic \<Rightarrow> nat \<Rightarrow> string \<Rightarrow> dataframe \<Rightarrow> bool" where
  "key_frame ar n k df \<longleftrightarrow> (if k = ''main'' then main_frame (ar_of_nat ar) n df else scalar (demo_total ar n) df)"

lemma put_nodes_ok:
  assumes "nodes_ok ar n addr ns" and "demo_owns r k" and "key_frame ar n k df"
  shows "nodes_ok ar n addr (put_store r (kv_set_store (key_of k) df (cl_store (ns r))) ns)"
  using assms demo.store_own_key(2) [of addr ns r k df] knows_connected_store [of ns r "key_of k" df]
  by (auto simp: nodes_ok_def demo_frames_def key_frame_def key_of_def)

lemma send_packet_blocked: "send_packet p c = Inl e \<Longrightarrow> e = Blocked"
proof -
  have "send_attempts packed as c = Inl e \<Longrightarrow> e = Blocked" for packed as c
    by (induction packed as c rule: send_attempts.induct) (auto simp: Let_def split: if_splits send_event.splits)
  then show "send_packet p c = Inl e \<Longrightarrow> e = Blocked" by (simp add: send_packet_def)
qed

lemma teardown_connected:
  assumes "cl_server_conn cl \<noteq> None"
  shows "(\<exists>c. client_request_teardown cl = Inr (cl\<lparr>cl_server_conn := Some c\<rparr>)) \<or> client_request_teardown cl = Inl Blocked"
proof -
  obtain c where c: "cl_server_conn cl = Some c" using assms by blast
  show ?thesis
    using send_packet_blocked [of "packet_of PT_TEARDOWN []" c]
    by (cases "send_packet (packet_of PT_TEARDOWN []) c") (auto simp: client_request_teardown_def c send_teardown_request_def)
qed

lemma demo_step_ok:
  assumes step: "demo_step ar n addr s r" and inv: "demo_inv ar n addr s" and ok: "demo_ok ar n" and "addrs_apart addr"
  shows "case r of Inr s' \<Rightarrow> demo_inv ar n addr s'
    | Inl e \<Rightarrow> demo_late s \<and> e = Undefined NullPointer \<or> ds_summarizer s = S_teardown True \<and> e = Blocked"
proof -
  let ?ns = "ds_node s"
  let ?total = "float_scalar (ar_of_nat ar (sum_list [0..<n]))"
  have nodes: "nodes_ok ar n addr ?ns"
    and own: "stores_own demo_owns addr ?ns" and frames: "demo_frames ar n ?ns" and conn: "knows_connected ?ns"
    using inv by (simp_all add: demo_inv_def nodes_ok_def)
  have sum: "exact_upto (ar_add ar) (ar_of_nat ar) (sum_list [0..<n])" and n: "100 < n" "n < 2 ^ 64"
    using ok by (simp_all add: demo_ok_def)
  have total: "scalar (demo_total ar n) ?total"
    using float_scalar by (simp add: scalar_def demo_total_def)
  from step show ?thesis
  proof cases
    case d_produce
    have keys: "demo_owns DProducer ''main''" "demo_owns DProducer ''check''" by simp_all
    obtain df where df: "main_frame (ar_of_nat ar) n df" "demo_producer (ar_add ar) (ar_of_nat ar) n (cl_store (?ns DProducer)) =
        Inr (kv_set_store (key_of ''check'') ?total (kv_set_store (key_of ''main'') df (cl_store (?ns DProducer))))"
      using producer_stores [OF sum order_refl n demo_key_local [OF own keys(1)] demo_key_local [OF own keys(2)]] by blast
    let ?ns1 = "put_store DProducer (kv_set_store (key_of ''main'') df (cl_store (?ns DProducer))) ?ns"
    let ?ns2 = "put_store DProducer (kv_set_store (key_of ''check'') ?total (cl_store (?ns1 DProducer))) ?ns1"
    have "nodes_ok ar n addr ?ns2"
      using df(1) total by (intro put_nodes_ok [OF put_nodes_ok [OF nodes keys(1)] keys(2)]) (simp_all add: key_frame_def)
    then have "demo_inv ar n addr (s\<lparr>ds_node := ?ns2\<rparr>)"
      by (rule demo_inv_nodes [OF inv]) (rule keeps_trans [OF put_keeps put_keeps])
    moreover have "producer_ok ?ns2 P_join" by (simp add: key_of_def)
    moreover have "r = Inr (s\<lparr>ds_node := ?ns2, ds_producer := P_join\<rparr>)"
      using d_produce(1) df(2) by (simp add: demo_store_def put_store_def)
    ultimately show ?thesis by (simp add: demo_inv_def del: producer_ok.simps)
  next
    case (d_wait v)
    with wait_main [OF own frames assms(4) d_wait(3)] inv show ?thesis by (auto simp: demo_inv_def)
  next
    case (d_sum v)
    show ?thesis
    proof (cases v)
      case None
      then show ?thesis using d_sum by (simp add: demo_counter_def demo_late_def)
    next
      case (Some df)
      have key: "demo_owns DCounter ''verify''" by simp
      have "counter_ok ar n ?ns (D_sum (Some df))" using inv d_sum(2) Some unfolding demo_inv_def by metis
      then have "holds_values (ar_of_nat ar) [0..<n] df" by simp
      from counter_stores [OF sum order_refl n(1) this demo_key_local [OF own key]]
      have run: "demo_counter (ar_add ar) v (cl_store (?ns DCounter)) =
          Inr (kv_set_store (key_of ''verify'') ?total (cl_store (?ns DCounter)))"
        using Some by simp
      let ?ns1 = "put_store DCounter (kv_set_store (key_of ''verify'') ?total (cl_store (?ns DCounter))) ?ns"
      have "nodes_ok ar n addr ?ns1" using total by (intro put_nodes_ok [OF nodes key]) (simp add: key_frame_def)
      then have "demo_inv ar n addr (s\<lparr>ds_node := ?ns1\<rparr>)"
        by (rule demo_inv_nodes [OF inv]) (rule put_keeps)
      moreover have "counter_ok ar n ?ns1 D_join" by (simp add: key_of_def)
      moreover have "r = Inr (s\<lparr>ds_node := ?ns1, ds_counter := D_join\<rparr>)" using d_sum(1) run by (simp add: demo_store_def)
      ultimately show ?thesis by (simp add: demo_inv_def del: counter_ok.simps)
    qed
  next
    case (d_result v)
    with wait_totals [OF own frames conn assms(4) d_result(3)] inv show ?thesis by (auto simp: demo_inv_def)
  next
    case (d_expected v w)
    with wait_totals [OF own frames conn assms(4) d_expected(3)] inv show ?thesis by (auto simp: demo_inv_def)
  next
    case (d_compare v w)
    then have got: "got_total ar n ?ns v" "got_total ar n ?ns w" using inv by (simp_all add: demo_inv_def)
    show ?thesis
    proof (cases "v = None \<or> w = None")
      case True
      then show ?thesis using demo_summarizer_total [OF ok got] d_compare by (auto simp: demo_late_def)
    next
      case False
      then have "summarizer_ok ar n ?ns (S_teardown True)" using got by (auto simp: got_total_def)
      moreover have "r = Inr (s\<lparr>ds_summarizer := S_teardown True\<rparr>)"
        using demo_summarizer_total [OF ok got] False d_compare(1) by (simp only: if_False emap_simps)
      ultimately show ?thesis using inv by (simp add: demo_inv_def)
    qed
  next
    case (d_teardown b)
    then have b: "b" "cl_server_conn (?ns DSummarizer) \<noteq> None" using inv by (simp_all add: demo_inv_def)
    from teardown_connected [OF b(2)] show ?thesis
    proof
      assume "\<exists>c. client_request_teardown (?ns DSummarizer) = Inr ((?ns DSummarizer)\<lparr>cl_server_conn := Some c\<rparr>)"
      then obtain c where c: "client_request_teardown (?ns DSummarizer) = Inr ((?ns DSummarizer)\<lparr>cl_server_conn := Some c\<rparr>)" ..
      let ?ns1 = "?ns(DSummarizer := (?ns DSummarizer)\<lparr>cl_server_conn := Some c\<rparr>)"
      have "stores_own demo_owns addr ?ns1 = stores_own demo_owns addr ?ns" by (rule stores_own_views) simp_all
      then have "nodes_ok ar n addr ?ns1"
        using own frames conn by (simp add: nodes_ok_def demo_frames_def knows_connected_def)
      then have "demo_inv ar n addr (s\<lparr>ds_node := ?ns1\<rparr>)"
        by (rule demo_inv_nodes [OF inv]) (simp add: keeps_def)
      then show ?thesis using d_teardown b(1) c by (simp add: demo_inv_def)
    qed (use d_teardown b(1) in simp)
  next
    case (d_network r')
    obtain ns where ns: "r' = Inr ns" "stores_own demo_owns addr ns" "\<And>q. store_view ns q = store_view ?ns q"
      "\<And>q. cl_server_conn (?ns q) \<noteq> None \<Longrightarrow> cl_server_conn (ns q) \<noteq> None"
      using demo.net_step_ok [OF d_network(2) own] by blast
    have "knows_connected ns" using knows_connected_net [of addr ?ns ns] d_network(2) conn ns(1) by simp
    then have "nodes_ok ar n addr ns" using frames ns(2) by (simp add: nodes_ok_def demo_frames_def ns(3))
    then have "demo_inv ar n addr (s\<lparr>ds_node := ns\<rparr>)"
      by (rule demo_inv_nodes [OF inv]) (use ns(3,4) in \<open>simp add: keeps_def\<close>)
    then show ?thesis using d_network(1) ns(1) by simp
  qed
qed

lemma demo_reach_inv:
  assumes "demo_reach ar n addr s s'" and "demo_inv ar n addr s" and "demo_ok ar n" and "addrs_apart addr"
  shows "demo_inv ar n addr s'"
  using assms(1,2)
proof (rule reaches_inv)
  fix s s'
  assume "demo_inv ar n addr s" and "demo_step ar n addr s (Inr s')"
  from demo_step_ok [OF this(2,1) assms(3,4)] show "demo_inv ar n addr s'" by simp
qed

section \<open>Progress\<close>

text \<open>Nobody has waited in vain.\<close>

fun counter_in_time :: "dcounter_at \<Rightarrow> bool" where
  "counter_in_time (D_sum None) \<longleftrightarrow> False"
| "counter_in_time _ \<longleftrightarrow> True"

fun summarizer_in_time :: "summarizer_at \<Rightarrow> bool" where
  "summarizer_in_time (S_expected v) \<longleftrightarrow> v \<noteq> None"
| "summarizer_in_time (S_compare v w) \<longleftrightarrow> v \<noteq> None \<and> w \<noteq> None"
| "summarizer_in_time _ \<longleftrightarrow> True"

definition in_time :: "demo_system \<Rightarrow> bool" where
  "in_time s \<longleftrightarrow> counter_in_time (ds_counter s) \<and> summarizer_in_time (ds_summarizer s)"

fun counter_left :: "dcounter_at \<Rightarrow> nat" where
  "counter_left D_wait = 2" | "counter_left (D_sum _) = 1" | "counter_left D_join = 0"

fun summarizer_left :: "summarizer_at \<Rightarrow> nat" where
  "summarizer_left S_result = 3" | "summarizer_left (S_expected _) = 2" | "summarizer_left (S_compare _ _) = 1"
| "summarizer_left _ = 0"

definition demo_left :: "demo_system \<Rightarrow> nat" where
  "demo_left s = (case ds_producer s of P_work \<Rightarrow> 1 | P_join \<Rightarrow> 0) + counter_left (ds_counter s)
     + summarizer_left (ds_summarizer s)"

definition demo_confirmed :: "demo_system \<Rightarrow> bool" where
  "demo_confirmed s \<longleftrightarrow> ds_summarizer s = S_teardown True \<or> ds_summarizer s = S_join True"

text \<open>What is stored somewhere can be waited for.\<close>

lemma can_wait:
  assumes "demo_inv ar n addr s" and "addrs_apart addr" and "demo_owns q k" and "q \<noteq> r" and "store_view (ds_node s) q k \<noteq> None"
  obtains ns df where "demo_reach ar n addr s (s\<lparr>ds_node := ns\<rparr>)" and "waited demo_roles addr ns r k (Inr (Some df))"
proof -
  have own: "stores_own demo_owns addr (ds_node s)" and frames: "demo_frames ar n (ds_node s)"
    using assms(1) by (simp_all add: demo_inv_def nodes_ok_def)
  have "\<forall>df. store_view (ds_node s) q k = Some df \<longrightarrow> df_ok df"
    using frames assms(3) by (cases q) (auto simp: demo_frames_def main_frame_def scalar_def)
  from demo.can_lookup [OF own assms(2-5) this] obtain ns df where
    ns: "reaches (net_step addr) (ds_node s) ns" "lookup demo_roles addr ns r k = Inr (Some df)" .
  let ?f = "\<lambda>ns. s\<lparr>ds_node := ns\<rparr>"
  have "demo_step ar n addr (?f ns) (Inr (?f ns'))" if "net_step addr ns (Inr ns')" for ns ns'
    using d_network [of addr "?f ns" "Inr ns'"] that by simp
  then have "demo_reach ar n addr (?f (ds_node s)) (?f ns)" by (rule reaches_mono [OF ns(1)])
  with that waited_found [OF ns(2)] show thesis by simp
qed

text \<open>A step of the state as it is, or after steps of the network threads.\<close>

definition goes_on :: "arithmetic \<Rightarrow> nat \<Rightarrow> (demo_role \<Rightarrow> sockaddr) \<Rightarrow> demo_system \<Rightarrow> bool" where
  "goes_on ar n addr s \<longleftrightarrow> (\<exists>s1 s2. demo_reach ar n addr s s1 \<and> demo_step ar n addr s1 (Inr s2)
     \<and> in_time s2 \<and> demo_left s2 < demo_left s)"

lemma goes_on_here:
  "demo_step ar n addr s (Inr s2) \<Longrightarrow> in_time s2 \<Longrightarrow> demo_left s2 < demo_left s \<Longrightarrow> goes_on ar n addr s"
  unfolding goes_on_def by (intro exI [of _ s] exI [of _ s2]) (simp add: reaches_refl)

text \<open>A step that cannot fail has a new state.\<close>

lemma demo_step_runs:
  assumes "demo_step ar n addr s r" and "demo_inv ar n addr s" and "demo_ok ar n" and "addrs_apart addr"
    and "in_time s" and "\<not> demo_confirmed s"
  obtains s2 where "r = Inr s2"
proof -
  have "\<not> demo_late s" using assms(5) by (auto simp: demo_late_def in_time_def)
  then show thesis
    using demo_step_ok [OF assms(1-4)] assms(6) that by (cases r) (auto simp: demo_confirmed_def)
qed

lemma demo_goes_on:
  assumes inv: "demo_inv ar n addr s" and ok: "demo_ok ar n" and apart: "addrs_apart addr" and "in_time s" and "\<not> demo_confirmed s"
  shows "goes_on ar n addr s"
proof -
  note runs = demo_step_runs [OF _ inv ok apart assms(4,5)]
  have p: "producer_ok (ds_node s) (ds_producer s)" and c: "counter_ok ar n (ds_node s) (ds_counter s)"
    and z: "summarizer_ok ar n (ds_node s) (ds_summarizer s)" using inv by (simp_all add: demo_inv_def)
  show ?thesis
  proof (cases "ds_producer s")
    case P_work
    from runs [OF d_produce [OF P_work]] obtain s2 where
      s2: "emap (\<lambda>st. demo_store DProducer st (s\<lparr>ds_producer := P_join\<rparr>))
        (demo_producer (ar_add ar) (ar_of_nat ar) n (cl_store (ds_node s DProducer))) = Inr s2" .
    have "in_time s2" "demo_left s2 < demo_left s"
      using s2 assms(4) P_work by (auto simp: emap_eq_Inr in_time_def demo_left_def)
    then show ?thesis using goes_on_here d_produce [OF P_work] s2 by metis
  next
    case P_join
    then have stored: "store_view (ds_node s) DProducer ''main'' \<noteq> None" "store_view (ds_node s) DProducer ''check'' \<noteq> None"
      using p by simp_all
    show ?thesis
    proof (cases "ds_counter s")
      case D_wait
      obtain ns df where ns: "demo_reach ar n addr s (s\<lparr>ds_node := ns\<rparr>)" "waited demo_roles addr ns DCounter ''main'' (Inr (Some df))"
        by (rule can_wait [OF inv apart _ _ stored(1), of DCounter]) simp_all
      have "demo_step ar n addr (s\<lparr>ds_node := ns\<rparr>) (Inr (s\<lparr>ds_node := ns, ds_counter := D_sum (Some df)\<rparr>))"
        using d_wait [of "s\<lparr>ds_node := ns\<rparr>" addr "Inr (Some df)"] ns(2) D_wait by simp
      then show ?thesis using ns(1) assms(4) D_wait unfolding goes_on_def
        by (intro exI [of _ "s\<lparr>ds_node := ns\<rparr>"] exI [of _ "s\<lparr>ds_node := ns, ds_counter := D_sum (Some df)\<rparr>"])
          (simp add: in_time_def demo_left_def)
    next
      case (D_sum v)
      from runs [OF d_sum [OF D_sum]] obtain s2 where
        s2: "emap (\<lambda>st. demo_store DCounter st (s\<lparr>ds_counter := D_join\<rparr>))
          (demo_counter (ar_add ar) v (cl_store (ds_node s DCounter))) = Inr s2" .
      have "in_time s2" "demo_left s2 < demo_left s"
        using s2 assms(4) D_sum by (auto simp: emap_eq_Inr in_time_def demo_left_def)
      then show ?thesis using goes_on_here d_sum [OF D_sum] s2 by metis
    next
      case D_join
      then have verify: "store_view (ds_node s) DCounter ''verify'' \<noteq> None" using c by simp
      show ?thesis
      proof (cases "ds_summarizer s")
        case S_result
        obtain ns df where ns: "demo_reach ar n addr s (s\<lparr>ds_node := ns\<rparr>)"
          "waited demo_roles addr ns DSummarizer ''verify'' (Inr (Some df))"
          by (rule can_wait [OF inv apart _ _ verify, of DSummarizer]) simp_all
        have "demo_step ar n addr (s\<lparr>ds_node := ns\<rparr>) (Inr (s\<lparr>ds_node := ns, ds_summarizer := S_expected (Some df)\<rparr>))"
          using d_result [of "s\<lparr>ds_node := ns\<rparr>" addr "Inr (Some df)"] ns(2) S_result by simp
        then show ?thesis using ns(1) assms(4) S_result unfolding goes_on_def
          by (intro exI [of _ "s\<lparr>ds_node := ns\<rparr>"] exI [of _ "s\<lparr>ds_node := ns, ds_summarizer := S_expected (Some df)\<rparr>"])
            (simp add: in_time_def demo_left_def)
      next
        case (S_expected v)
        obtain ns df where ns: "demo_reach ar n addr s (s\<lparr>ds_node := ns\<rparr>)"
          "waited demo_roles addr ns DSummarizer ''check'' (Inr (Some df))"
          by (rule can_wait [OF inv apart _ _ stored(2), of DSummarizer]) simp_all
        have "demo_step ar n addr (s\<lparr>ds_node := ns\<rparr>) (Inr (s\<lparr>ds_node := ns, ds_summarizer := S_compare v (Some df)\<rparr>))"
          using d_expected [of "s\<lparr>ds_node := ns\<rparr>" v addr "Inr (Some df)"] ns(2) S_expected by simp
        then show ?thesis using ns(1) assms(4) S_expected unfolding goes_on_def
          by (intro exI [of _ "s\<lparr>ds_node := ns\<rparr>"] exI [of _ "s\<lparr>ds_node := ns, ds_summarizer := S_compare v (Some df)\<rparr>"])
            (simp add: in_time_def demo_left_def)
      next
        case (S_compare v w)
        from runs [OF d_compare [OF S_compare]] obtain s2 where
          s2: "emap (\<lambda>b. s\<lparr>ds_summarizer := S_teardown b\<rparr>) (demo_summarizer (ar_close ar) v w) = Inr s2" .
        have "in_time s2" "demo_left s2 < demo_left s"
          using s2 assms(4) S_compare by (auto simp: emap_eq_Inr in_time_def demo_left_def)
        then show ?thesis using goes_on_here d_compare [OF S_compare] s2 by metis
      next
        case (S_teardown b)
        then show ?thesis using z assms(5) by (simp add: demo_confirmed_def)
      next
        case (S_join b)
        then show ?thesis using z assms(5) by (simp add: demo_confirmed_def)
      qed
    qed
  qed
qed

lemma demo_finish:
  assumes "demo_inv ar n addr s" and "in_time s" and "demo_ok ar n" and "addrs_apart addr"
  shows "\<exists>s'. demo_reach ar n addr s s' \<and> demo_confirmed s'"
proof -
  let ?P = "\<lambda>s. demo_inv ar n addr s \<and> in_time s"
  have "\<exists>s'. demo_reach ar n addr s s' \<and> ?P s' \<and> demo_left s' < demo_left s" if "?P s" "\<not> demo_confirmed s" for s
  proof -
    have "demo_inv ar n addr s" "in_time s" using that(1) by simp_all
    from demo_goes_on [OF this(1) assms(3,4) this(2) that(2)] obtain s1 s2 where
      s: "demo_reach ar n addr s s1" "demo_step ar n addr s1 (Inr s2)" "in_time s2" "demo_left s2 < demo_left s"
      by (auto simp: goes_on_def)
    have "demo_reach ar n addr s s2" by (rule reaches_step [OF s(1,2)])
    moreover from demo_reach_inv [OF this _ assms(3,4)] that(1) have "demo_inv ar n addr s2" by simp
    ultimately show ?thesis using s(3,4) by (intro exI [of _ s2]) simp
  qed
  from reaches_done [where P = ?P and ready = demo_confirmed and left = demo_left, OF _ this] assms(1,2) show ?thesis by blast
qed

section \<open>Properties\<close>

definition sample_demo :: demo_system where
  "sample_demo = \<lparr>ds_node = (\<lambda>_. sample_client\<lparr>cl_server := sockaddr_zero\<lparr>sin_port := htons DEFAULT_SERVER_PORT\<rparr>\<rparr>),
     ds_producer = P_work, ds_counter = D_wait, ds_summarizer = S_result\<rparr>"

definition sample_demo_addr :: "demo_role \<Rightarrow> sockaddr" where
  "sample_demo_addr r = sockaddr_zero\<lparr>sin_port := (case r of DProducer \<Rightarrow> 1 | DCounter \<Rightarrow> 2 | DSummarizer \<Rightarrow> 3)\<rparr>"

text \<open>Arithmetic modulo \<open>2 ^ 64\<close> is exact enough.\<close>

definition sample_arithmetic :: arithmetic where
  "sample_arithmetic = \<lparr>ar_add = (+), ar_of_nat = word_of_nat, ar_close = (=)\<rparr>"

lemma sample_demo:
  "demo_start demo_args sample_demo" "addrs_apart sample_demo_addr" "demo_ok sample_arithmetic DEMO_SIZE"
proof -
  show "demo_start demo_args sample_demo"
    by (simp add: demo_start_def sample_demo_def new_client_def demo_args_def) (simp add: sample_client_def)
  show "addrs_apart sample_demo_addr"
    by (auto simp: addrs_apart_def sample_demo_addr_def sockaddr_eq_def split: demo_role.splits)
  show "demo_ok sample_arithmetic DEMO_SIZE"
    by (simp add: demo_ok_def exact_upto_def sample_arithmetic_def DEMO_SIZE_def)
qed





end
