(* ===== verification/WordCount.thy ===== *)
theory WordCount
  imports Rower KVStore Decimal
begin

text \<open>
  \<open>include/util/wordcount.h\<close> and \<open>src/util/wordcount.cpp\<close>: the rower that counts words, and the
  reader that turns a file into a column of words.
\<close>

section \<open>\<open>CounterRower\<close>\<close>

text \<open>The counts are \<open>size_t\<close>; the hash table is the map it holds.\<close>

type_synonym word_map = "string \<rightharpoonup> u64"

definition count_word :: "string \<Rightarrow> word_map \<Rightarrow> word_map" where
  "count_word w m = (case m w of Some n \<Rightarrow> m(w \<mapsto> n + 1) | None \<Rightarrow> m(w \<mapsto> 1))"

definition counter_accept :: "row \<Rightarrow> word_map \<Rightarrow> (bool \<times> word_map) res" where
  "counter_accept r m =
     emap (Pair True)
       (efold (\<lambda>c m. ebind (row_col_type r c) (\<lambda>t.
           if t = CHR ''S'' then emap (\<lambda>w. case w of Some w \<Rightarrow> count_word w m | None \<Rightarrow> m) (row_get_string r c)
           else Inr m))
         [0..<row_width r] m)"

definition counter_join :: "word_map \<Rightarrow> word_map \<Rightarrow> word_map" where
  "counter_join m other = (\<lambda>w. case other w of
       None \<Rightarrow> m w
     | Some n \<Rightarrow> (case m w of Some k \<Rightarrow> Some (k + n) | None \<Rightarrow> Some n))"

definition counter_clone :: "word_map \<Rightarrow> word_map option" where
  "counter_clone m = Some Map.empty"

definition counter_rower :: "word_map rower" where
  "counter_rower = \<lparr>rower_accept = counter_accept, rower_join = (\<lambda>m other. Inr (counter_join m other)),
     rower_clone = counter_clone\<rparr>"

text \<open>\<open>hash\<close> runs over the table in its order; \<open>equals\<close> compares the tables as maps.\<close>

definition counter_hash :: "(string \<times> u64) list \<Rightarrow> u64" where
  "counter_hash es = fold (\<lambda>(w, n) h. h + xor n (word_of_nat (length w))) es (word_of_nat (length es))"

definition counter_equals :: "(string \<times> u64) list \<Rightarrow> (string \<times> u64) list \<Rightarrow> bool" where
  "counter_equals es es' \<longleftrightarrow> length es = length es' \<and> list_all (\<lambda>(w, n). map_of es' w = Some n) es"

text \<open>So equal counters have the same hash, whatever the order of their tables.\<close>

lemma counter_equals_hash:
  assumes "counter_equals es es'" and "distinct (map fst es)" and "distinct (map fst es')"
  shows "counter_hash es = counter_hash es'"
proof -
  have sum: "fold (\<lambda>(w, n) h. h + xor n (word_of_nat (length w))) es h =
      h + (\<Sum>(w, n)\<in>set es. xor n (word_of_nat (length w)))"
    if "distinct es" for es :: "(string \<times> u64) list" and h
    using that by (induction es arbitrary: h) (simp_all add: case_prod_beta add.assoc)
  have dist: "distinct es" "distinct es'" using assms(2,3) by (simp_all add: distinct_map)
  have "set es \<subseteq> set es'" using assms(1,3) by (fastforce simp: counter_equals_def list_all_iff)
  moreover have "card (set es) = card (set es')"
    using assms(1) dist by (simp add: counter_equals_def distinct_card)
  ultimately have "set es = set es'" by (intro card_subset_eq) simp_all
  then show ?thesis using sum [OF dist(1)] sum [OF dist(2)] assms(1) by (simp add: counter_hash_def counter_equals_def)
qed

text \<open>The words of a row are its string fields that are present.\<close>

fun cell_words :: "cell \<Rightarrow> string list" where
  "cell_words (StringCell (Some w)) = [w]"
| "cell_words _ = []"

definition count_row :: "cell list \<Rightarrow> word_map \<Rightarrow> word_map" where
  "count_row xs = fold count_word (concat (map cell_words xs))"

lemma counter_accept_filled:
  assumes "row_filled r"
  shows "counter_accept r m = Inr (True, count_row (row_values r) m)"
proof -
  let ?step = "\<lambda>x m. fold count_word (cell_words x) m"
  have wf: "row_width r = length (row_types r)" "length (row_values r) = row_width r"
    "map cell_type (row_values r) = row_types r"
    using assms by (simp_all add: row_filled_def row_wf_def)
  have types: "row_types r ! i = cell_type (row_values r ! i)" if "i < row_width r" for i
    using that wf by (metis nth_map)
  have "efold (\<lambda>c m. ebind (row_col_type r c) (\<lambda>t.
           if t = CHR ''S'' then emap (\<lambda>w. case w of Some w \<Rightarrow> count_word w m | None \<Rightarrow> m) (row_get_string r c)
           else Inr m)) [0..<row_width r] m =
      Inr (fold (\<lambda>i. ?step (row_values r ! i)) [0..<row_width r] m)"
  proof (rule efold_total)
    fix c and m :: word_map
    assume "c \<in> set [0..<row_width r]"
    then show "ebind (row_col_type r c) (\<lambda>t.
           if t = CHR ''S'' then emap (\<lambda>w. case w of Some w \<Rightarrow> count_word w m | None \<Rightarrow> m) (row_get_string r c)
           else Inr m) = Inr (?step (row_values r ! c) m)"
      using wf(1,2) types [of c]
      by (cases "row_values r ! c")
        (auto simp: row_col_type_def row_get_string_def split: option.split)
  qed
  also have "fold (\<lambda>i. ?step (row_values r ! i)) [0..<row_width r] m =
      fold ?step (map (nth (row_values r)) [0..<row_width r]) m"
    by (simp add: fold_map comp_def)
  also have "map (nth (row_values r)) [0..<row_width r] = row_values r"
    using wf(2) map_nth [of "row_values r"] by simp
  also have "fold ?step xs m = count_row xs m" for xs
    unfolding count_row_def by (induction xs arbitrary: m) simp_all
  finally show ?thesis by (simp add: counter_accept_def)
qed

lemma counter_join_word: "counter_join m (count_word w n) = count_word w (counter_join m n)"
  by (rule ext) (auto simp: counter_join_def count_word_def split: option.split)

text \<open>Counting can be split over threads.\<close>

interpretation counter: splittable_rower counter_rower "\<lambda>_. True" count_row Map.empty counter_join
proof unfold_locales
  fix m n :: word_map and xs
  have "counter_join m (fold count_word ws n) = fold count_word ws (counter_join m n)" for ws
    by (induction ws arbitrary: n) (simp_all add: counter_join_word)
  then show "counter_join m (count_row xs n) = count_row xs (counter_join m n)"
    by (simp add: count_row_def)
qed (simp_all add: counter_rower_def counter_clone_def counter_accept_filled counter_join_def)

lemma count_words:
  "fold count_word ws m w =
     (if w \<in> set ws then Some ((case m w of Some n \<Rightarrow> n | None \<Rightarrow> 0) + word_of_nat (count_list ws w)) else m w)"
proof (induction ws arbitrary: m)
  case (Cons v ws)
  then show ?case
    by (cases "v = w"; cases "w \<in> set ws"; cases "m w")
      (simp_all add: count_word_def add.assoc count_list_0_iff split: option.split)
qed simp

definition frame_words :: "dataframe \<Rightarrow> string list" where
  "frame_words df = concat (map (\<lambda>xs. concat (map cell_words xs)) (df_rows df))"

lemma fold_count_rows: "fold count_row xss m = fold count_word (concat (map (\<lambda>xs. concat (map cell_words xs)) xss)) m"
  by (induction xss arbitrary: m) (simp_all add: count_row_def)

text \<open>
  On any frame, split or not, every word ends up with the number of its occurrences (as a
  \<open>size_t\<close>), and nothing else is in the table.
\<close>

lemma counter_pmap:
  assumes "df_rect df"
  shows "df_pmap df counter_rower Map.empty =
     Inr (\<lambda>w. if w \<in> set (frame_words df) then Some (word_of_nat (count_list (frame_words df) w)) else None)"
proof -
  have "df_pmap df counter_rower Map.empty = Inr (fold count_row (df_rows df) Map.empty)"
    using assms by (intro counter.pmap_fold) (simp_all add: list.pred_True)
  also have "fold count_row (df_rows df) Map.empty =
      (\<lambda>w. if w \<in> set (frame_words df) then Some (word_of_nat (count_list (frame_words df) w)) else None)"
    by (rule ext) (simp add: fold_count_rows count_words frame_words_def)
  finally show ?thesis .
qed

section \<open>Reading words\<close>

text \<open>
  The lines \<open>std::getline\<close> delivers until the stream is at its end: what is between line feeds,
  with an empty last line when the file ends in one.
\<close>

fun getlines :: "string \<Rightarrow> string \<Rightarrow> string list" where
  "getlines line [] = [line]"
| "getlines line (c # cs) = (if c = CHR 0x0A then line # getlines [] cs else getlines (line @ [c]) cs)"

text \<open>One character of a line: it extends the current word or, if it is a space, ends it.\<close>

definition read_char :: "char \<Rightarrow> string \<times> string list \<Rightarrow> string \<times> string list" where
  "read_char c st = (case st of (word, col) \<Rightarrow>
     if \<not> is_space c then (word @ [c], col)
     else if word \<noteq> [] then ([], col @ [word]) else (word, col))"

text \<open>The words pushed for a file; \<open>None\<close> is a file that cannot be opened.\<close>

definition read_words :: "string option \<Rightarrow> string list" where
  "read_words file =
     (case file of
        None \<Rightarrow> []
      | Some content \<Rightarrow> snd (fold (\<lambda>line st. fold read_char line st) (getlines [] content) ([], [])))"

definition read_in_file :: "kv_key \<Rightarrow> string option \<Rightarrow> kvstore \<Rightarrow> kvstore res" where
  "read_in_file key file st =
     ebind (push_values (\<lambda>w. StringCell (Some w)) (read_words file) (StringColumn na_empty)) (\<lambda>col.
     kv_set key (df_add_column col None df_empty) st)"

text \<open>Line feeds do not separate words: the lines are read as one long line.\<close>

lemma getlines_concat: "concat (getlines line cs) = line @ filter (\<lambda>c. c \<noteq> CHR 0x0A) cs"
  by (induction line cs rule: getlines.induct) auto

lemma read_words_chars:
  "read_words (Some content) = snd (fold read_char (filter (\<lambda>c. c \<noteq> CHR 0x0A) content) ([], []))"
proof -
  have "fold (\<lambda>line st. fold read_char line st) ls st = fold read_char (concat ls) st" for ls st
    by (induction ls arbitrary: st) simp_all
  then show ?thesis by (simp add: read_words_def getlines_concat)
qed

text \<open>The words of a text: what is between white space of any kind.\<close>

fun split_words :: "string \<Rightarrow> string \<Rightarrow> string list" where
  "split_words word [] = (if word = [] then [] else [word])"
| "split_words word (c # cs) =
     (if \<not> is_space c then split_words (word @ [c]) cs
      else if word \<noteq> [] then word # split_words [] cs else split_words [] cs)"

definition flush_word :: "string \<times> string list \<Rightarrow> string list" where
  "flush_word st = snd st @ (if fst st = [] then [] else [fst st])"

lemma read_char_split: "flush_word (fold read_char cs (word, col)) = col @ split_words word cs"
proof (induction word cs arbitrary: col rule: split_words.induct)
  case (2 word c cs)
  show ?case
  proof (cases "is_space c")
    case True
    with 2(2,3) show ?thesis by (cases "word = []") (simp_all add: read_char_def)
  next
    case False
    with 2(1) show ?thesis by (simp add: read_char_def)
  qed
qed (simp add: flush_word_def)

lemma read_char_word_empty:
  "cs \<noteq> [] \<Longrightarrow> fst (fold read_char cs st) = [] \<longleftrightarrow> is_space (last cs)"
  by (induction cs rule: rev_induct) (auto simp: read_char_def split: prod.split)

text \<open>
  The reader finds the words of a text, but line feeds do not separate words, and the last word is
  lost unless white space other than a line feed follows it.
\<close>

lemma read_words_spec:
  "read_words (Some content) =
     (let cs = filter (\<lambda>c. c \<noteq> CHR 0x0A) content; ws = split_words [] cs in
      if cs = [] \<or> is_space (last cs) then ws else butlast ws)"
proof -
  let ?cs = "filter (\<lambda>c. c \<noteq> CHR 0x0A) content"
  let ?st = "fold read_char ?cs ([], [])"
  have words: "split_words [] ?cs = snd ?st @ (if fst ?st = [] then [] else [fst ?st])"
    using read_char_split [of ?cs "[]" "[]"] by (simp add: flush_word_def)
  have "fst ?st = [] \<longleftrightarrow> ?cs = [] \<or> is_space (last ?cs)"
    using read_char_word_empty by (cases "?cs = []") auto
  with words show ?thesis by (auto simp: read_words_chars Let_def)
qed

text \<open>What a word count of a stored file gives.\<close>

lemma read_in_file_column:
  assumes "kv_remote_view st (key_name key) = None"
  obtains c where "read_in_file key file st = Inr (kv_set_store key (df_add_column c None df_empty) st)"
    and "col_wf c" and "col_view c = map (\<lambda>w. StringCell (Some w)) (read_words file)"
    and "frame_words (df_add_column c None df_empty) = read_words file"
proof -
  obtain c where c: "push_values (\<lambda>w. StringCell (Some w)) (read_words file) (StringColumn na_empty) = Inr c"
    "col_wf c" "col_view c = map (\<lambda>w. StringCell (Some w)) (read_words file)"
    using push_values_view [OF empty_column_views(7), of "\<lambda>w. StringCell (Some w)" "read_words file"]
      empty_column_views(8) by auto
  have "frame_words (df_add_column c None df_empty) = read_words file"
    using one_column_rows(2) [OF c(2)] c(3) by (simp add: frame_words_def comp_def)
  with that c show thesis using assms by (simp add: read_in_file_def kv_set_eq)
qed

section \<open>Properties\<close>

text \<open>
  The word count end to end: a node that knows of no other node's key of that name stores the
  words of the file as a frame, finds the frame under its key, and counting in parallel gives every
  word of the file the number of its occurrences (as a \<open>size_t\<close>) and nothing else.
\<close>

lemma word_count_file:
  assumes "kv_remote_view st (key_name key) = None"
  shows "\<exists>st' df. read_in_file key file st = Inr st' \<and> kv_get_local st' key = Some df
     \<and> df_pmap df counter_rower Map.empty =
       Inr (\<lambda>w. if w \<in> set (read_words file) then Some (word_of_nat (count_list (read_words file) w)) else None)"
proof -
  obtain c where c: "read_in_file key file st = Inr (kv_set_store key (df_add_column c None df_empty) st)"
    "col_wf c" "frame_words (df_add_column c None df_empty) = read_words file"
    by (rule read_in_file_column [OF assms])
  then show ?thesis using counter_pmap [OF one_column_rows(1) [OF c(2)], unfolded c(3)] by (simp add: kv_get_local_view)
qed

end
