(* ===== verification/WordCountSystem.thy ===== *)
theory WordCountSystem
  imports WordCount Cluster
begin

text \<open>
  \<open>src/util/wordcount.cpp\<close> as it runs: the reader's node stores the words of its file, the counter's
  node waits for the frame, counts and prints. A state is the two nodes with the places \<open>_reader\<close> and
  \<open>_counter\<close> have reached; the steps are theirs and those of the network threads.
\<close>

section \<open>The two programs\<close>

datatype wc_role = WReader | WCounter

text \<open>
  \<open>_reader\<close> is before its work, waiting for its network thread to end, or waiting for it in order to exit with
  code 1.
\<close>

datatype reader_at = R_work | R_join | R_exit

datatype counter_at = K_wait | K_count dataframe | K_join

text \<open>
  \<open>_reader\<close> without a file name, or with an exception on the way, asks the server to end everything.
\<close>

definition wc_reader :: "kv_key \<Rightarrow> string option \<Rightarrow> (string \<Rightarrow> string option) \<Rightarrow> client \<Rightarrow> (reader_at \<times> client) res" where
  "wc_reader key filename files cl =
     (case filename of
        None \<Rightarrow> emap (Pair R_exit) (client_request_teardown cl)
      | Some f \<Rightarrow>
          (case read_in_file key (files f) (cl_store cl) of
             Inr st \<Rightarrow> Inr (R_join, cl\<lparr>cl_store := st\<rparr>)
           | Inl (Throw e) \<Rightarrow> emap (Pair R_exit) (client_request_teardown cl)
           | Inl e \<Rightarrow> Inl e))"

text \<open>\<open>CounterRower::print\<close>, for the order in which the hash table happens to have its words.\<close>

definition counter_print :: "string list \<Rightarrow> word_map \<Rightarrow> string" where
  "counter_print order m = concat (map (\<lambda>w. w @ '': '' @ show_nat (unat (the (m w))) @ [CHR 0x0A]) order)"

definition table_order :: "word_map \<Rightarrow> string list \<Rightarrow> bool" where
  "table_order m order \<longleftrightarrow> distinct order \<and> set order = dom m"

record wc_system =
  ws_node :: "wc_role \<Rightarrow> client"
  ws_reader :: reader_at
  ws_counter :: counter_at
  ws_out :: string

definition wc_key :: string where "wc_key = ''wc_df''"

inductive wc_step :: "(wc_role \<Rightarrow> sockaddr) \<Rightarrow> string option \<Rightarrow> (string \<Rightarrow> string option) \<Rightarrow> wc_system \<Rightarrow> wc_system res \<Rightarrow> bool"
  for addr filename files s where
  wc_read: "ws_reader s = R_work \<Longrightarrow> wc_step addr filename files s
     (emap (\<lambda>(at, cl). s\<lparr>ws_node := (ws_node s)(WReader := cl), ws_reader := at\<rparr>)
       (wc_reader (key_of wc_key) filename files (ws_node s WReader)))"
| wc_got: "ws_counter s = K_wait \<Longrightarrow> lookup [WReader, WCounter] addr (ws_node s) WCounter wc_key = Inr (Some df)
    \<Longrightarrow> wc_step addr filename files s (Inr (s\<lparr>ws_counter := K_count df\<rparr>))"
| wc_get_fails: "ws_counter s = K_wait \<Longrightarrow> lookup [WReader, WCounter] addr (ws_node s) WCounter wc_key = Inl e
    \<Longrightarrow> wc_step addr filename files s (Inl e)"
| wc_count: "ws_counter s = K_count df \<Longrightarrow> df_pmap df counter_rower Map.empty = Inr m \<Longrightarrow> table_order m order
    \<Longrightarrow> wc_step addr filename files s (Inr (s\<lparr>ws_counter := K_join, ws_out := ws_out s @ counter_print order m\<rparr>))"
| wc_count_fails: "ws_counter s = K_count df \<Longrightarrow> df_pmap df counter_rower Map.empty = Inl e
    \<Longrightarrow> wc_step addr filename files s (Inl e)"
| wc_network: "net_step addr (ws_node s) r \<Longrightarrow> wc_step addr filename files s (emap (\<lambda>ns. s\<lparr>ws_node := ns\<rparr>) r)"

inductive_cases wc_stepE: "wc_step addr filename files s r"

text \<open>Both nodes are new.\<close>

definition wc_start :: "app_args \<Rightarrow> wc_system \<Rightarrow> bool" where
  "wc_start a s \<longleftrightarrow> (\<forall>r. new_client a (ws_node s r)) \<and> ws_reader s = R_work \<and> ws_counter s = K_wait \<and> ws_out s = []"

section \<open>The stored frame\<close>

definition wc_owns :: "wc_role \<Rightarrow> string \<Rightarrow> bool" where
  "wc_owns r n \<longleftrightarrow> r = WReader \<and> n = wc_key"

interpretation wc: cluster "[WReader, WCounter]" wc_owns
proof unfold_locales
  show "r \<in> set [WReader, WCounter]" for r by (cases r) simp_all
qed (auto simp: wc_owns_def wc_key_def ok_string_def)

text \<open>The words of a file are not longer, all together, than the file.\<close>

definition words_size :: "string \<times> string list \<Rightarrow> nat" where
  "words_size st = length (fst st) + length (concat (snd st)) + length (snd st)"

lemma read_char_size:
  "words_size (read_char c st) \<le> words_size st + 1"
  "[] \<notin> set (snd st) \<Longrightarrow> [] \<notin> set (snd (read_char c st))"
  by (auto simp: read_char_def words_size_def split: prod.split)

lemma read_words_size:
  "words_size ([], read_words file) \<le> (case file of None \<Rightarrow> 0 | Some content \<Rightarrow> length content)"
proof (cases "file")
  case (Some content)
  have "words_size (fold read_char cs st) \<le> words_size st + length cs" for cs st
  proof (induction cs arbitrary: st)
    case (Cons c cs)
    have "words_size (fold read_char cs (read_char c st)) \<le> words_size (read_char c st) + length cs"
      by (rule Cons.IH)
    then show ?case using read_char_size(1) [of c st] by simp
  qed simp
  from this [of "filter (\<lambda>c. c \<noteq> CHR 0x0A) content" "([], [])"]
  have "words_size (fold read_char (filter (\<lambda>c. c \<noteq> CHR 0x0A) content) ([], []))
      \<le> length (filter (\<lambda>c. c \<noteq> CHR 0x0A) content)" by (simp add: words_size_def)
  also have "\<dots> \<le> length content" by (rule length_filter_le)
  finally have "words_size (fold read_char (filter (\<lambda>c. c \<noteq> CHR 0x0A) content) ([], [])) \<le> length content" .
  then show ?thesis using Some by (simp add: read_words_chars words_size_def)
qed (simp add: read_words_def words_size_def)

text \<open>A frame that can be sent, with the words of the file.\<close>

definition wc_holds :: "string option \<Rightarrow> dataframe \<Rightarrow> bool" where
  "wc_holds content df \<longleftrightarrow> df_rect df \<and> df_columns df \<noteq> [] \<and> df_ok df \<and> frame_words df = read_words content"

definition small_file :: "string option \<Rightarrow> bool" where
  "small_file content \<longleftrightarrow> (case content of None \<Rightarrow> True | Some cs \<Rightarrow> length cs < 2 ^ 64)"

lemma read_in_file_holds:
  assumes "kv_remote_view st (key_name key) = None" and "small_file content"
  shows "\<exists>df. read_in_file key content st = Inr (kv_set_store key df st) \<and> wc_holds content df"
proof -
  let ?ws = "read_words content"
  obtain c where c: "read_in_file key content st = Inr (kv_set_store key (df_add_column c None df_empty) st)"
    "col_wf c" "col_view c = map (\<lambda>w. StringCell (Some w)) ?ws" "frame_words (df_add_column c None df_empty) = ?ws"
    by (rule read_in_file_column [OF assms(1)])
  let ?df = "df_add_column c None df_empty"
  have size: "words_size ([], ?ws) < 2 ^ 64"
    using read_words_size [of content] assms(2) by (auto simp: small_file_def split: option.splits)
  have "length w \<le> length (concat ?ws)" if "w \<in> set ?ws" for w
    using that by (auto simp: length_concat intro: member_le_sum_list)
  then have "ok_string w" if "w \<in> set ?ws" for w
    using that size by (fastforce simp: words_size_def ok_string_def)
  then have "col_ok c" using c(2,3) size by (auto simp: col_ok_view words_size_def)
  then have "df_ok ?df" by (rule one_column_ok)
  then have "wc_holds content ?df" using one_column_rows(1,3) [OF c(2)] c(4) by (simp add: wc_holds_def)
  then show ?thesis using c(1) by blast
qed

lemma wc_holds_received: "wc_holds content df \<Longrightarrow> frame_words (df_of_columns (df_columns df)) = read_words content
   \<and> df_rect (df_of_columns (df_columns df))"
  using received_rows [of df] by (simp add: wc_holds_def frame_words_def)

section \<open>The invariant\<close>

definition counted :: "string list \<Rightarrow> word_map" where
  "counted ws = (\<lambda>w. if w \<in> set ws then Some (word_of_nat (count_list ws w)) else None)"

text \<open>The output of a finished counter: each word once, with its count, in some order.\<close>

definition wc_printed :: "string list \<Rightarrow> string \<Rightarrow> bool" where
  "wc_printed ws out \<longleftrightarrow> (\<exists>order. distinct order \<and> set order = set ws \<and>
     out = concat (map (\<lambda>w. w @ '': '' @ show_nat (count_list ws w mod 2 ^ 64) @ [CHR 0x0A]) order))"

lemma counter_print_counted:
  assumes "table_order (counted ws) order"
  shows "wc_printed ws (counter_print order (counted ws))"
proof -
  have dom: "dom (counted ws) = set ws" by (auto simp: counted_def split: if_splits)
  have "counter_print order (counted ws) =
      concat (map (\<lambda>w. w @ '': '' @ show_nat (count_list ws w mod 2 ^ 64) @ [CHR 0x0A]) order)"
    using assms unfolding counter_print_def table_order_def dom
    by (intro arg_cong [of _ _ concat] map_cong) (simp_all add: counted_def unat_of_nat)
  then show ?thesis using assms by (auto simp: wc_printed_def table_order_def dom)
qed

definition wc_inv :: "(wc_role \<Rightarrow> sockaddr) \<Rightarrow> string option \<Rightarrow> wc_system \<Rightarrow> bool" where
  "wc_inv addr content s \<longleftrightarrow> stores_own wc_owns addr (ws_node s)
     \<and> (\<forall>df. store_view (ws_node s) WReader wc_key = Some df \<longrightarrow> wc_holds content df)
     \<and> ws_reader s \<noteq> R_exit \<and> (ws_reader s = R_join \<longrightarrow> store_view (ws_node s) WReader wc_key \<noteq> None)
     \<and> (case ws_counter s of
          K_wait \<Rightarrow> ws_out s = []
        | K_count df \<Rightarrow> ws_out s = [] \<and> df_rect df \<and> frame_words df = read_words content
        | K_join \<Rightarrow> wc_printed (read_words content) (ws_out s))"

lemma wc_start_inv: "wc_start a s \<Longrightarrow> wc_inv addr content s"
  using wc.empty_own [of "ws_node s" addr]
  by (auto simp: wc_start_def new_client_def wc_inv_def kv_view_map kv_empty_def)

lemma wc_key_local:
  assumes "stores_own wc_owns addr ns"
  shows "kv_remote_view (cl_store (ns WReader)) wc_key = None"
  using wc.store_own_key(1) [OF assms, of WReader wc_key df_empty]
  by (auto simp: wc_owns_def kv_set_eq key_of_def split: if_splits)

lemma wc_reader_runs:
  assumes "stores_own wc_owns addr ns" and "small_file (files f)"
  shows "\<exists>df. wc_holds (files f) df \<and> wc_reader (key_of wc_key) (Some f) files (ns WReader) =
     Inr (R_join, (ns WReader)\<lparr>cl_store := kv_set_store (key_of wc_key) df (cl_store (ns WReader))\<rparr>)"
  using read_in_file_holds [of "cl_store (ns WReader)" "key_of wc_key" "files f"] wc_key_local [OF assms(1)] assms(2)
  by (auto simp: key_of_def wc_reader_def)

lemma wc_step_ok:
  assumes step: "wc_step addr (Some f) files s r" and inv: "wc_inv addr (files f) s"
    and "addrs_apart addr" and "small_file (files f)"
  shows "\<exists>s'. r = Inr s' \<and> wc_inv addr (files f) s'"
proof -
  have own: "stores_own wc_owns addr (ws_node s)"
    and holds: "\<And>df. store_view (ws_node s) WReader wc_key = Some df \<Longrightarrow> wc_holds (files f) df"
    using inv by (simp_all add: wc_inv_def)
  have key: "wc_owns WReader wc_key" by (simp add: wc_owns_def)
  have "\<forall>df. store_view (ws_node s) WReader wc_key = Some df \<longrightarrow> df_ok df" using holds by (auto simp: wc_holds_def)
  note get = wc.lookup_result [OF own assms(3) key _ this, of WCounter]
  from step show ?thesis
  proof cases
    case wc_read
    obtain df where df: "wc_holds (files f) df" "wc_reader (key_of wc_key) (Some f) files (ws_node s WReader) =
        Inr (R_join, (ws_node s WReader)\<lparr>cl_store := kv_set_store (key_of wc_key) df (cl_store (ws_node s WReader))\<rparr>)"
      using wc_reader_runs [where files = files and f = f, OF own assms(4)] by blast
    let ?ns = "put_store WReader (kv_set_store (key_of wc_key) df (cl_store (ws_node s WReader))) (ws_node s)"
    have "r = Inr (s\<lparr>ws_node := ?ns, ws_reader := R_join\<rparr>)"
      using wc_read(1) df(2) by (simp add: put_store_def)
    moreover have "wc_inv addr (files f) (s\<lparr>ws_node := ?ns, ws_reader := R_join\<rparr>)"
      using wc.store_own_key(2) [OF own key, of df] inv df(1) by (simp add: wc_inv_def key_of_def split: counter_at.splits)
    ultimately show ?thesis by blast
  next
    case (wc_got df)
    then obtain df0 where "wc_holds (files f) df0" "df = df_of_columns (df_columns df0)"
      using get(2) holds by blast
    then show ?thesis using wc_holds_received inv wc_got(1,2) by (auto simp: wc_inv_def)
  next
    case (wc_get_fails e)
    then show ?thesis using get(1) by blast
  next
    case (wc_count df m order)
    then have df: "df_rect df" "frame_words df = read_words (files f)" "ws_out s = []" using inv by (simp_all add: wc_inv_def)
    then have "m = counted (read_words (files f))"
      using counter_pmap [OF df(1), unfolded df(2)] wc_count(3) by (simp add: counted_def)
    then show ?thesis using counter_print_counted wc_count(1,4) inv df(3) by (auto simp: wc_inv_def)
  next
    case (wc_count_fails df e)
    then have "df_rect df" using inv by (simp add: wc_inv_def)
    then show ?thesis using counter_pmap wc_count_fails(3) by simp
  next
    case (wc_network r')
    obtain ns where ns: "r' = Inr ns" "stores_own wc_owns addr ns" "\<And>q. store_view ns q = store_view (ws_node s) q"
      using wc.net_step_ok [OF wc_network(2) own] by blast
    then show ?thesis using wc_network(1) inv by (simp add: wc_inv_def split: counter_at.splits)
  qed
qed

section \<open>Progress\<close>

abbreviation wc_reach :: "(wc_role \<Rightarrow> sockaddr) \<Rightarrow> string option \<Rightarrow> (string \<Rightarrow> string option) \<Rightarrow> wc_system \<Rightarrow> wc_system \<Rightarrow> bool" where
  "wc_reach addr filename files \<equiv> reaches (wc_step addr filename files)"

lemma wc_reach_inv:
  assumes "wc_reach addr (Some f) files s s'" and "wc_inv addr (files f) s"
    and "addrs_apart addr" and "small_file (files f)"
  shows "wc_inv addr (files f) s'"
  using assms(1,2) by (rule reaches_inv) (use wc_step_ok assms(3,4) in blast)

definition wc_done :: "wc_system \<Rightarrow> bool" where
  "wc_done s \<longleftrightarrow> ws_reader s = R_join \<and> ws_counter s = K_join"

definition wc_left :: "wc_system \<Rightarrow> nat" where
  "wc_left s = (case ws_reader s of R_work \<Rightarrow> 1 | _ \<Rightarrow> 0) + (case ws_counter s of K_wait \<Rightarrow> 2 | K_count _ \<Rightarrow> 1 | K_join \<Rightarrow> 0)"

lemma wc_some_step:
  assumes inv: "wc_inv addr (files f) s" and "addrs_apart addr" and "small_file (files f)" and "\<not> wc_done s"
  shows "\<exists>s1 s2. wc_reach addr (Some f) files s s1 \<and> wc_step addr (Some f) files s1 (Inr s2) \<and> wc_left s2 < wc_left s"
proof -
  let ?step = "wc_step addr (Some f) files"
  have here: ?thesis if "?step s (Inr s2)" "wc_left s2 < wc_left s" for s2
    using that by (intro exI [of _ s] exI [of _ s2]) (simp add: reaches_refl)
  have own: "stores_own wc_owns addr (ws_node s)"
    and holds: "\<forall>df. store_view (ws_node s) WReader wc_key = Some df \<longrightarrow> df_ok df"
    using inv by (auto simp: wc_inv_def wc_holds_def)
  show ?thesis
  proof (cases "ws_reader s")
    case R_work
    obtain df where "wc_reader (key_of wc_key) (Some f) files (ws_node s WReader) =
        Inr (R_join, (ws_node s WReader)\<lparr>cl_store := kv_set_store (key_of wc_key) df (cl_store (ws_node s WReader))\<rparr>)"
      using wc_reader_runs [where files = files and f = f, OF own assms(3)] by blast
    then show ?thesis using wc_read [OF R_work, of addr "Some f" files] R_work
      by (intro here) (auto simp: wc_left_def)
  next
    case R_join
    show ?thesis
    proof (cases "ws_counter s")
      case K_wait
      have key: "wc_owns WReader wc_key" "WReader \<noteq> WCounter" by (simp_all add: wc_owns_def)
      have "store_view (ws_node s) WReader wc_key \<noteq> None" using inv R_join by (simp add: wc_inv_def)
      from wc.can_lookup [OF own assms(2) key this holds] obtain ns df where
        ns: "reaches (net_step addr) (ws_node s) ns" "lookup [WReader, WCounter] addr ns WCounter wc_key = Inr (Some df)" .
      let ?f = "\<lambda>ns. s\<lparr>ws_node := ns\<rparr>"
      have "?step (?f ns) (Inr (?f ns'))" if "net_step addr ns (Inr ns')" for ns ns'
        using wc_network [of addr "?f ns" "Inr ns'"] that by simp
      then have "wc_reach addr (Some f) files (?f (ws_node s)) (?f ns)" by (rule reaches_mono [OF ns(1)])
      moreover have "?step (?f ns) (Inr ((?f ns)\<lparr>ws_counter := K_count df\<rparr>))"
        using wc_got [of "?f ns" addr df] ns(2) K_wait by simp
      ultimately show ?thesis using K_wait
        by (intro exI [of _ "?f ns"] exI [of _ "(?f ns)\<lparr>ws_counter := K_count df\<rparr>"]) (simp add: wc_left_def)
    next
      case (K_count df)
      then have df: "df_rect df" using inv by (simp add: wc_inv_def)
      obtain m where m: "df_pmap df counter_rower Map.empty = Inr m" "finite (dom m)"
        using counter_pmap [OF df] by (auto simp: dom_def)
      obtain order where "table_order m order" using finite_distinct_list [OF m(2)] by (auto simp: table_order_def)
      then show ?thesis using wc_count [OF K_count m(1), of order addr "Some f" files] K_count
        by (intro here) (auto simp: wc_left_def)
    next
      case K_join
      then show ?thesis using assms(4) R_join by (simp add: wc_done_def)
    qed
  next
    case R_exit
    then show ?thesis using inv by (simp add: wc_inv_def)
  qed
qed

lemma wc_finish:
  assumes "wc_inv addr (files f) s" and "addrs_apart addr" and "small_file (files f)"
  shows "\<exists>s'. wc_reach addr (Some f) files s s' \<and> wc_inv addr (files f) s' \<and> wc_done s'"
proof (rule reaches_done [where left = wc_left and P = "wc_inv addr (files f)"])
  show "wc_inv addr (files f) s" by (rule assms(1))
next
  fix s
  assume inv: "wc_inv addr (files f) s" and "\<not> wc_done s"
  then obtain s1 s2 where s: "wc_reach addr (Some f) files s s1" "wc_step addr (Some f) files s1 (Inr s2)"
    "wc_left s2 < wc_left s" using wc_some_step assms(2,3) by blast
  have reach: "wc_reach addr (Some f) files s s2" using s(1,2) by (rule reaches_step)
  have "wc_inv addr (files f) s2" by (rule wc_reach_inv [OF reach inv assms(2,3)])
  with reach s(3) show "\<exists>s'. wc_reach addr (Some f) files s s' \<and> wc_inv addr (files f) s' \<and> wc_left s' < wc_left s"
    by (intro exI [of _ s2]) simp
qed

text \<open>Without a file name nothing is ever stored.\<close>

definition wc_silent :: "(wc_role \<Rightarrow> sockaddr) \<Rightarrow> wc_system \<Rightarrow> bool" where
  "wc_silent addr s \<longleftrightarrow> stores_own wc_owns addr (ws_node s) \<and> store_view (ws_node s) WReader wc_key = None
     \<and> ws_counter s = K_wait \<and> ws_out s = []"

lemma wc_step_silent:
  assumes step: "wc_step addr None files s (Inr s')" and silent: "wc_silent addr s" and "addrs_apart addr"
  shows "wc_silent addr s'"
proof -
  have own: "stores_own wc_owns addr (ws_node s)" and none: "store_view (ws_node s) WReader wc_key = None"
    using silent by (simp_all add: wc_silent_def)
  have key: "wc_owns WReader wc_key" "WReader \<noteq> WCounter" by (simp_all add: wc_owns_def)
  from step show ?thesis
  proof cases
    case wc_read
    then obtain cl where cl: "client_request_teardown (ws_node s WReader) = Inr cl"
      "s' = s\<lparr>ws_node := (ws_node s)(WReader := cl), ws_reader := R_exit\<rparr>"
      by (auto simp: wc_reader_def emap_eq_Inr dest!: sym [of "Inr _"])
    then have store: "cl_store cl = cl_store (ws_node s WReader)"
      by (auto simp: client_request_teardown_def emap_eq_Inr split: option.splits)
    have "stores_own wc_owns addr ((ws_node s)(WReader := cl)) = stores_own wc_owns addr (ws_node s)"
      by (rule stores_own_views) (simp_all add: store)
    then show ?thesis using silent cl(2) store by (simp add: wc_silent_def)
  next
    case (wc_got df)
    then show ?thesis
      using wc.lookup_result(2) [OF own assms(3) key] none by (metis option.distinct(1))
  next
    case (wc_count df m order)
    then show ?thesis using silent by (simp add: wc_silent_def)
  next
    case (wc_network r)
    then obtain ns where ns: "r = Inr ns" "s' = s\<lparr>ws_node := ns\<rparr>" by (auto simp: emap_eq_Inr dest!: sym [of "Inr _"])
    then show ?thesis using wc.net_step_ok [OF wc_network(2) own] silent by (auto simp: wc_silent_def)
  qed
qed

section \<open>Properties\<close>

definition sample_wc :: wc_system where
  "sample_wc = \<lparr>ws_node = (\<lambda>_. sample_client\<lparr>cl_server := sockaddr_zero\<lparr>sin_port := htons SERVER_PORT\<rparr>\<rparr>),
     ws_reader = R_work, ws_counter = K_wait, ws_out = []\<rparr>"

definition sample_wc_addr :: "wc_role \<Rightarrow> sockaddr" where
  "sample_wc_addr r = sockaddr_zero\<lparr>sin_port := (case r of WReader \<Rightarrow> 1 | WCounter \<Rightarrow> 2)\<rparr>"

definition sample_files :: "string \<Rightarrow> string option" where
  "sample_files f = (if f = ''in'' then Some ''a b a '' else None)"

lemma sample_wc:
  "wc_start wordcount_args sample_wc" "addrs_apart sample_wc_addr" "small_file (sample_files ''in'')"
  "read_words (sample_files ''in'') = [''a'', ''b'', ''a'']"
proof -
  show "wc_start wordcount_args sample_wc"
    by (simp add: wc_start_def sample_wc_def new_client_def wordcount_args_def) (simp add: sample_client_def)
  show "addrs_apart sample_wc_addr"
    by (auto simp: addrs_apart_def sample_wc_addr_def sockaddr_eq_def split: wc_role.splits)
  show "small_file (sample_files ''in'')" by (simp add: small_file_def sample_files_def)
  show "read_words (sample_files ''in'') = [''a'', ''b'', ''a'']"
    by (simp add: sample_files_def read_words_def read_char_def is_space_def)
qed







end
