(* ===== verification/StoreRefinement.thy ===== *)
theory StoreRefinement
  imports WordCountSystem
begin

text \<open>
  What the distributed key-value store promises to a program: one map from names to frames, shared by all
  nodes. The nodes of \<open>Cluster\<close>, with their local tables, what they know of each other and the
  messages of their network threads, refine that map.
\<close>

section \<open>Specification\<close>

text \<open>A program stores a frame under a name, looks a name up, or does nothing while nodes exchange keys.\<close>

datatype store_event = Put string dataframe | Got string "dataframe option" | Net

text \<open>
  The shared map. A lookup may find nothing (the key is not known yet); what it finds has the columns that were
  stored last.
\<close>

fun map_allows :: "(string \<rightharpoonup> dataframe) \<Rightarrow> store_event \<Rightarrow> (string \<rightharpoonup> dataframe) \<Rightarrow> bool" where
  "map_allows m (Put n df) m' \<longleftrightarrow> m' = m(n \<mapsto> df)"
| "map_allows m (Got n v) m' \<longleftrightarrow> m' = m \<and> (\<forall>df. v = Some df \<longrightarrow> (\<exists>df0. m n = Some df0 \<and> df_columns df = df_columns df0))"
| "map_allows m Net m' \<longleftrightarrow> m' = m"

inductive map_run :: "(string \<rightharpoonup> dataframe) \<Rightarrow> store_event list \<Rightarrow> (string \<rightharpoonup> dataframe) \<Rightarrow> bool" for m where
  map_run_none: "map_run m [] m"
| map_run_event: "map_run m es m' \<Longrightarrow> map_allows m' e m'' \<Longrightarrow> map_run m (es @ [e]) m''"

section \<open>Implementation\<close>

inductive cluster_event :: "'r list \<Rightarrow> ('r \<Rightarrow> string \<Rightarrow> bool) \<Rightarrow> ('r \<Rightarrow> sockaddr) \<Rightarrow> 'r nodes \<Rightarrow> store_event \<Rightarrow> 'r nodes \<Rightarrow> bool"
  for roles owns addr ns where
  event_put: "owns r n \<Longrightarrow> kv_set (key_of n) df (cl_store (ns r)) = Inr st
    \<Longrightarrow> cluster_event roles owns addr ns (Put n df) (put_store r st ns)"
| event_got: "lookup roles addr ns r n = Inr v \<Longrightarrow> cluster_event roles owns addr ns (Got n v) ns"
| event_net: "net_step addr ns (Inr ns') \<Longrightarrow> cluster_event roles owns addr ns Net ns'"

inductive cluster_run :: "'r list \<Rightarrow> ('r \<Rightarrow> string \<Rightarrow> bool) \<Rightarrow> ('r \<Rightarrow> sockaddr) \<Rightarrow> 'r nodes \<Rightarrow> store_event list \<Rightarrow> 'r nodes \<Rightarrow> bool"
  for roles owns addr ns where
  run_none: "cluster_run roles owns addr ns [] ns"
| run_event: "cluster_run roles owns addr ns es ns' \<Longrightarrow> cluster_event roles owns addr ns' e ns''
    \<Longrightarrow> cluster_run roles owns addr ns (es @ [e]) ns''"

inductive_cases cluster_eventE: "cluster_event roles owns addr ns e ns'"

text \<open>The map the nodes hold together.\<close>

definition shared :: "'r list \<Rightarrow> 'r nodes \<Rightarrow> string \<rightharpoonup> dataframe" where
  "shared roles ns n = (case find (\<lambda>r. store_view ns r n \<noteq> None) roles of None \<Rightarrow> None | Some r \<Rightarrow> store_view ns r n)"

definition sendable :: "'r nodes \<Rightarrow> bool" where
  "sendable ns \<longleftrightarrow> (\<forall>r n df. store_view ns r n = Some df \<longrightarrow> df_ok df)"

context cluster
begin

text \<open>It is what the owner of a name has stored.\<close>

lemma shared_owner:
  assumes "stores_own owns addr ns" and "owns r n"
  shows "shared roles ns n = store_view ns r n"
proof (cases "find (\<lambda>r. store_view ns r n \<noteq> None) roles")
  case None
  then have "store_view ns r n = None" using all_roles [of r] by (auto simp: find_None_iff)
  then show ?thesis unfolding shared_def by (simp only: None option.case)
next
  case (Some q)
  then have "store_view ns q n \<noteq> None" by (auto simp: find_Some_iff)
  then have "q = r" using stores_ownD(1) [OF assms(1)] owns_one [OF _ assms(2)] by blast
  then show ?thesis unfolding shared_def by (simp only: Some option.case)
qed

lemma shared_nobody:
  assumes "stores_own owns addr ns" and "\<And>r. \<not> owns r n"
  shows "shared roles ns n = None"
proof -
  have "store_view ns r n = None" for r using stores_ownD(1) [OF assms(1)] assms(2) by blast
  then show ?thesis by (auto simp: shared_def split: option.split)
qed

lemma shared_put:
  assumes "stores_own owns addr ns" and "owns r n"
  shows "shared roles (put_store r (kv_set_store (key_of n) df (cl_store (ns r))) ns) = (shared roles ns)(n \<mapsto> df)"
proof
  fix m
  let ?ns = "put_store r (kv_set_store (key_of n) df (cl_store (ns r))) ns"
  have own: "stores_own owns addr ?ns" by (rule store_own_key(2) [OF assms])
  show "shared roles ?ns m = ((shared roles ns)(n \<mapsto> df)) m"
  proof (cases "\<exists>q. owns q m")
    case True
    then obtain q where q: "owns q m" ..
    have "m = n \<Longrightarrow> q = r" using owns_one [OF assms(2)] q by blast
    then show ?thesis
      unfolding fun_upd_apply shared_owner [OF own q] shared_owner [OF assms(1) q] by (auto simp: key_of_def)
  next
    case False
    then show ?thesis using shared_nobody [OF own] shared_nobody [OF assms(1)] assms(2) by auto
  qed
qed

lemma net_keeps_shared:
  assumes "net_step addr ns (Inr ns')" and "stores_own owns addr ns" and "sendable ns"
  shows "shared roles ns' = shared roles ns" and "stores_own owns addr ns'" and "sendable ns'"
proof -
  have net: "stores_own owns addr ns'" and view: "\<And>q. store_view ns' q = store_view ns q"
    using net_step_ok [OF assms(1,2)] by auto
  show "stores_own owns addr ns'" by (rule net)
  show "shared roles ns' = shared roles ns" by (rule ext) (simp only: shared_def view)
  show "sendable ns'" using assms(3) by (simp add: sendable_def view)
qed

text \<open>Every lookup, by the owner or by another node, is one of the shared map.\<close>

lemma lookup_shared:
  assumes "stores_own owns addr ns" and "addrs_apart addr" and "sendable ns" and "lookup roles addr ns r n = Inr (Some df)"
  shows "\<exists>df0. shared roles ns n = Some df0 \<and> df_columns df = df_columns df0"
proof (cases "store_view ns r n")
  case None
  have "store_remote ns r n \<noteq> None"
    using assms(4) None by (auto simp: lookup_def kv_get_view key_of_def split: option.splits)
  then obtain q where q: "q \<noteq> r" "store_view ns q n \<noteq> None" using stores_ownD(2) [OF assms(1)] by blast
  then have owner: "owns q n" using stores_ownD(1) [OF assms(1)] by blast
  have "\<forall>df. store_view ns q n = Some df \<longrightarrow> df_ok df" using assms(3) by (simp add: sendable_def)
  from lookup_result(2) [OF assms(1,2) owner q(1) this assms(4)] show ?thesis
    by (auto simp: shared_owner [OF assms(1) owner])
next
  case (Some df0)
  then have "owns r n" using stores_ownD(1) [OF assms(1), of r n] by simp
  then show ?thesis using Some assms(4) by (simp add: shared_owner [OF assms(1)] lookup_def kv_get_view key_of_def)
qed

text \<open>A name in the map can be had by every node.\<close>

lemma shared_reachable:
  assumes own: "stores_own owns addr ns" and "addrs_apart addr" and "sendable ns" and "shared roles ns n = Some df"
  shows "\<exists>ns' df'. reaches (net_step addr) ns ns' \<and> lookup roles addr ns' r n = Inr (Some df') \<and> df_columns df' = df_columns df"
proof -
  obtain q where q: "owns q n" using shared_nobody [OF own, of n] assms(4) by force
  then have view: "store_view ns q n = Some df" using shared_owner [OF own] assms(4) by simp
  show ?thesis
  proof (cases "q = r")
    case True
    then have "lookup roles addr ns r n = Inr (Some df)" using view by (simp add: lookup_def kv_get_view key_of_def)
    then show ?thesis using reaches_refl by (intro exI [of _ ns] exI [of _ df]) simp
  next
    case False
    have ok: "\<forall>df. store_view ns q n = Some df \<longrightarrow> df_ok df" using assms(3) by (simp add: sendable_def)
    have stored: "store_view ns q n \<noteq> None" using view by simp
    from can_lookup [OF own assms(2) q False stored ok] obtain ns' df' where
      got: "reaches (net_step addr) ns ns'" "lookup roles addr ns' r n = Inr (Some df')" .
    let ?P = "\<lambda>ns'. shared roles ns' = shared roles ns \<and> stores_own owns addr ns' \<and> sendable ns'"
    have "?P ns" using own assms(3) by simp
    moreover have "?P ns2" if "?P ns1" "net_step addr ns1 (Inr ns2)" for ns1 ns2
      using net_keeps_shared [of addr ns1 ns2] that by simp
    ultimately have "?P ns'" by (rule reaches_inv [where P = ?P, OF got(1)])
    then obtain df0 where "shared roles ns n = Some df0" "df_columns df' = df_columns df0"
      using lookup_shared [OF _ assms(2) _ got(2)] by metis
    then show ?thesis using got assms(4) by auto
  qed
qed

lemma event_refines:
  assumes "cluster_event roles owns addr ns e ns'" and "stores_own owns addr ns" and "addrs_apart addr" and "sendable ns"
    and "\<And>n df. e = Put n df \<Longrightarrow> df_ok df"
  shows "map_allows (shared roles ns) e (shared roles ns') \<and> stores_own owns addr ns' \<and> sendable ns'"
  using assms(1)
proof cases
  case (event_put r n df st)
  then have st: "st = kv_set_store (key_of n) df (cl_store (ns r))" using store_own_key(1) [OF assms(2)] by simp
  have "sendable ns'"
    using assms(4,5) event_put(1) unfolding event_put(2) st by (auto simp: sendable_def key_of_def)
  then show ?thesis using event_put store_own_key(2) [OF assms(2)] shared_put [OF assms(2)] st by simp
next
  case (event_got r n v)
  then show ?thesis using lookup_shared [OF assms(2-4)] assms(2,4) by auto
next
  case event_net
  then show ?thesis using net_keeps_shared [OF event_net(2) assms(2,4)] by simp
qed

lemma run_refines:
  assumes "cluster_run roles owns addr ns es ns'" and "stores_own owns addr ns" and "addrs_apart addr" and "sendable ns"
    and "\<And>n df. Put n df \<in> set es \<Longrightarrow> df_ok df"
  shows "map_run (shared roles ns) es (shared roles ns') \<and> stores_own owns addr ns' \<and> sendable ns'"
  using assms(1,2,4,5)
proof (induction rule: cluster_run.induct)
  case (run_event es ns' e ns'')
  then have run: "map_run (shared roles ns) es (shared roles ns')" "stores_own owns addr ns'" "sendable ns'" by auto
  have "e = Put n df \<Longrightarrow> df_ok df" for n df using run_event.prems(3) [of n df] by simp
  from event_refines [OF run_event.hyps(2) run(2) assms(3) run(3) this] run(1) show ?case
    by (auto intro: map_run_event)
qed (simp add: map_run_none)

end

section \<open>Properties\<close>



end
