(* ===== verification/Requests.thy ===== *)
theory Requests
  imports Cluster "HOL-Library.Multiset"
begin

text \<open>
  The threads and locks behind a value request: \<open>Client::_get_value_helper\<close> (\<open>src/network/client.cpp\<close>) on any number of
  threads, and the thread of the connection they share (\<open>_check_requests\<close>, \<open>_parse_request_response\<close> and \<open>run\<close> in
  \<open>src/network/ctc_connection.cpp\<close>). \<open>Client\<close> has their operations one after the other; here they
  interleave, every access to what they share is a step, and a thread that wants a lock another one holds has none.
\<close>

section \<open>State\<close>

text \<open>
  Where a thread is in \<open>_get_value_helper\<close>: it has locked its request; it has passed the \<open>assert\<close>; the request is queued;
  it sleeps in \<open>wait\<close>, which has unlocked the request; it was woken; it has returned a value. Up to \<open>wait\<close> it holds the mutex
  of its request.
\<close>

datatype waiter = Locked | Asserted | Added | Sleeping | Woken | Returned "dataframe option"

text \<open>
  Where the connection's thread is in \<open>run\<close>: at the loop's test; in \<open>receive_and_parse\<close>, which is called once more after the
  loop; comparing a response for a key with the waiting requests that are left; in \<open>_send_keys\<close>; in \<open>_check_requests\<close> with
  the lock of the queue; there with a request it has taken from the queue; sending, without the lock; at its end.
\<close>

datatype run_point =
    LoopTest
  | Receiving bool
  | Answering bool string "dataframe option" "nat list"
  | SendingKeys
  | Checking
  | Popped nat
  | Sending nat
  | Ended

text \<open>
  Requests are numbered as they are made. \<open>rq_wire\<close> holds the keys that were sent and not answered yet,
  \<open>rq_listed\<close> says that the node's list has the connection, \<open>rq_destroyed\<close> that its destructor has run.
\<close>

record requests =
  rq_made :: nat
  rq_key :: "nat \<Rightarrow> string"
  rq_value :: "nat \<Rightarrow> dataframe option"
  rq_waiter :: "nat \<Rightarrow> waiter"
  rq_queue :: "nat list"
  rq_waiting :: "nat list"
  rq_wire :: "string list"
  rq_worker :: run_point
  rq_finished :: bool
  rq_listed :: bool
  rq_destroyed :: bool

definition requests_init :: requests where
  "requests_init = \<lparr>rq_made = 0, rq_key = (\<lambda>_. []), rq_value = (\<lambda>_. None), rq_waiter = (\<lambda>_. Returned None), rq_queue = [],
     rq_waiting = [], rq_wire = [], rq_worker = LoopTest, rq_finished = False, rq_listed = True, rq_destroyed = False\<rparr>"

text \<open>
  The locks. Critical sections that take no other lock are one step; the lock of the queue is held over steps by the
  worker only, that of a request by its thread only.
\<close>

definition queue_free :: "requests \<Rightarrow> bool" where
  "queue_free s = (case rq_worker s of Checking \<Rightarrow> False | Popped r \<Rightarrow> False | _ \<Rightarrow> True)"

definition mutex_free :: "nat \<Rightarrow> requests \<Rightarrow> bool" where
  "mutex_free r s = (case rq_waiter s r of Locked \<Rightarrow> False | Asserted \<Rightarrow> False | Added \<Rightarrow> False | _ \<Rightarrow> True)"

text \<open>Every thread in \<open>_get_value_helper\<close> holds a shared pointer to the connection.\<close>

definition holds_conn :: "waiter \<Rightarrow> bool" where
  "holds_conn w = (case w of Returned v \<Rightarrow> False | _ \<Rightarrow> True)"

definition holders :: "requests \<Rightarrow> nat list" where
  "holders s = filter (\<lambda>r. holds_conn (rq_waiter s r)) [0..<rq_made s]"

section \<open>Steps\<close>

definition waiter_at :: "nat \<Rightarrow> waiter \<Rightarrow> requests \<Rightarrow> requests" where
  "waiter_at r w s = s\<lparr>rq_waiter := (rq_waiter s)(r := w)\<rparr>"

text \<open>A request is made for a key and locked by the thread that makes it.\<close>

definition new_request :: "string \<Rightarrow> requests \<Rightarrow> requests" where
  "new_request k s =
     (let r = rq_made s in
      s\<lparr>rq_made := Suc r, rq_key := (rq_key s)(r := k), rq_value := (rq_value s)(r := None),
        rq_waiter := (rq_waiter s)(r := Locked)\<rparr>)"

text \<open>A value is written to a request, and whoever sleeps there is woken.\<close>

definition give_value :: "dataframe option \<Rightarrow> nat \<Rightarrow> requests \<Rightarrow> requests" where
  "give_value v r s =
     s\<lparr>rq_value := (rq_value s)(r := v),
       rq_waiter := (if rq_waiter s r = Sleeping then (rq_waiter s)(r := Woken) else rq_waiter s)\<rparr>"

text \<open>After a receive: to \<open>_send_keys\<close>, or to the end of \<open>run\<close> when it was the last one.\<close>

definition after_receive :: "bool \<Rightarrow> requests \<Rightarrow> requests" where
  "after_receive final s =
     (if final then s\<lparr>rq_worker := Ended, rq_finished := True\<rparr> else s\<lparr>rq_worker := SendingKeys\<rparr>)"

definition answer_request :: "bool \<Rightarrow> dataframe option \<Rightarrow> nat \<Rightarrow> requests \<Rightarrow> requests" where
  "answer_request final v r s =
     after_receive final (give_value v r (s\<lparr>rq_waiting := remove1 r (rq_waiting s)\<rparr>))"

definition destroy_conn :: "requests \<Rightarrow> requests" where
  "destroy_conn s =
     (fold (give_value None) (rq_queue s @ rq_waiting s) s)\<lparr>rq_queue := [], rq_waiting := [], rq_destroyed := True\<rparr>"

text \<open>
  \<open>peer k v\<close>: the other node may answer \<open>v\<close> when it is asked for \<open>k\<close>. \<open>spurious\<close>: a wait may end without a notification, which
  C++ allows. \<open>lossy\<close>: sending may fail, which \<open>_check_requests\<close> does not look at. What the worker does with other packets
  is \<open>receive_other\<close>. The erased iterator through which a thread is notified
  is undefined behaviour; where the list's memory has not been reused yet the notification arrives. The step
  \<open>finish\<close> stands for everything that sets \<open>_finished\<close>: \<open>ask_to_finish\<close> by the node, errors of the socket, a packet that says so.
\<close>

inductive request_step :: "(string \<Rightarrow> dataframe option \<Rightarrow> bool) \<Rightarrow> bool \<Rightarrow> bool \<Rightarrow> requests \<Rightarrow> requests res \<Rightarrow> bool"
  for peer spurious lossy s where
  waiter_lock: "rq_listed s \<Longrightarrow> request_step peer spurious lossy s (Inr (new_request k s))"
| waiter_assert: "rq_waiter s r = Locked
    \<Longrightarrow> request_step peer spurious lossy s (if rq_finished s then Inl Abort else Inr (waiter_at r Asserted s))"
| waiter_add: "rq_waiter s r = Asserted \<Longrightarrow> queue_free s
    \<Longrightarrow> request_step peer spurious lossy s (Inr (waiter_at r Added (s\<lparr>rq_queue := rq_queue s @ [r]\<rparr>)))"
| waiter_wait: "rq_waiter s r = Added \<Longrightarrow> request_step peer spurious lossy s (Inr (waiter_at r Sleeping s))"
| waiter_spurious: "spurious \<Longrightarrow> rq_waiter s r = Sleeping
    \<Longrightarrow> request_step peer spurious lossy s (Inr (waiter_at r Woken s))"
| waiter_return: "rq_waiter s r = Woken
    \<Longrightarrow> request_step peer spurious lossy s (Inr (waiter_at r (Returned (rq_value s r)) s))"
| loop_test: "rq_worker s = LoopTest
    \<Longrightarrow> request_step peer spurious lossy s (Inr (s\<lparr>rq_worker := Receiving (rq_finished s)\<rparr>))"
| receive_response: "rq_worker s = Receiving final \<Longrightarrow> k \<in> set (rq_wire s) \<Longrightarrow> peer k v
    \<Longrightarrow> request_step peer spurious lossy s
      (Inr (s\<lparr>rq_wire := remove1 k (rq_wire s), rq_worker := Answering final k v (rq_waiting s)\<rparr>))"
| receive_other: "rq_worker s = Receiving final
    \<Longrightarrow> request_step peer spurious lossy s (Inr (after_receive final s))"
| answer_next: "rq_worker s = Answering final k v (r # rs) \<Longrightarrow> mutex_free r s \<Longrightarrow> rq_key s r \<noteq> k
    \<Longrightarrow> request_step peer spurious lossy s (Inr (s\<lparr>rq_worker := Answering final k v rs\<rparr>))"
| answer_found: "rq_worker s = Answering final k v (r # rs) \<Longrightarrow> mutex_free r s \<Longrightarrow> rq_key s r = k
    \<Longrightarrow> request_step peer spurious lossy s (Inr (answer_request final v r s))"
| answer_dangling: "rq_worker s = Answering final k v (r # rs) \<Longrightarrow> mutex_free r s \<Longrightarrow> rq_key s r = k
    \<Longrightarrow> request_step peer spurious lossy s (Inl (Undefined DanglingIterator))"
| answer_nobody: "rq_worker s = Answering final k v []
    \<Longrightarrow> request_step peer spurious lossy s (Inr (after_receive final s))"
| check_lock: "rq_worker s = SendingKeys \<Longrightarrow> request_step peer spurious lossy s (Inr (s\<lparr>rq_worker := Checking\<rparr>))"
| check_empty: "rq_worker s = Checking \<Longrightarrow> rq_queue s = []
    \<Longrightarrow> request_step peer spurious lossy s (Inr (s\<lparr>rq_worker := LoopTest\<rparr>))"
| check_pop: "rq_worker s = Checking \<Longrightarrow> rq_queue s = r # rs
    \<Longrightarrow> request_step peer spurious lossy s (Inr (s\<lparr>rq_queue := rs, rq_worker := Popped r\<rparr>))"
| check_list: "rq_worker s = Popped r \<Longrightarrow> mutex_free r s
    \<Longrightarrow> request_step peer spurious lossy s (Inr (s\<lparr>rq_waiting := rq_waiting s @ [r], rq_worker := Sending r\<rparr>))"
| check_sent: "rq_worker s = Sending r
    \<Longrightarrow> request_step peer spurious lossy s (Inr (s\<lparr>rq_wire := rq_wire s @ [rq_key s r], rq_worker := Checking\<rparr>))"
| check_lost: "lossy \<Longrightarrow> rq_worker s = Sending r
    \<Longrightarrow> request_step peer spurious lossy s (Inr (s\<lparr>rq_worker := Checking\<rparr>))"
| finish: "request_step peer spurious lossy s (Inr (s\<lparr>rq_finished := True\<rparr>))"
| clean_up_conn: "rq_listed s \<Longrightarrow> rq_finished s \<Longrightarrow> rq_worker s = Ended
    \<Longrightarrow> request_step peer spurious lossy s (Inr (s\<lparr>rq_listed := False\<rparr>))"
| last_pointer: "\<not> rq_listed s \<Longrightarrow> \<not> rq_destroyed s \<Longrightarrow> holders s = []
    \<Longrightarrow> request_step peer spurious lossy s (Inr (destroy_conn s))"

inductive_cases request_stepE: "request_step peer spurious lossy s t"

section \<open>The invariant\<close>

text \<open>What the worker has in its hand: a request that is on no list, a key that was answered, a key to send.\<close>

fun in_hand :: "run_point \<Rightarrow> nat list" where
  "in_hand (Popped r) = [r]"
| "in_hand w = []"

fun looking_up :: "run_point \<Rightarrow> string list" where
  "looking_up (Answering final k v rs) = [k]"
| "looking_up w = []"

fun to_send :: "run_point \<Rightarrow> nat list" where
  "to_send (Sending r) = [r]"
| "to_send w = []"

text \<open>The requests that were not listed as waiting yet, and all that are not answered.\<close>

definition rq_queued :: "requests \<Rightarrow> nat list" where
  "rq_queued s = in_hand (rq_worker s) @ rq_queue s"

definition rq_pending :: "requests \<Rightarrow> nat list" where
  "rq_pending s = rq_queued s @ rq_waiting s"

text \<open>The keys that are asked for or about to be, the one of a response that is being looked up included.\<close>

definition rq_asked :: "requests \<Rightarrow> string multiset" where
  "rq_asked s = mset (rq_wire s @ looking_up (rq_worker s) @ map (rq_key s) (to_send (rq_worker s)))"

text \<open>Every request that a thread sleeps at, or is about to, is pending, and only once.\<close>

definition tracked :: "requests \<Rightarrow> bool" where
  "tracked s \<longleftrightarrow> distinct (rq_pending s)
     \<and> (\<forall>r\<in>set (rq_pending s). r < rq_made s \<and> rq_waiter s r \<noteq> Locked \<and> rq_waiter s r \<noteq> Asserted)
     \<and> (\<forall>r\<in>set (to_send (rq_worker s)). r < rq_made s)
     \<and> (\<forall>r. rq_waiter s r = Added \<longrightarrow> r \<in> set (rq_queued s))
     \<and> (\<forall>r. rq_waiter s r = Sleeping \<longrightarrow> r \<in> set (rq_pending s))
     \<and> (\<forall>r\<ge>rq_made s. rq_waiter s r = Returned None)"

text \<open>What was asked for is waited for; without loss, the other way round too. A response finds its request.\<close>

fun lookup_ok :: "(string \<Rightarrow> dataframe option \<Rightarrow> bool) \<Rightarrow> (nat \<Rightarrow> string) \<Rightarrow> nat list \<Rightarrow> run_point \<Rightarrow> bool" where
  "lookup_ok peer key ws (Answering final k v rs) \<longleftrightarrow> peer k v \<and> (\<exists>ds. ws = ds @ rs \<and> (\<forall>d\<in>set ds. key d \<noteq> k))"
| "lookup_ok peer key ws w \<longleftrightarrow> True"

definition accounted :: "(string \<Rightarrow> dataframe option \<Rightarrow> bool) \<Rightarrow> bool \<Rightarrow> requests \<Rightarrow> bool" where
  "accounted peer lossy s \<longleftrightarrow> rq_destroyed s \<or>
     rq_asked s \<subseteq># image_mset (rq_key s) (mset (rq_waiting s))
     \<and> (lossy \<or> rq_asked s = image_mset (rq_key s) (mset (rq_waiting s)))
     \<and> lookup_ok peer (rq_key s) (rq_waiting s) (rq_worker s)"

text \<open>What a thread finds in its request: nothing before it sleeps, then the peer's answer for its key.\<close>

definition answer_ok :: "(string \<Rightarrow> dataframe option \<Rightarrow> bool) \<Rightarrow> bool \<Rightarrow> string \<Rightarrow> dataframe option \<Rightarrow> bool" where
  "answer_ok peer spurious k v \<longleftrightarrow> peer k v \<or> spurious \<and> v = None"

fun result_ok :: "(string \<Rightarrow> dataframe option \<Rightarrow> bool) \<Rightarrow> bool \<Rightarrow> string \<Rightarrow> dataframe option \<Rightarrow> waiter \<Rightarrow> bool" where
  "result_ok peer spurious k v Woken \<longleftrightarrow> answer_ok peer spurious k v"
| "result_ok peer spurious k v (Returned u) \<longleftrightarrow> answer_ok peer spurious k u"
| "result_ok peer spurious k v w \<longleftrightarrow> v = None"

definition answers_ok :: "(string \<Rightarrow> dataframe option \<Rightarrow> bool) \<Rightarrow> bool \<Rightarrow> requests \<Rightarrow> bool" where
  "answers_ok peer spurious s \<longleftrightarrow>
     (\<forall>r<rq_made s. result_ok peer spurious (rq_key s r) (rq_value s r) (rq_waiter s r))"

text \<open>How the connection ends.\<close>

fun last_ok :: "bool \<Rightarrow> run_point \<Rightarrow> bool" where
  "last_ok finished (Receiving final) \<longleftrightarrow> (final \<longrightarrow> finished)"
| "last_ok finished (Answering final k v rs) \<longleftrightarrow> (final \<longrightarrow> finished)"
| "last_ok finished Ended \<longleftrightarrow> finished"
| "last_ok finished w \<longleftrightarrow> True"

definition ending_ok :: "requests \<Rightarrow> bool" where
  "ending_ok s \<longleftrightarrow> (\<not> rq_listed s \<longrightarrow> rq_worker s = Ended) \<and> last_ok (rq_finished s) (rq_worker s)
     \<and> (rq_destroyed s \<longrightarrow> \<not> rq_listed s \<and> (\<forall>r. \<not> holds_conn (rq_waiter s r)))"

definition requests_wf :: "(string \<Rightarrow> dataframe option \<Rightarrow> bool) \<Rightarrow> bool \<Rightarrow> bool \<Rightarrow> requests \<Rightarrow> bool" where
  "requests_wf peer spurious lossy s \<longleftrightarrow>
     tracked s \<and> accounted peer lossy s \<and> answers_ok peer spurious s \<and> ending_ok s"

named_theorems request_defs

lemmas request_ops [request_defs] = waiter_at_def new_request_def give_value_def after_receive_def answer_request_def Let_def

lemmas request_views [request_defs] = rq_pending_def rq_queued_def rq_asked_def mutex_free_def queue_free_def

lemma requests_init_wf: "requests_wf peer spurious lossy requests_init"
  by (simp add: requests_wf_def tracked_def accounted_def answers_ok_def ending_ok_def requests_init_def request_views)

lemma holds_conn_simps [simp]:
  "holds_conn Locked" "holds_conn Asserted" "holds_conn Added" "holds_conn Sleeping" "holds_conn Woken"
  "\<not> holds_conn (Returned v)"
  by (simp_all add: holds_conn_def)

text \<open>The destructor runs when no thread is left in \<open>_get_value_helper\<close>, so it wakes nobody.\<close>

lemma fold_give_value:
  assumes "\<forall>r. rq_waiter s r \<noteq> Sleeping"
  shows "fold (give_value v) rs s = s\<lparr>rq_value := (\<lambda>r. if r \<in> set rs then v else rq_value s r)\<rparr>"
  using assms
proof (induction rs arbitrary: s)
  case (Cons r rs)
  then have eq: "give_value v r s = s\<lparr>rq_value := (rq_value s)(r := v)\<rparr>" by (simp add: give_value_def)
  have "fold (give_value v) rs (s\<lparr>rq_value := (rq_value s)(r := v)\<rparr>) =
      s\<lparr>rq_value := (\<lambda>q. if q \<in> set rs then v else ((rq_value s)(r := v)) q)\<rparr>"
    using Cons.IH [of "s\<lparr>rq_value := (rq_value s)(r := v)\<rparr>"] Cons.prems by (simp cong: if_cong)
  moreover have "(\<lambda>q. if q \<in> set rs then v else ((rq_value s)(r := v)) q) =
      (\<lambda>q. if q \<in> set (r # rs) then v else rq_value s q)" by auto
  ultimately show ?case using eq by simp
qed simp

lemma destroy_conn_eq:
  assumes "\<forall>r. \<not> holds_conn (rq_waiter s r)"
  shows "destroy_conn s = s\<lparr>rq_value := (\<lambda>r. if r \<in> set (rq_queue s @ rq_waiting s) then None else rq_value s r),
     rq_queue := [], rq_waiting := [], rq_destroyed := True\<rparr>"
proof -
  have "\<forall>r. rq_waiter s r \<noteq> Sleeping" using assms holds_conn_simps(4) by metis
  from fold_give_value [OF this] show ?thesis by (simp add: destroy_conn_def del: fold_append)
qed

lemma no_holders:
  assumes "holders s = []" and "\<forall>r\<ge>rq_made s. rq_waiter s r = Returned None"
  shows "\<not> holds_conn (rq_waiter s r)"
proof (cases "r < rq_made s")
  case True
  with assms(1) show ?thesis by (auto simp: holders_def filter_empty_conv)
next
  case False
  then show ?thesis using assms(2) by (simp add: holds_conn_def)
qed

lemma mutex_free_iff: "mutex_free r s \<longleftrightarrow> rq_waiter s r \<notin> {Locked, Asserted, Added}"
  by (simp add: mutex_free_def split: waiter.split)

lemma queue_free_iff: "queue_free s \<longleftrightarrow> rq_worker s \<noteq> Checking \<and> (\<forall>r. rq_worker s \<noteq> Popped r)"
  by (simp add: queue_free_def split: run_point.split)

lemma tracked_waiter_at:
  assumes "tracked s" and "rq_waiter s r \<noteq> Returned None" and "w \<in> {Locked, Asserted} \<longrightarrow> rq_waiter s r \<in> {Locked, Asserted}"
    and "w = Added \<longrightarrow> rq_waiter s r = Added" and "w = Sleeping \<longrightarrow> rq_waiter s r \<in> {Added, Sleeping}"
  shows "tracked (waiter_at r w s)"
proof -
  have q: "rq_queued (waiter_at r w s) = rq_queued s" "rq_pending (waiter_at r w s) = rq_pending s"
    "rq_waiter (waiter_at r w s) = (rq_waiter s)(r := w)" "rq_made (waiter_at r w s) = rq_made s"
    "rq_worker (waiter_at r w s) = rq_worker s"
    by (simp_all add: waiter_at_def rq_pending_def rq_queued_def)
  have "set (rq_queued s) \<subseteq> set (rq_pending s)" by (auto simp: rq_pending_def)
  then show ?thesis using assms unfolding tracked_def q by auto
qed

lemma tracked_step:
  assumes "request_step peer spurious lossy s (Inr t)" and "requests_wf peer spurious lossy s"
  shows "tracked t"
proof -
  have tr: "tracked s" and "accounted peer lossy s" "ending_ok s" using assms(2) by (simp_all add: requests_wf_def)
  from assms(1) show ?thesis
  proof (cases rule: request_step.cases)
    case (last_pointer)
    then have none: "\<not> holds_conn (rq_waiter s r)" for r using no_holders tr unfolding tracked_def by blast
    then have w: "rq_waiter s r \<noteq> Sleeping" "rq_waiter s r \<noteq> Added" for r by (metis holds_conn_simps)+
    have "rq_worker s = Ended" using last_pointer(2) \<open>ending_ok s\<close> by (simp add: ending_ok_def)
    then show ?thesis using tr w last_pointer(1) destroy_conn_eq [of s] none by (simp add: tracked_def rq_pending_def rq_queued_def)
  next
    case (waiter_assert r)
    then show ?thesis using tracked_waiter_at [OF tr, of r Asserted] by (simp split: if_splits)
  next
    case (waiter_add r)
    with tr show ?thesis by (fastforce simp: tracked_def request_views request_ops queue_free_iff split: if_splits run_point.splits)
  next
    case (waiter_wait r)
    then show ?thesis using tracked_waiter_at [OF tr, of r Sleeping] by simp
  next
    case (waiter_spurious r)
    then show ?thesis using tracked_waiter_at [OF tr, of r Woken] by simp
  next
    case (waiter_return r)
    then show ?thesis using tracked_waiter_at [OF tr, of r "Returned (rq_value s r)"] by simp
  next
    case (answer_found final k v r rs)
    with tr \<open>accounted peer lossy s\<close> show ?thesis by (fastforce simp: tracked_def request_views request_ops split: if_splits run_point.splits)
  next
    case (check_list r)
    with tr show ?thesis by (fastforce simp: tracked_def request_views mutex_free_iff request_ops split: if_splits run_point.splits)
  next
    case (waiter_lock k)
    have q: "rq_queued t = rq_queued s" "rq_pending t = rq_pending s" "rq_made t = Suc (rq_made s)"
      "rq_waiter t = (rq_waiter s)(rq_made s := Locked)" "rq_worker t = rq_worker s"
      by (simp_all add: waiter_lock rq_pending_def rq_queued_def new_request_def Let_def)
    have "rq_made s \<notin> set (rq_pending s)" using tr by (auto simp: tracked_def)
    then show ?thesis using tr 
      unfolding tracked_def q by (simp add: less_Suc_eq) blast
  qed (use tr in \<open>auto simp: tracked_def request_views request_ops split: if_splits\<close>)
qed

lemma answer_finds:
  assumes "requests_wf peer spurious lossy s" and "rq_worker s = Answering final k v rs" and "\<not> rq_destroyed s"
  shows "\<exists>r\<in>set rs. rq_key s r = k"
proof -
  obtain ds where ds: "rq_waiting s = ds @ rs" "\<forall>d\<in>set ds. rq_key s d \<noteq> k"
    and "rq_asked s \<subseteq># image_mset (rq_key s) (mset (rq_waiting s))"
    using assms by (auto simp: requests_wf_def accounted_def)
  then have "k \<in># image_mset (rq_key s) (mset (rq_waiting s))"
    using assms(2) by (auto simp: rq_asked_def dest: mset_subset_eqD)
  then show ?thesis using ds by auto
qed

lemma ended_worker: "ending_ok s \<Longrightarrow> rq_destroyed s \<Longrightarrow> rq_worker s = Ended"
  by (simp add: ending_ok_def)

lemma lookup_ok_cong:
  "(\<And>d. d \<in> set ws \<Longrightarrow> key d = key' d) \<Longrightarrow> lookup_ok peer key ws w = lookup_ok peer key' ws w"
  by (cases w) auto

lemma accounted_step:
  assumes step: "request_step peer spurious lossy s (Inr t)" and wf: "requests_wf peer spurious lossy s"
  shows "accounted peer lossy t"
proof (cases "rq_destroyed s")
  case True
  with step show ?thesis
    by (cases rule: request_step.cases) (auto simp: accounted_def request_ops destroy_conn_def split: if_splits)
next
  case False
  have tr: "tracked s" and ac: "accounted peer lossy s" using wf by (simp_all add: requests_wf_def)
  from step show ?thesis
  proof (cases rule: request_step.cases)
    case (waiter_lock k)
    have old: "r < rq_made s" if "r \<in> set (rq_waiting s) \<or> r \<in> set (to_send (rq_worker s))" for r
      using that tr by (auto simp: tracked_def rq_pending_def)
    have t: "rq_waiting t = rq_waiting s" "rq_wire t = rq_wire s" "rq_worker t = rq_worker s" "rq_destroyed t = rq_destroyed s"
      "rq_key t = (rq_key s)(rq_made s := k)"
      by (simp_all add: waiter_lock new_request_def Let_def)
    have "image_mset (rq_key t) (mset (rq_waiting s)) = image_mset (rq_key s) (mset (rq_waiting s))"
      using old by (intro image_mset_cong) (auto simp: t)
    moreover have "map (rq_key t) (to_send (rq_worker s)) = map (rq_key s) (to_send (rq_worker s))"
      using old by (intro map_cong) (auto simp: t)
    then have "rq_asked t = rq_asked s" by (simp only: rq_asked_def t)
    moreover have "lookup_ok peer (rq_key t) (rq_waiting s) (rq_worker s) = lookup_ok peer (rq_key s) (rq_waiting s) (rq_worker s)"
      using old by (intro lookup_ok_cong) (auto simp: t)
    ultimately show ?thesis using ac False unfolding accounted_def t(1-4) by simp
  next
    case (answer_found final k v r rs)
    then obtain ds where ds: "rq_waiting s = ds @ r # rs" using ac False by (auto simp: accounted_def)
    then have "r \<notin> set ds" using tr by (auto simp: tracked_def rq_pending_def)
    with answer_found ds ac False show ?thesis
      by (auto simp: accounted_def request_ops rq_asked_def remove1_append split: if_splits)
  next
    case (answer_next final k v r rs)
    then obtain ds where ds: "rq_waiting s = ds @ r # rs" "\<forall>d\<in>set ds. rq_key s d \<noteq> k" using ac False by (auto simp: accounted_def)
    with answer_next ac False show ?thesis
      by (auto simp: accounted_def rq_asked_def intro!: exI [of _ "ds @ [r]"])
  next
    case (answer_nobody final k v)
    then show ?thesis using answer_finds [OF wf _ False] by fastforce
  next
    case (check_lost r)
    with ac False show ?thesis by (auto simp: accounted_def rq_asked_def intro: subset_mset.order_trans [rotated])
  qed (use ac False in \<open>auto simp: accounted_def rq_asked_def request_ops destroy_conn_def subset_mset.add_mono split: if_splits\<close>)
qed

lemma answers_ok_step:
  assumes step: "request_step peer spurious lossy s (Inr t)" and wf: "requests_wf peer spurious lossy s"
  shows "answers_ok peer spurious t"
proof -
  have tr: "tracked s" and ac: "accounted peer lossy s" and an: "answers_ok peer spurious s" and en: "ending_ok s"
    using wf by (simp_all add: requests_wf_def)
  from step show ?thesis
  proof (cases rule: request_step.cases)
    case (answer_found final k v r rs)
    then have "\<not> rq_destroyed s" using ended_worker [OF en] by auto
    with answer_found have "peer k v" using ac by (simp add: accounted_def)
    have "rq_waiter s r \<notin> {Locked, Asserted, Added}" using answer_found(3) by (simp add: mutex_free_iff)
    with answer_found \<open>peer k v\<close> an show ?thesis
      by (auto simp: answers_ok_def request_ops answer_ok_def) (cases "rq_waiter s r"; auto simp: answer_ok_def)
  next
    case last_pointer
    then have none: "\<not> holds_conn (rq_waiter s r)" for r using no_holders tr unfolding tracked_def by blast
    have "rq_waiter t = rq_waiter s" "rq_key t = rq_key s" "rq_made t = rq_made s"
      using last_pointer(1) destroy_conn_eq [of s] none by simp_all
    moreover have "result_ok peer spurious k v (rq_waiter s r) = result_ok peer spurious k v' (rq_waiter s r)" for r k v v'
      using none [of r] by (cases "rq_waiter s r") simp_all
    ultimately show ?thesis using an unfolding answers_ok_def by metis
  qed (use an in \<open>auto simp: answers_ok_def request_ops answer_ok_def less_Suc_eq split: if_splits\<close>)
qed

lemma ending_ok_step:
  assumes step: "request_step peer spurious lossy s (Inr t)" and wf: "requests_wf peer spurious lossy s"
  shows "ending_ok t"
proof -
  have tr: "tracked s" and en: "ending_ok s" using wf by (simp_all add: requests_wf_def)
  have alive: "rq_waiter s r = w \<Longrightarrow> holds_conn w \<Longrightarrow> \<not> rq_destroyed s" for r w
    using en by (auto simp: ending_ok_def)
  have finished: "last_ok b w \<Longrightarrow> last_ok True w" for b w
    by (cases w) simp_all
  from step show ?thesis
  proof (cases rule: request_step.cases)
    case last_pointer
    then have none: "\<not> holds_conn (rq_waiter s r)" for r using no_holders tr unfolding tracked_def by blast
    then show ?thesis using last_pointer(1,2) destroy_conn_eq [of s] en by (auto simp: ending_ok_def)
  qed (use en in \<open>auto simp: ending_ok_def request_ops dest: alive finished split: if_splits\<close>)
qed

lemma requests_wf_step:
  "requests_wf peer spurious lossy s \<Longrightarrow> request_step peer spurious lossy s (Inr t) \<Longrightarrow> requests_wf peer spurious lossy t"
  using tracked_step accounted_step answers_ok_step ending_ok_step by (simp add: requests_wf_def)

lemma requests_wf_reaches:
  assumes "reaches (request_step peer spurious lossy) s t" and "requests_wf peer spurious lossy s"
  shows "requests_wf peer spurious lossy t"
  by (rule reaches_inv [where P = "requests_wf peer spurious lossy", OF assms]) (rule requests_wf_step)


section \<open>Every request can be answered\<close>

text \<open>
  A thread locks its request first and the queue second, the worker the queue first and a request second. They do not
  block each other for good: the worker only wants requests that were queued, whose threads want nothing more.
\<close>

lemma waiting_mutex_free:
  assumes "tracked s" and "r \<in> set (rq_waiting s)"
  shows "mutex_free r s"
  using assms unfolding tracked_def rq_pending_def mutex_free_iff by auto

fun waiter_left :: "waiter \<Rightarrow> nat" where
  "waiter_left Locked = 17"
| "waiter_left Asserted = 16"
| "waiter_left Added = 3"
| "waiter_left Sleeping = 2"
| "waiter_left Woken = 1"
| "waiter_left (Returned v) = 0"

fun worker_left :: "nat \<Rightarrow> run_point \<Rightarrow> nat" where
  "worker_left n LoopTest = 3"
| "worker_left n (Receiving final) = 2"
| "worker_left n (Answering final k v rs) = 6"
| "worker_left n SendingKeys = (if n = 0 then 5 else 1)"
| "worker_left n Checking = (if n = 0 then 4 else 0)"
| "worker_left n (Popped r) = 11"
| "worker_left n (Sending r) = 10"
| "worker_left n Ended = 0"

definition threads_left :: "requests \<Rightarrow> nat" where
  "threads_left s = (\<Sum>q<rq_made s. waiter_left (rq_waiter s q))"

definition requests_left :: "requests \<Rightarrow> nat" where
  "requests_left s =
     worker_left (length (rq_queue s)) (rq_worker s) + 12 * length (rq_queue s) + 5 * length (rq_wire s) + threads_left s"

lemma sum_upd:
  fixes r n :: nat
  assumes "r < n"
  shows "(\<Sum>q<n. g ((f(r := w)) q)) + g (f r) = (\<Sum>q<n. g (f q)) + (g w :: nat)"
proof -
  have "(\<Sum>q<n. h q) = h r + (\<Sum>q\<in>{..<n} - {r}. h q)" for h :: "nat \<Rightarrow> nat"
    using assms by (intro sum.remove) simp_all
  from this [of "\<lambda>q. g ((f(r := w)) q)"] this [of "\<lambda>q. g (f q)"] show ?thesis by simp
qed

lemma threads_left_at:
  "r < rq_made s \<Longrightarrow> threads_left (waiter_at r w s) + waiter_left (rq_waiter s r) = threads_left s + waiter_left w"
  using sum_upd [of r "rq_made s" waiter_left "rq_waiter s" w] by (simp add: threads_left_def waiter_at_def)

lemma answer_left: "threads_left (answer_request final v r s) \<le> threads_left s"
  unfolding threads_left_def by (auto simp: answer_request_def after_receive_def give_value_def intro!: sum_mono)

text \<open>The states in which the connection works, with the requests made so far.\<close>

definition serving :: "(string \<Rightarrow> dataframe option \<Rightarrow> bool) \<Rightarrow> requests \<Rightarrow> requests \<Rightarrow> bool" where
  "serving peer s0 s \<longleftrightarrow> requests_wf peer False False s \<and> \<not> rq_finished s \<and> rq_made s = rq_made s0 \<and> rq_key s = rq_key s0"

lemma serving_step:
  assumes "serving peer s0 s" and "request_step peer False False s (Inr t)"
    and "rq_finished t = rq_finished s" and "rq_made t = rq_made s" and "rq_key t = rq_key s" and "requests_left t < requests_left s"
  shows "\<exists>t. reaches (request_step peer False False) s t \<and> serving peer s0 t \<and> requests_left t < requests_left s"
  using assms reaches_one [of "request_step peer False False", OF assms(2)] requests_wf_step by (auto simp: serving_def)

lemma answering_ends:
  assumes "rq_worker s = Answering final k v rs" and "\<forall>r\<in>set rs. mutex_free r s" and "\<exists>r\<in>set rs. rq_key s r = k"
  shows "\<exists>r. reaches (request_step peer spurious lossy) s (answer_request final v r s)"
  using assms
proof (induction rs arbitrary: s)
  case (Cons x rs)
  show ?case
  proof (cases "rq_key s x = k")
    case True
    with Cons.prems have "request_step peer spurious lossy s (Inr (answer_request final v x s))"
      by (intro answer_found) simp_all
    then show ?thesis by (intro exI) (rule reaches_one)
  next
    case False
    let ?s = "s\<lparr>rq_worker := Answering final k v rs\<rparr>"
    have "request_step peer spurious lossy s (Inr ?s)" using Cons.prems False by (intro answer_next) simp_all
    then have one: "reaches (request_step peer spurious lossy) s ?s" by (rule reaches_one)
    have "\<exists>r. reaches (request_step peer spurious lossy) ?s (answer_request final v r ?s)"
      using Cons.prems False by (intro Cons.IH) (auto simp: mutex_free_iff)
    moreover have "answer_request final v r ?s = answer_request final v r s" for r
      by (simp add: answer_request_def give_value_def after_receive_def)
    ultimately show ?thesis using reaches_trans [OF _ one] by auto
  qed
qed simp

lemma waiter_progress:
  assumes "serving peer s0 s" and "holds_conn (rq_waiter s r)" and "queue_free s" and "rq_waiter s r \<noteq> Sleeping"
  shows "\<exists>t. reaches (request_step peer False False) s t \<and> serving peer s0 t \<and> requests_left t < requests_left s"
proof -
  let ?step = "request_step peer False False"
  have made: "r < rq_made s"
    using assms(1,2) by (auto simp: serving_def requests_wf_def tracked_def not_less [symmetric])
  have not_finished: "\<not> rq_finished s" using assms(1) by (simp add: serving_def)
  have left: "requests_left (waiter_at r w s) < requests_left s" if "waiter_left w < waiter_left (rq_waiter s r)" for w
    using threads_left_at [OF made, of w] that by (simp add: requests_left_def waiter_at_def)
  show ?thesis
  proof (cases "rq_waiter s r")
    case Locked
    with not_finished have "?step s (Inr (waiter_at r Asserted s))" using waiter_assert [of s r] by simp
    then show ?thesis using left [of Asserted] Locked by (intro serving_step [OF assms(1)]) (simp_all add: waiter_at_def)
  next
    case Asserted
    let ?t = "waiter_at r Added (s\<lparr>rq_queue := rq_queue s @ [r]\<rparr>)"
    have "?step s (Inr ?t)" using Asserted assms(3) by (rule waiter_add)
    moreover have "threads_left ?t + 16 = threads_left s + 3"
      using threads_left_at [of r "s\<lparr>rq_queue := rq_queue s @ [r]\<rparr>" Added] made Asserted by (simp add: threads_left_def)
    then have "requests_left ?t < requests_left s"
      using assms(3) by (cases "rq_worker s") (simp_all add: requests_left_def waiter_at_def queue_free_def)
    ultimately show ?thesis by (intro serving_step [OF assms(1)]) (simp_all add: waiter_at_def)
  next
    case Added
    then have "?step s (Inr (waiter_at r Sleeping s))" by (rule waiter_wait)
    then show ?thesis using left [of Sleeping] Added by (intro serving_step [OF assms(1)]) (simp_all add: waiter_at_def)
  next
    case Woken
    then have "?step s (Inr (waiter_at r (Returned (rq_value s r)) s))" by (rule waiter_return)
    then show ?thesis using left [of "Returned (rq_value s r)"] Woken by (intro serving_step [OF assms(1)]) (simp_all add: waiter_at_def)
  qed (use assms(2,4) in simp_all)
qed


lemma serving_facts:
  assumes "serving peer s0 s" and "holds_conn (rq_waiter s r)"
  shows "requests_wf peer False False s" and "tracked s" and "accounted peer False s" and "last_ok False (rq_worker s)"
    and "\<not> rq_destroyed s"
  using assms by (auto simp: serving_def requests_wf_def ending_ok_def)

lemma receiving_progress:
  assumes P: "serving peer s0 s" and r: "holds_conn (rq_waiter s r)" and peer: "\<And>k. \<exists>v. peer k v"
    and worker: "rq_worker s = Receiving final"
  shows "\<exists>t. reaches (request_step peer False False) s t \<and> serving peer s0 t \<and> requests_left t < requests_left s"
proof -
  note facts = serving_facts [OF P r] and step = serving_step [OF P]
  have final: "final = False" using facts(4) worker by simp
  consider (wire) k where "k \<in> set (rq_wire s)" | (queue) "rq_queue s \<noteq> []" | (idle) "rq_wire s = []" "rq_queue s = []"
    by (cases "rq_wire s") auto
  then show ?thesis
  proof cases
    case wire
    obtain v where "peer k v" using peer by blast
    moreover obtain n where "length (rq_wire s) = Suc n" using wire by (cases "rq_wire s") auto
    ultimately show ?thesis
      by (intro step [OF receive_response [OF worker wire]])
        (simp_all add: requests_left_def threads_left_def worker length_remove1 wire)
  next
    case queue
    show ?thesis by (rule step [OF receive_other [OF worker]])
        (use queue in \<open>simp_all add: requests_left_def threads_left_def worker after_receive_def final\<close>)
  next
    case idle
    then have "rq_waiting s = []" using facts(3,5) worker by (simp add: accounted_def rq_asked_def)
    then have "rq_waiter s r \<noteq> Sleeping" using facts(2) idle worker by (auto simp: tracked_def rq_pending_def rq_queued_def)
    then show ?thesis by (intro waiter_progress [OF P r]) (simp_all add: queue_free_def worker)
  qed
qed

lemma answering_progress:
  assumes P: "serving peer s0 s" and r: "holds_conn (rq_waiter s r)" and worker: "rq_worker s = Answering final k v rs"
  shows "\<exists>t. reaches (request_step peer False False) s t \<and> serving peer s0 t \<and> requests_left t < requests_left s"
proof -
  note facts = serving_facts [OF P r]
  have final: "final = False" using facts(4) worker by simp
  obtain ds where ds: "rq_waiting s = ds @ rs" using facts(3,5) worker by (auto simp: accounted_def)
  then have free: "\<forall>q\<in>set rs. mutex_free q s" using waiting_mutex_free [OF facts(2)] by simp
  obtain q where q: "reaches (request_step peer False False) s (answer_request final v q s)"
    using answering_ends [OF worker free answer_finds [OF facts(1) worker facts(5)]] by blast
  moreover have "requests_left (answer_request final v q s) < requests_left s"
    using answer_left [of final v q s]
    by (simp add: requests_left_def worker) (simp add: answer_request_def after_receive_def give_value_def final)
  moreover have "serving peer s0 (answer_request final v q s)"
    using P requests_wf_reaches [OF q facts(1)] by (simp add: serving_def answer_request_def after_receive_def give_value_def final)
  ultimately show ?thesis by blast
qed

lemma popped_progress:
  assumes P: "serving peer s0 s" and r: "holds_conn (rq_waiter s r)" and worker: "rq_worker s = Popped q"
  shows "\<exists>t. reaches (request_step peer False False) s t \<and> serving peer s0 t \<and> requests_left t < requests_left s"
proof -
  note facts = serving_facts [OF P r] and step = serving_step [OF P]
  have q: "q \<in> set (rq_pending s)" using worker by (simp add: rq_pending_def rq_queued_def)
  show ?thesis
  proof (cases "rq_waiter s q = Added")
    case True
    have "q < rq_made s" using facts(2) q by (auto simp: tracked_def)
    from threads_left_at [OF this, of Sleeping] show ?thesis
      by (intro step [OF waiter_wait [OF True]]) (simp_all add: requests_left_def waiter_at_def True)
  next
    case False
    with facts(2) q have "mutex_free q s" by (auto simp: tracked_def mutex_free_iff)
    from check_list [OF worker this] show ?thesis
      by (rule step) (simp_all add: requests_left_def threads_left_def worker)
  qed
qed

lemma serving_progress:
  assumes P: "serving peer s0 s" and r: "holds_conn (rq_waiter s r)" and peer: "\<And>k. \<exists>v. peer k v"
  shows "\<exists>t. reaches (request_step peer False False) s t \<and> serving peer s0 t \<and> requests_left t < requests_left s"
proof -
  note step = serving_step [OF P] and left = requests_left_def threads_left_def
  show ?thesis
  proof (cases "rq_worker s")
    case LoopTest
    show ?thesis by (rule step [OF loop_test [OF LoopTest]]) (simp_all add: left LoopTest)
  next
    case SendingKeys
    show ?thesis by (rule step [OF check_lock [OF SendingKeys]]) (simp_all add: left SendingKeys)
  next
    case Checking
    show ?thesis
    proof (cases "rq_queue s")
      case Nil
      show ?thesis by (rule step [OF check_empty [OF Checking Nil]]) (simp_all add: left Checking Nil)
    next
      case (Cons q qs)
      show ?thesis by (rule step [OF check_pop [OF Checking Cons]]) (simp_all add: left Checking Cons)
    qed
  next
    case (Sending q)
    show ?thesis by (rule step [OF check_sent [OF Sending]]) (simp_all add: left Sending)
  next
    case Ended
    with serving_facts(4) [OF P r] show ?thesis by simp
  qed (use receiving_progress [OF P r peer] answering_progress [OF P r] popped_progress [OF P r] in simp_all)
qed

lemma reachable_wf:
  "reaches (request_step peer spurious lossy) requests_init s \<Longrightarrow> requests_wf peer spurious lossy s"
  using requests_wf_reaches requests_init_wf by blast

section \<open>A run\<close>

text \<open>One request for the key \<open>k\<close>, up to where its thread sleeps, and the worker's next lap.\<close>

definition asking :: "run_point \<Rightarrow> string list \<Rightarrow> nat list \<Rightarrow> nat list \<Rightarrow> bool \<Rightarrow> waiter \<Rightarrow> requests" where
  "asking w wire queue waiting finished p =
     requests_init\<lparr>rq_made := 1, rq_key := (\<lambda>_. [])(0 := ''k''), rq_waiter := (\<lambda>_. Returned None)(0 := p),
       rq_queue := queue, rq_waiting := waiting, rq_wire := wire, rq_worker := w, rq_finished := finished\<rparr>"

lemma asking_fields [simp]:
  "rq_made (asking w wire q ws f p) = 1" "rq_key (asking w wire q ws f p) 0 = ''k''" "rq_queue (asking w wire q ws f p) = q"
  "rq_waiter (asking w wire q ws f p) 0 = p" "rq_waiting (asking w wire q ws f p) = ws" "rq_wire (asking w wire q ws f p) = wire"
  "rq_worker (asking w wire q ws f p) = w" "rq_finished (asking w wire q ws f p) = f" "rq_listed (asking w wire q ws f p)"
  by (simp_all add: asking_def requests_init_def)

lemma asking_ops:
  "new_request ''k'' requests_init = asking LoopTest [] [] [] False Locked"
  "waiter_at 0 p' (asking w wire q ws f p) = asking w wire q ws f p'"
  "(asking w wire q ws f p)\<lparr>rq_queue := q'\<rparr> = asking w wire q' ws f p"
  "(asking w wire q ws f p)\<lparr>rq_waiting := ws'\<rparr> = asking w wire q ws' f p"
  "(asking w wire q ws f p)\<lparr>rq_wire := wire'\<rparr> = asking w wire' q ws f p"
  "(asking w wire q ws f p)\<lparr>rq_worker := w'\<rparr> = asking w' wire q ws f p"
  "(asking w wire q ws f p)\<lparr>rq_finished := f'\<rparr> = asking w wire q ws f' p"
  by (simp_all add: asking_def requests_init_def new_request_def waiter_at_def)

lemma run_asserted:
  "reaches (request_step peer spurious lossy) requests_init (asking LoopTest [] [] [] False Asserted)"
proof -
  let ?step = "request_step peer spurious lossy"
  have 1: "?step requests_init (Inr (asking LoopTest [] [] [] False Locked))"
    unfolding asking_ops(1) [symmetric] by (rule waiter_lock) (simp add: requests_init_def)
  have 2: "?step (asking LoopTest [] [] [] False Locked) (Inr (asking LoopTest [] [] [] False Asserted))"
    using waiter_assert [of "asking LoopTest [] [] [] False Locked" 0] by (simp add: asking_ops)
  show ?thesis by (rule reaches_step [OF reaches_one [of ?step, OF 1] 2])
qed

lemma run_sleeping:
  assumes "reaches (request_step peer spurious lossy) requests_init (asking w wire q ws f Asserted)" and "w \<in> {LoopTest, Ended}"
  shows "reaches (request_step peer spurious lossy) requests_init (asking w wire (q @ [0]) ws f Sleeping)"
proof -
  let ?step = "request_step peer spurious lossy"
  have "queue_free (asking w wire q ws f Asserted)" using assms(2) by (auto simp: queue_free_def)
  then have 1: "?step (asking w wire q ws f Asserted) (Inr (asking w wire (q @ [0]) ws f Added))"
    using waiter_add [of "asking w wire q ws f Asserted" 0] by (simp add: asking_ops)
  have 2: "?step (asking w wire (q @ [0]) ws f Added) (Inr (asking w wire (q @ [0]) ws f Sleeping))"
    using waiter_wait [of "asking w wire (q @ [0]) ws f Added" 0] by (simp add: asking_ops)
  show ?thesis by (rule reaches_step [OF reaches_step [OF assms(1) 1] 2])
qed

text \<open>The connection ends between the \<open>assert\<close> and \<open>add_request\<close>.\<close>

lemma run_too_late:
  "reaches (request_step peer spurious lossy) requests_init (asking Ended [] [0] [] True Sleeping)"
proof -
  let ?step = "request_step peer spurious lossy"
  have 1: "?step (asking LoopTest [] [] [] False Asserted) (Inr (asking LoopTest [] [] [] True Asserted))"
    using finish [of peer spurious lossy "asking LoopTest [] [] [] False Asserted"] by (simp add: asking_ops)
  have 2: "?step (asking LoopTest [] [] [] True Asserted) (Inr (asking (Receiving True) [] [] [] True Asserted))"
    using loop_test [of "asking LoopTest [] [] [] True Asserted"] by (simp add: asking_ops)
  have 3: "?step (asking (Receiving True) [] [] [] True Asserted) (Inr (asking Ended [] [] [] True Asserted))"
    using receive_other [of "asking (Receiving True) [] [] [] True Asserted" True] by (simp add: asking_ops after_receive_def)
  from run_sleeping [OF reaches_step [OF reaches_step [OF reaches_step [OF run_asserted 1] 2] 3]] show ?thesis by simp
qed

section \<open>Properties\<close>

text \<open>
  C14: No request is lost and no answer goes astray, however the threads interleave: every thread that sleeps is at a
  request that is in the queue, in the worker's hand or on the waiting list, exactly once; what a thread has returned is the
  peer's answer for its own key (or, after a spurious wake-up, a null pointer); and a response never fails to find its request.
\<close>

theorem request_tracked:
  assumes "reaches (request_step peer spurious lossy) requests_init s"
  shows "distinct (rq_pending s) \<and> {r. rq_waiter s r = Sleeping} \<subseteq> set (rq_pending s)
     \<and> (\<forall>r v. r < rq_made s \<and> rq_waiter s r = Returned v \<longrightarrow> peer (rq_key s r) v \<or> spurious \<and> v = None)
     \<and> (\<forall>final k v. rq_worker s \<noteq> Answering final k v [])"
proof -
  have wf: "requests_wf peer spurious lossy s" by (rule reachable_wf [OF assms])
  then have "peer (rq_key s r) v \<or> spurious \<and> v = None" if "r < rq_made s" "rq_waiter s r = Returned v" for r v
    using that by (auto simp: requests_wf_def answers_ok_def answer_ok_def dest: spec [of _ r])
  moreover have "rq_worker s \<noteq> Answering final k v []" for final k v
    using answer_finds [OF wf, of final k v "[]"] ended_worker [of s] wf
    by (cases "rq_destroyed s") (auto simp: requests_wf_def)
  ultimately show ?thesis using wf by (auto simp: requests_wf_def tracked_def)
qed

theorem request_tracked_witness:
  "\<exists>s. reaches (request_step (\<lambda>k v. True) False False) requests_init s \<and> rq_waiter s 0 = Sleeping \<and> 0 \<in> set (rq_pending s)"
  using request_tracked [OF run_too_late [of "\<lambda>k v. True" False False]] run_too_late [of "\<lambda>k v. True" False False]
  by (intro exI [of _ "asking Ended [] [0] [] True Sleeping"]) (simp add: rq_pending_def rq_queued_def)

text \<open>
  C15: The locks of requests and queue are taken in opposite orders, and yet nothing blocks for good: in every reachable state of
  a connection that is not finished, when the peer answers and sending works, each thread can still get to return, and it returns
  the peer's answer for its key.
\<close>

theorem request_can_finish:
  assumes "reaches (request_step peer False False) requests_init s" and "\<not> rq_finished s" and "\<forall>k. \<exists>v. peer k v"
    and "r < rq_made s"
  shows "\<exists>t v. reaches (request_step peer False False) s t \<and> rq_waiter t r = Returned v \<and> peer (rq_key s r) v"
proof -
  have "serving peer s s" using reachable_wf [OF assms(1)] assms(2) by (simp add: serving_def)
  then have "\<exists>t. reaches (request_step peer False False) s t \<and> serving peer s t \<and> \<not> holds_conn (rq_waiter t r)"
    by (rule reaches_done [where left = requests_left]) (use serving_progress assms(3) in blast)
  then obtain t where t: "reaches (request_step peer False False) s t" "serving peer s t" "\<not> holds_conn (rq_waiter t r)" by blast
  then obtain v where v: "rq_waiter t r = Returned v" by (cases "rq_waiter t r") simp_all
  have "peer (rq_key s r) v"
    using t(2) v assms(4) by (auto simp: serving_def requests_wf_def answers_ok_def answer_ok_def dest: spec [of _ r])
  with t(1) v show ?thesis by blast
qed

theorem request_can_finish_witness:
  "\<exists>t. reaches (request_step (\<lambda>k v. v = None) False False) (asking LoopTest [] [0] [] False Sleeping) t
     \<and> rq_waiter t 0 = Returned None"
proof -
  have "reaches (request_step (\<lambda>k v. v = None) False False) requests_init (asking LoopTest [] [0] [] False Sleeping)"
    using run_sleeping [OF run_asserted] by simp
  from request_can_finish [OF this, of 0] show ?thesis by auto
qed


text \<open>
  C16: Whatever has not been answered when the connection's thread ends is never answered: a thread that has passed the \<open>assert\<close>
  by then sleeps for ever (unless it wakes up spuriously), because it holds the connection itself, so the destructor, which would
  answer it, never runs, whatever the node and other threads do.
\<close>

theorem request_stranded:
  assumes "reaches (request_step peer False lossy) requests_init s" and "rq_worker s = Ended"
    and "rq_waiter s r \<in> {Asserted, Added, Sleeping}" and "reaches (request_step peer False lossy) s t"
  shows "rq_waiter t r \<in> {Asserted, Added, Sleeping} \<and> \<not> rq_destroyed t"
proof -
  have wf: "requests_wf peer False lossy s" by (rule reachable_wf [OF assms(1)])
  then have "r < rq_made s" using assms(3) by (auto simp: requests_wf_def tracked_def not_less [symmetric])
  moreover have "holds_conn (rq_waiter s r)" using assms(3) by auto
  then have "\<not> rq_destroyed s" using wf by (auto simp: requests_wf_def ending_ok_def)
  ultimately have "rq_worker t = Ended \<and> rq_waiter t r \<in> {Asserted, Added, Sleeping} \<and> r < rq_made t \<and> \<not> rq_destroyed t"
    using assms(2,3)
  proof (intro reaches_inv [where P = "\<lambda>t. rq_worker t = Ended \<and> rq_waiter t r \<in> {Asserted, Added, Sleeping} \<and> r < rq_made t
      \<and> \<not> rq_destroyed t", OF assms(4)])
    fix t t' :: requests
    assume P: "rq_worker t = Ended \<and> rq_waiter t r \<in> {Asserted, Added, Sleeping} \<and> r < rq_made t \<and> \<not> rq_destroyed t"
    then have "r \<in> set (holders t)" by (auto simp: holders_def)
    then have "holders t \<noteq> []" by auto
    moreover assume "request_step peer False lossy t (Inr t')"
    ultimately show "rq_worker t' = Ended \<and> rq_waiter t' r \<in> {Asserted, Added, Sleeping} \<and> r < rq_made t' \<and> \<not> rq_destroyed t'"
      using P by (elim request_stepE) (auto simp: request_ops split: if_splits)
  qed simp_all
  then show ?thesis by simp
qed

theorem request_stranded_witness:
  "\<exists>s. reaches (request_step (\<lambda>k v. True) False False) requests_init s \<and> rq_waiter s 0 = Sleeping
     \<and> (\<forall>t. reaches (request_step (\<lambda>k v. True) False False) s t \<longrightarrow> rq_waiter t 0 \<in> {Asserted, Added, Sleeping} \<and> \<not> rq_destroyed t)"
  using request_stranded [OF run_too_late, of 0 "\<lambda>k v. True" False] run_too_late [of "\<lambda>k v. True" False False]
  by (intro exI [of _ "asking Ended [] [0] [] True Sleeping"]) simp

section \<open>What the steps are to the node\<close>

text \<open>
  The operations of \<open>Client\<close>, which does one after the other: a request is made, added, taken from the queue onto the
  waiting list, answered; or the connection is destroyed; or nothing changes.
\<close>

inductive client_op :: "nat \<Rightarrow> client \<Rightarrow> client \<Rightarrow> bool" for i cl where
  op_none: "client_op i cl cl"
| op_request: "client_op i cl (snd (client_new_request k cl))"
| op_add: "client_op i cl (ctc_add_request i r cl)"
| op_check: "ctc_queue (cl_ctc cl i) = r # rs
    \<Longrightarrow> client_op i cl (ctc_update i (\<lambda>k. k\<lparr>ctc_queue := rs, ctc_waiting := ctc_waiting k @ [r]\<rparr>) cl)"
| op_answer: "ctc_fulfil i k v cl = Some cl' \<Longrightarrow> client_op i cl cl'"
| op_destroy: "client_op i cl (ctc_destroy i cl)"

text \<open>The requests of connection \<open>i\<close> in the record of the node; the answer of a request that is not pending is its value.\<close>

definition rq_answered :: "requests \<Rightarrow> nat \<Rightarrow> bool" where
  "rq_answered s r \<longleftrightarrow> r < rq_made s \<and> rq_waiter s r \<notin> {Locked, Asserted} \<and> r \<notin> set (rq_pending s)"

definition rq_answer :: "requests \<Rightarrow> nat \<Rightarrow> dataframe option option" where
  "rq_answer s r = (if rq_answered s r then Some (rq_value s r) else None)"

definition client_view :: "nat \<Rightarrow> client \<Rightarrow> requests \<Rightarrow> client" where
  "client_view i cl s = cl\<lparr>cl_next_req := rq_made s, cl_reqs := rq_key s,
     cl_answers := rq_answer s,
     cl_ctc := (cl_ctc cl)(i := (cl_ctc cl i)\<lparr>ctc_queue := rq_queued s, ctc_waiting := rq_waiting s\<rparr>)\<rparr>"

lemma client_view_eqI:
  assumes "rq_made t = rq_made s" and "rq_key t = rq_key s" and "rq_queued t = rq_queued s" and "rq_waiting t = rq_waiting s"
    and "\<And>r. rq_answered t r = rq_answered s r" and "\<And>r. rq_answered s r \<Longrightarrow> rq_value t r = rq_value s r"
  shows "client_view i cl t = client_view i cl s"
proof -
  have "rq_answer t = rq_answer s" using assms(5,6) by (auto simp: rq_answer_def)
  then show ?thesis using assms(1-4) by (simp add: client_view_def)
qed

lemma fold_answer_none:
  "fold (\<lambda>r. ctc_answer r None) rs cl = cl\<lparr>cl_answers := (\<lambda>r. if r \<in> set rs then Some None else cl_answers cl r)\<rparr>"
proof (induction rs arbitrary: cl)
  case (Cons r rs)
  have "(\<lambda>q. if q \<in> set rs then Some None else ((cl_answers cl)(r := Some None)) q) =
      (\<lambda>q. if q \<in> set (r # rs) then Some None else cl_answers cl q)" by auto
  then show ?case using Cons [of "ctc_answer r None cl"] by (simp add: ctc_answer_def cong: if_cong)
qed simp


lemma request_made_view:
  assumes "tracked s"
  shows "client_view i cl (new_request k s) = snd (client_new_request k (client_view i cl s))"
proof -
  have "rq_answered (new_request k s) r = rq_answered s r" for r
    by (auto simp: rq_answered_def rq_pending_def rq_queued_def new_request_def less_Suc_eq Let_def)
  moreover have "rq_value (new_request k s) r = rq_value s r" if "rq_answered s r" for r
    using that by (simp add: rq_answered_def new_request_def Let_def)
  moreover have "\<not> rq_answered s (rq_made s)" by (simp add: rq_answered_def)
  ultimately have "rq_answer (new_request k s) = (rq_answer s)(rq_made s := None)" by (auto simp: rq_answer_def)
  then show ?thesis
    by (simp add: client_view_def client_new_request_def Let_def) (simp add: new_request_def Let_def rq_queued_def)
qed

lemma request_added_view:
  assumes "rq_waiter s r = Asserted" and "queue_free s"
  shows "client_view i cl (waiter_at r Added (s\<lparr>rq_queue := rq_queue s @ [r]\<rparr>)) = ctc_add_request i r (client_view i cl s)"
proof -
  let ?t = "waiter_at r Added (s\<lparr>rq_queue := rq_queue s @ [r]\<rparr>)"
  have "rq_answered ?t q = rq_answered s q" for q
    using assms(1) by (auto simp: rq_answered_def rq_pending_def rq_queued_def waiter_at_def)
  then have "rq_answer ?t = rq_answer s" by (auto simp: rq_answer_def waiter_at_def)
  then show ?thesis
    by (cases "cl_ctc cl i") (simp add: client_view_def ctc_add_request_def ctc_update_def, simp add: waiter_at_def rq_queued_def)
qed

lemma request_listed_view:
  assumes "rq_worker s = Popped r"
  shows "client_op i (client_view i cl s) (client_view i cl (s\<lparr>rq_waiting := rq_waiting s @ [r], rq_worker := Sending r\<rparr>))"
proof -
  let ?t = "s\<lparr>rq_waiting := rq_waiting s @ [r], rq_worker := Sending r\<rparr>"
  have "rq_answered ?t q = rq_answered s q" for q
    using assms by (auto simp: rq_answered_def rq_pending_def rq_queued_def)
  then have "rq_answer ?t = rq_answer s" by (auto simp: rq_answer_def)
  then have "client_view i cl ?t = ctc_update i (\<lambda>k. k\<lparr>ctc_queue := rq_queue s, ctc_waiting := ctc_waiting k @ [r]\<rparr>) (client_view i cl s)"
    by (cases "cl_ctc cl i") (simp add: client_view_def ctc_update_def rq_queued_def)
  moreover have "ctc_queue (cl_ctc (client_view i cl s) i) = r # rq_queue s"
    using assms by (simp add: client_view_def rq_queued_def)
  ultimately show ?thesis using op_check [of "client_view i cl s"] by simp
qed

lemma request_answered_view:
  assumes wf: "requests_wf peer spurious lossy s" and worker: "rq_worker s = Answering final k v (r # rs)"
    and key: "rq_key s r = k"
  shows "client_op i (client_view i cl s) (client_view i cl (answer_request final v r s))"
proof -
  let ?t = "answer_request final v r s"
  have tr: "tracked s" and "\<not> rq_destroyed s" using wf worker by (auto simp: requests_wf_def dest: ended_worker)
  then obtain ds where ds: "rq_waiting s = ds @ r # rs" "\<forall>d\<in>set ds. rq_key s d \<noteq> k"
    using wf worker by (auto simp: requests_wf_def accounted_def)
  have q: "rq_queued ?t = rq_queued s" "rq_waiting ?t = remove1 r (rq_waiting s)" "rq_made ?t = rq_made s" "rq_key ?t = rq_key s"
    "rq_value ?t = (rq_value s)(r := v)"
    using worker by (simp_all add: rq_queued_def request_ops)
  have pending: "r \<in> set (rq_waiting s)" "r \<in> set (rq_pending s)" "distinct (rq_pending s)"
    using ds tr by (simp_all add: rq_pending_def tracked_def)
  then have "set (rq_pending ?t) = set (rq_pending s) - {r}" by (auto simp: rq_pending_def q)
  moreover have "rq_waiter ?t x \<in> {Locked, Asserted} \<longleftrightarrow> rq_waiter s x \<in> {Locked, Asserted}" for x
    by (simp add: request_ops)
  moreover have "r < rq_made s" "rq_waiter s r \<notin> {Locked, Asserted}" using tr pending(2) by (auto simp: tracked_def)
  ultimately have "rq_answered ?t x \<longleftrightarrow> x = r \<or> rq_answered s x" for x
    using pending(2) unfolding rq_answered_def q by auto
  then have "rq_answer ?t = (rq_answer s)(r := Some v)" by (auto simp: rq_answer_def q)
  then have "client_view i cl ?t =
      ctc_update i (\<lambda>k. k\<lparr>ctc_waiting := remove1 r (ctc_waiting k)\<rparr>) (ctc_answer r v (client_view i cl s))"
    by (cases "cl_ctc cl i") (simp add: client_view_def ctc_update_def ctc_answer_def q)
  moreover have "find (\<lambda>x. k = rq_key s x) (ds @ r # rs) = Some r" using ds(2) key by (induction ds) auto
  ultimately have "ctc_fulfil i k v (client_view i cl s) = Some (client_view i cl ?t)"
    using ds(1) by (simp add: ctc_fulfil_def) (simp add: client_view_def)
  then show ?thesis by (rule op_answer)
qed

lemma destroyed_view:
  assumes "requests_wf peer spurious lossy s" and "holders s = []" and "rq_worker s = Ended"
  shows "client_view i cl (destroy_conn s) = ctc_destroy i (client_view i cl s)"
proof -
  have tr: "tracked s" using assms(1) by (simp add: requests_wf_def)
  then have none: "\<not> holds_conn (rq_waiter s r)" for r using no_holders assms(2) unfolding tracked_def by blast
  then have w: "rq_waiter s r \<noteq> Locked" "rq_waiter s r \<noteq> Asserted" for r by (metis holds_conn_simps)+
  have t: "destroy_conn s = s\<lparr>rq_value := (\<lambda>r. if r \<in> set (rq_queue s @ rq_waiting s) then None else rq_value s r),
     rq_queue := [], rq_waiting := [], rq_destroyed := True\<rparr>" using none by (intro destroy_conn_eq) simp
  have "r < rq_made s" if "r \<in> set (rq_queue s) \<or> r \<in> set (rq_waiting s)" for r
    using that tr by (auto simp: tracked_def rq_pending_def rq_queued_def)
  then have "rq_answer (destroy_conn s) = (\<lambda>r. if r \<in> set (rq_queue s @ rq_waiting s) then Some None else rq_answer s r)"
    using w assms(3) by (auto simp: t rq_answer_def rq_answered_def rq_pending_def rq_queued_def)
  then show ?thesis
    using assms(3)
    by (cases "cl_ctc cl i")
      (simp add: client_view_def ctc_destroy_def ctc_update_def fold_answer_none rq_queued_def del: fold_append cong: if_cong, simp add: t)
qed

text \<open>
  C17: The threads refine the client node: every step of theirs, from any reachable state, is to the queues, keys and answers
  of the node one of the operations of \<open>Client\<close>, or leaves them alone; in particular a response that is compared with one
  waiting request after the other does what \<open>ctc_fulfil\<close> does at once.
\<close>

theorem requests_refine_client:
  assumes "reaches (request_step peer spurious lossy) requests_init s" and "request_step peer spurious lossy s (Inr t)"
  shows "client_op i (client_view i cl s) (client_view i cl t)"
proof -
  have wf: "requests_wf peer spurious lossy s" by (rule reachable_wf [OF assms(1)])
  then have tr: "tracked s" and en: "ending_ok s" by (simp_all add: requests_wf_def)
  have none: "client_op i (client_view i cl s) c" if "c = client_view i cl s" for c
    unfolding that by (rule op_none)
  from assms(2) show ?thesis
  proof (cases rule: request_step.cases)
    case (waiter_lock k)
    then show ?thesis using op_request [of i "client_view i cl s" k] request_made_view [OF tr] by simp
  next
    case (waiter_add r)
    then show ?thesis using op_add [of i "client_view i cl s" r] request_added_view by simp
  next
    case (check_list r)
    then show ?thesis using request_listed_view by simp
  next
    case (answer_found final k v r rs)
    then show ?thesis using request_answered_view [OF wf] by simp
  next
    case last_pointer
    then have "rq_worker s = Ended" using en by (simp add: ending_ok_def)
    then show ?thesis using last_pointer destroyed_view [OF wf] op_destroy [of i "client_view i cl s"] by simp
  qed (auto intro!: none client_view_eqI simp: rq_answered_def rq_pending_def rq_queued_def request_ops split: if_splits)
qed

theorem requests_refine_client_witness:
  "client_op 0 (client_view 0 sample_client (asking LoopTest [] [] [] False Asserted))
     (client_view 0 sample_client (asking LoopTest [] [0] [] False Added))"
proof -
  have "queue_free (asking LoopTest [] [] [] False Asserted)" by (simp add: queue_free_def)
  then have "request_step (\<lambda>k v. True) False False (asking LoopTest [] [] [] False Asserted) (Inr (asking LoopTest [] [0] [] False Added))"
    using waiter_add [of "asking LoopTest [] [] [] False Asserted" 0] by (simp add: asking_ops)
  from requests_refine_client [OF run_asserted this] show ?thesis .
qed

end
