(* ===== verification/CleanUp.thy ===== *)
theory CleanUp
  imports Server Cluster
begin

text \<open>
  The one lock a server holds while it waits for a thread: \<open>NetPort::_clean_up_closed\<close> joins the thread of a finished
  connection under the lock of the connections. It runs on the main thread after every \<open>accept\<close>, and on the thread
  of a connection that registers its client (\<open>Server::update_and_alert\<close>); registering and handling a teardown
  (\<open>Server::request_teardown\<close>) take the same lock.
\<close>

section \<open>Threads\<close>

datatype thread = Main | Worker nat

text \<open>
  Where a thread is: in its loop; for a connection, in the \<open>receive_and_parse\<close> after its loop; waiting for the lock to clean up;
  in the clean-up, with the connections it has still to look at; there, joining a thread; waiting for the lock for a
  section that waits for nobody; at its end.
\<close>

datatype place =
    Running
  | LastReceive
  | WantsSweep
  | Sweeping "nat list"
  | Joining nat "nat list"
  | WantsLock
  | AtEnd

text \<open>The lock has an owner; \<open>cu_last\<close> says that a connection has left its loop.\<close>

record cleaning =
  cu_conns :: "nat list"
  cu_next :: nat
  cu_finished :: "nat \<Rightarrow> bool"
  cu_last :: "nat \<Rightarrow> bool"
  cu_place :: "thread \<Rightarrow> place"
  cu_owner :: "thread option"

definition cleaning_init :: cleaning where
  "cleaning_init = \<lparr>cu_conns = [], cu_next = 0, cu_finished = (\<lambda>_. False), cu_last = (\<lambda>_. False),
     cu_place = (\<lambda>_. AtEnd)(Main := Running), cu_owner = None\<rparr>"

definition goes_to :: "thread \<Rightarrow> place \<Rightarrow> cleaning \<Rightarrow> cleaning" where
  "goes_to t p s = s\<lparr>cu_place := (cu_place s)(t := p)\<rparr>"

text \<open>\<open>_accept_connection\<close>: a new connection, whose thread is started.\<close>

definition accept_new :: "cleaning \<Rightarrow> cleaning" where
  "accept_new s =
     (let i = cu_next s in
      goes_to (Worker i) Running (s\<lparr>cu_conns := cu_conns s @ [i], cu_next := Suc i,
        cu_finished := (cu_finished s)(i := False), cu_last := (cu_last s)(i := False)\<rparr>))"

text \<open>After a packet a connection goes on with its loop, or ends when it has left it.\<close>

definition resume :: "nat \<Rightarrow> cleaning \<Rightarrow> cleaning" where
  "resume i s =
     (if cu_last s i then goes_to (Worker i) AtEnd (s\<lparr>cu_finished := (cu_finished s)(i := True)\<rparr>)
      else goes_to (Worker i) Running s)"

text \<open>
  \<open>late\<close>: a registration or a request for teardown may be what the receive after the loop finds. \<open>foreign\<close>: a connection
  may be finished by another thread, as by a teardown that cannot be sent to it; otherwise only by its own, between packets.
  Its loop ends when it is finished or when it cannot send. A thread that joins itself throws.
\<close>

inductive clean_step :: "bool \<Rightarrow> bool \<Rightarrow> cleaning \<Rightarrow> cleaning res \<Rightarrow> bool" for late foreign s where
  accept: "cu_place s Main = Running \<Longrightarrow> cu_owner s = None \<Longrightarrow> clean_step late foreign s (Inr (accept_new s))"
| main_clean: "cu_place s Main = Running \<Longrightarrow> clean_step late foreign s (Inr (goes_to Main WantsSweep s))"
| sweep_lock: "cu_place s t = WantsSweep \<Longrightarrow> cu_owner s = None
    \<Longrightarrow> clean_step late foreign s (Inr (goes_to t (Sweeping (cu_conns s)) (s\<lparr>cu_owner := Some t\<rparr>)))"
| sweep_skip: "cu_place s t = Sweeping (i # is) \<Longrightarrow> \<not> cu_finished s i
    \<Longrightarrow> clean_step late foreign s (Inr (goes_to t (Sweeping is) s))"
| sweep_join: "cu_place s t = Sweeping (i # is) \<Longrightarrow> cu_finished s i
    \<Longrightarrow> clean_step late foreign s (if t = Worker i then Inl (Throw SystemError) else Inr (goes_to t (Joining i is) s))"
| joined: "cu_place s t = Joining i is \<Longrightarrow> cu_place s (Worker i) = AtEnd
    \<Longrightarrow> clean_step late foreign s (Inr (goes_to t (Sweeping is) (s\<lparr>cu_conns := remove1 i (cu_conns s)\<rparr>)))"
| sweep_done: "cu_place s t = Sweeping []
    \<Longrightarrow> clean_step late foreign s (Inr (goes_to t (if t = Main then Running else WantsLock) (s\<lparr>cu_owner := None\<rparr>)))"
| lock_section: "cu_place s (Worker i) = WantsLock \<Longrightarrow> cu_owner s = None \<Longrightarrow> clean_step late foreign s (Inr (resume i s))"
| register: "cu_place s (Worker i) = Running \<and> \<not> cu_finished s i \<or> late \<and> cu_place s (Worker i) = LastReceive
    \<Longrightarrow> clean_step late foreign s (Inr (goes_to (Worker i) WantsSweep s))"
| teardown: "cu_place s (Worker i) = Running \<and> \<not> cu_finished s i \<or> late \<and> cu_place s (Worker i) = LastReceive
    \<Longrightarrow> clean_step late foreign s (Inr (goes_to (Worker i) WantsLock s))"
| loop_end: "cu_place s (Worker i) = Running
    \<Longrightarrow> clean_step late foreign s (Inr (goes_to (Worker i) LastReceive (s\<lparr>cu_last := (cu_last s)(i := True)\<rparr>)))"
| worker_end: "cu_place s (Worker i) = LastReceive
    \<Longrightarrow> clean_step late foreign s (Inr (goes_to (Worker i) AtEnd (s\<lparr>cu_finished := (cu_finished s)(i := True)\<rparr>)))"
| finish: "foreign \<or> cu_place s (Worker i) = Running \<or> cu_place s (Worker i) = LastReceive
    \<Longrightarrow> clean_step late foreign s (Inr (s\<lparr>cu_finished := (cu_finished s)(i := True)\<rparr>))"

inductive_cases clean_stepE: "clean_step late foreign s (Inr s')"

section \<open>Mutual exclusion\<close>

fun in_sweep :: "place \<Rightarrow> bool" where
  "in_sweep (Sweeping is) \<longleftrightarrow> True"
| "in_sweep (Joining i is) \<longleftrightarrow> True"
| "in_sweep p \<longleftrightarrow> False"

definition lock_ok :: "cleaning \<Rightarrow> bool" where
  "lock_ok s \<longleftrightarrow> (\<forall>t. in_sweep (cu_place s t) \<longleftrightarrow> cu_owner s = Some t)
     \<and> (\<forall>i\<ge>cu_next s. cu_place s (Worker i) = AtEnd) \<and> (\<forall>i\<in>set (cu_conns s). i < cu_next s)"

lemmas clean_defs = goes_to_def accept_new_def resume_def Let_def

lemma lock_ok_init: "lock_ok cleaning_init"
  by (simp add: lock_ok_def cleaning_init_def)

lemma lock_ok_update [simp]:
  "lock_ok (s\<lparr>cu_finished := f\<rparr>) = lock_ok s" "lock_ok (s\<lparr>cu_last := l\<rparr>) = lock_ok s"
  by (simp_all add: lock_ok_def)

lemma lock_ok_owner: "lock_ok s \<Longrightarrow> in_sweep (cu_place s t) \<longleftrightarrow> cu_owner s = Some t"
  by (simp add: lock_ok_def)

lemma lock_ok_worker: "lock_ok s \<Longrightarrow> cu_place s (Worker i) \<noteq> AtEnd \<Longrightarrow> i < cu_next s"
  by (auto simp: lock_ok_def not_less [symmetric])

lemma lock_ok_goes:
  assumes "lock_ok s" and "in_sweep p = in_sweep (cu_place s t)" and "t = Main \<or> cu_place s t \<noteq> AtEnd"
  shows "lock_ok (goes_to t p s)"
  using assms by (auto simp: lock_ok_def goes_to_def)

lemma lock_ok_step:
  assumes ok: "lock_ok s" and step: "clean_step late foreign s (Inr s')"
  shows "lock_ok s'"
  using step
proof (cases rule: clean_step.cases)
  case accept
  then have "\<not> in_sweep (cu_place s t)" for t using ok by (simp add: lock_ok_def)
  then show ?thesis using ok accept by (auto simp: lock_ok_def clean_defs less_Suc_eq)
next
  case (sweep_lock t)
  then show ?thesis using ok by (auto simp: lock_ok_def clean_defs)
next
  case (joined t i "is")
  then have "lock_ok (goes_to t (Sweeping is) s)" using ok by (intro lock_ok_goes) simp_all
  then show ?thesis using joined by (auto simp: lock_ok_def goes_to_def dest: in_set_remove1)
next
  case (sweep_done t)
  then have "cu_owner s = Some t" using lock_ok_owner [OF ok, of t] by simp
  then have sweep: "in_sweep (cu_place s u) \<longleftrightarrow> u = t" for u using lock_ok_owner [OF ok, of u] by auto
  have at_end: "cu_place s (Worker i) = AtEnd \<and> t \<noteq> Worker i" if "cu_next s \<le> i" for i
    using that ok lock_ok_worker [OF ok, of i] sweep_done(2) by (auto simp: lock_ok_def)
  have "in_sweep (cu_place s' u) \<longleftrightarrow> cu_owner s' = Some u" for u
    using sweep [of u] by (simp add: sweep_done(1) goes_to_def)
  moreover have "cu_place s' (Worker i) = AtEnd" if "cu_next s' \<le> i" for i
    using at_end [of i] that by (auto simp: sweep_done(1) goes_to_def)
  moreover have "\<forall>i\<in>set (cu_conns s'). i < cu_next s'" using ok by (simp add: sweep_done(1) goes_to_def lock_ok_def)
  ultimately show ?thesis unfolding lock_ok_def by blast
qed (use ok in \<open>auto simp: resume_def intro!: lock_ok_goes split: if_splits\<close>)

lemma lock_ok_reaches:
  assumes "reaches (clean_step late foreign) s s'" and "lock_ok s"
  shows "lock_ok s'"
  by (rule reaches_inv [where P = lock_ok, OF assms]) (rule lock_ok_step)

section \<open>Deadlock\<close>

text \<open>
  A run: connection 0 is accepted, its thread finishes it and leaves its loop; the main thread cleans up while the last
  receive finds a request for teardown.
\<close>

definition one_conn :: "bool \<Rightarrow> place \<Rightarrow> place \<Rightarrow> thread option \<Rightarrow> cleaning" where
  "one_conn fin m w owner = \<lparr>cu_conns = [0], cu_next = 1, cu_finished = (\<lambda>_. False)(0 := fin), cu_last = (\<lambda>_. False)(0 := fin),
     cu_place = (\<lambda>_. AtEnd)(Main := m, Worker 0 := w), cu_owner = owner\<rparr>"

lemma one_conn_goes:
  "goes_to Main m' (one_conn fin m w owner) = one_conn fin m' w owner"
  "goes_to (Worker 0) w' (one_conn fin m w owner) = one_conn fin m w' owner"
  "(one_conn fin m w owner)\<lparr>cu_owner := owner'\<rparr> = one_conn fin m w owner'"
  "cu_place (one_conn fin m w owner) Main = m" "cu_place (one_conn fin m w owner) (Worker 0) = w"
  "cu_owner (one_conn fin m w owner) = owner" "cu_conns (one_conn fin m w owner) = [0]"
  "cu_finished (one_conn fin m w owner) 0 = fin"
  by (auto simp: one_conn_def goes_to_def fun_eq_iff)

lemma run_deadlock:
  "reaches (clean_step True foreign) cleaning_init (one_conn True (Joining 0 []) WantsLock (Some Main))"
proof -
  let ?step = "clean_step True foreign"
  let ?c = "one_conn False Running Running None"
  have "accept_new cleaning_init = ?c"
    by (auto simp: accept_new_def cleaning_init_def goes_to_def one_conn_def Let_def fun_eq_iff)
  then have 1: "?step cleaning_init (Inr ?c)" using accept [of cleaning_init] by (simp add: cleaning_init_def)
  have 2: "?step ?c (Inr (?c\<lparr>cu_finished := (cu_finished ?c)(0 := True)\<rparr>))"
    by (rule finish) (simp add: one_conn_goes)
  let ?d = "?c\<lparr>cu_finished := (cu_finished ?c)(0 := True)\<rparr>"
  have "goes_to (Worker 0) LastReceive (?d\<lparr>cu_last := (cu_last ?d)(0 := True)\<rparr>) = one_conn True Running LastReceive None"
    by (auto simp: one_conn_def goes_to_def fun_eq_iff)
  then have 3: "?step ?d (Inr (one_conn True Running LastReceive None))"
    using loop_end [of ?d 0 True foreign] by (simp add: one_conn_def)
  have 4: "?step (one_conn True Running LastReceive None) (Inr (one_conn True WantsSweep LastReceive None))"
    using main_clean [of "one_conn True Running LastReceive None"] by (simp add: one_conn_goes)
  have 5: "?step (one_conn True WantsSweep LastReceive None) (Inr (one_conn True (Sweeping [0]) LastReceive (Some Main)))"
    using sweep_lock [of "one_conn True WantsSweep LastReceive None" Main] by (simp add: one_conn_goes)
  have 6: "?step (one_conn True (Sweeping [0]) LastReceive (Some Main)) (Inr (one_conn True (Joining 0 []) LastReceive (Some Main)))"
    using sweep_join [of "one_conn True (Sweeping [0]) LastReceive (Some Main)" Main 0 "[]"] by (simp add: one_conn_goes)
  have 7: "?step (one_conn True (Joining 0 []) LastReceive (Some Main)) (Inr (one_conn True (Joining 0 []) WantsLock (Some Main)))"
    using teardown [of "one_conn True (Joining 0 []) LastReceive (Some Main)" 0] by (simp add: one_conn_goes)
  show ?thesis
    by (rule reaches_step [OF reaches_step [OF reaches_step [OF reaches_step [OF reaches_step [OF reaches_step
          [OF reaches_one [of ?step, OF 1] 2] 3] 4] 5] 6] 7])
qed

section \<open>When it cannot happen\<close>

text \<open>
  Where a connection is only finished by its own thread, and its last receive finds neither a registration nor a
  request for teardown, a finished connection wants nothing more.
\<close>

definition own_ok :: "cleaning \<Rightarrow> bool" where
  "own_ok s \<longleftrightarrow> (\<forall>i<cu_next s. cu_finished s i \<longrightarrow> cu_place s (Worker i) \<in> {Running, LastReceive, AtEnd})
     \<and> (\<forall>t is. cu_place s t = Sweeping is \<longrightarrow> (\<forall>j\<in>set is. j < cu_next s))
     \<and> (\<forall>t i is. cu_place s t = Joining i is \<longrightarrow> cu_finished s i \<and> (\<forall>j\<in>set (i # is). j < cu_next s))"

lemma own_ok_init: "own_ok cleaning_init"
  by (simp add: own_ok_def cleaning_init_def)

lemma own_ok_step:
  assumes own: "own_ok s" and ok: "lock_ok s" and step: "clean_step False False s (Inr s')"
  shows "own_ok s'"
proof -
  have conns: "\<forall>i\<in>set (cu_conns s). i < cu_next s" using ok by (simp add: lock_ok_def)
  from step show ?thesis
  proof (cases rule: clean_step.cases)
    case accept
    then have "\<not> in_sweep (cu_place s t)" for t using ok by (simp add: lock_ok_def)
    then have "cu_place s t \<noteq> Sweeping is" "cu_place s t \<noteq> Joining i is" for t i "is" by (metis in_sweep.simps)+
    then show ?thesis using own accept by (auto simp: own_ok_def clean_defs less_Suc_eq)
  qed (use own conns in \<open>auto simp: own_ok_def clean_defs split: if_splits\<close>)
qed

fun place_left :: "place \<Rightarrow> nat" where
  "place_left Running = 2"
| "place_left LastReceive = 1"
| "place_left p = 0"

fun sweep_left :: "cleaning \<Rightarrow> place \<Rightarrow> nat" where
  "sweep_left s (Sweeping is) = 5 * length is + 1"
| "sweep_left s (Joining i is) = 5 * length is + 2 + place_left (cu_place s (Worker i))"
| "sweep_left s p = 0"

definition cleaning_up :: "thread \<Rightarrow> cleaning \<Rightarrow> bool" where
  "cleaning_up t s \<longleftrightarrow> lock_ok s \<and> own_ok s \<and> in_sweep (cu_place s t)"

lemma cleaning_up_step:
  assumes "cleaning_up t s" and "clean_step False False s (Inr s')" and "in_sweep (cu_place s' t)"
    and "sweep_left s' (cu_place s' t) < sweep_left s (cu_place s t)"
  shows "\<exists>s'. reaches (clean_step False False) s s' \<and> cleaning_up t s'
     \<and> sweep_left s' (cu_place s' t) < sweep_left s (cu_place s t)"
  using assms reaches_one [of "clean_step False False", OF assms(2)] lock_ok_step own_ok_step
  by (auto simp: cleaning_up_def)

lemma cleaning_up_progress:
  assumes up: "cleaning_up t s" and "cu_place s t \<noteq> Sweeping []"
  shows "\<exists>s'. reaches (clean_step False False) s s' \<and> cleaning_up t s'
     \<and> sweep_left s' (cu_place s' t) < sweep_left s (cu_place s t)"
proof -
  let ?step = "clean_step False False"
  have own: "own_ok s" and sweep: "in_sweep (cu_place s t)" using up by (simp_all add: cleaning_up_def)
  note step = cleaning_up_step [OF up]
  from sweep assms(2) consider (sweeping) i "is" where "cu_place s t = Sweeping (i # is)" | (joining) i "is" where "cu_place s t = Joining i is"
    by (cases "cu_place s t") (auto simp: neq_Nil_conv)
  then show ?thesis
  proof cases
    case sweeping
    show ?thesis
    proof (cases "cu_finished s i")
      case True
      have "i < cu_next s" using own sweeping by (fastforce simp: own_ok_def)
      then have place: "cu_place s (Worker i) \<in> {Running, LastReceive, AtEnd}" using own True by (simp add: own_ok_def)
      then have "t \<noteq> Worker i" using sweeping by auto
      then have "?step s (Inr (goes_to t (Joining i is) s))" using sweep_join [OF sweeping True, of False False] by simp
      then show ?thesis by (rule step) (use place \<open>t \<noteq> Worker i\<close> in \<open>auto simp: goes_to_def sweeping\<close>)
    next
      case False
      show ?thesis by (rule step [OF sweep_skip [OF sweeping False]]) (simp_all add: goes_to_def sweeping)
    qed
  next
    case joining
    have "i < cu_next s" "cu_finished s i" using own joining by (fastforce simp: own_ok_def)+
    then have place: "cu_place s (Worker i) \<in> {Running, LastReceive, AtEnd}" using own by (simp add: own_ok_def)
    then have other: "t \<noteq> Worker i" using joining by auto
    from place consider "cu_place s (Worker i) = Running" | "cu_place s (Worker i) = LastReceive" | "cu_place s (Worker i) = AtEnd"
      by blast
    then show ?thesis
    proof cases
      case 1
      show ?thesis by (rule step [OF loop_end [OF 1]]) (use other in \<open>simp_all add: goes_to_def joining 1\<close>)
    next
      case 2
      show ?thesis by (rule step [OF worker_end [OF 2]]) (use other in \<open>simp_all add: goes_to_def joining 2\<close>)
    next
      case 3
      show ?thesis by (rule step [OF joined [OF joining 3]]) (simp_all add: goes_to_def joining)
    qed
  qed
qed

section \<open>Properties\<close>

text \<open>
  Where it cannot happen, the lock can always be had again: a thread that cleans up can get to the end of it.
\<close>

lemma clean_up_can_end:
  assumes "reaches (clean_step False False) cleaning_init s" and "cu_owner s = Some t"
  shows "\<exists>s'. reaches (clean_step False False) s s' \<and> cu_owner s' = None"
proof -
  have "lock_ok s \<and> own_ok s"
    by (rule reaches_inv [where P = "\<lambda>s. lock_ok s \<and> own_ok s", OF assms(1)]) (auto simp: lock_ok_init own_ok_init intro: lock_ok_step own_ok_step)
  then have "cleaning_up t s" using assms(2) by (simp add: cleaning_up_def lock_ok_def)
  then have "\<exists>s'. reaches (clean_step False False) s s' \<and> cleaning_up t s' \<and> cu_place s' t = Sweeping []"
    by (rule reaches_done [where left = "\<lambda>s. sweep_left s (cu_place s t)"]) (use cleaning_up_progress in blast)
  then obtain s' where s': "reaches (clean_step False False) s s'" "cu_place s' t = Sweeping []" by blast
  from reaches_step [OF s'(1) sweep_done [OF s'(2)]] show ?thesis
    by (intro exI conjI) (auto simp: goes_to_def)
qed

text \<open>
  C18: A clean-up can block for ever: when it joins the thread of a connection that wants the lock of the connections, to
  register its client or to handle a teardown, both stay where they are whatever other threads do, and nobody gets that lock again.
\<close>

theorem clean_up_deadlock:
  assumes "reaches (clean_step late foreign) cleaning_init s" and "cu_place s t = Joining i is"
    and "cu_place s (Worker i) \<in> {WantsSweep, WantsLock}" and "reaches (clean_step late foreign) s s'"
  shows "cu_place s' t = Joining i is \<and> cu_place s' (Worker i) \<in> {WantsSweep, WantsLock} \<and> cu_owner s' = Some t"
proof -
  let ?P = "\<lambda>s. lock_ok s \<and> cu_place s t = Joining i is \<and> cu_place s (Worker i) \<in> {WantsSweep, WantsLock}"
  have "lock_ok s" using lock_ok_reaches [OF assms(1)] lock_ok_init by simp
  then have "?P s'" using assms(2,3)
  proof (intro reaches_inv [where P = ?P, OF assms(4)])
    fix s s' :: cleaning
    assume P: "?P s" and step: "clean_step late foreign s (Inr s')"
    then have owner: "cu_owner s = Some t" using lock_ok_owner [of s t] by simp
    have "i < cu_next s" "t = Worker j \<Longrightarrow> j < cu_next s" for j
      using P lock_ok_worker [of s] by auto
    with step P owner have "cu_place s' t = Joining i is \<and> cu_place s' (Worker i) \<in> {WantsSweep, WantsLock}"
      by (cases rule: clean_step.cases) (auto simp: clean_defs split: if_splits)
    with lock_ok_step [OF _ step] P show "?P s'" by blast
  qed simp_all
  then show ?thesis using lock_ok_owner [of s' t] by simp
qed

theorem clean_up_deadlock_witness:
  "\<exists>s. reaches (clean_step True False) cleaning_init s
     \<and> (\<forall>s'. reaches (clean_step True False) s s' \<longrightarrow> cu_place s' Main = Joining 0 [] \<and> cu_owner s' = Some Main)"
  using clean_up_deadlock [OF run_deadlock, of Main 0 "[]"] run_deadlock [of False]
  by (intro exI [of _ "one_conn True (Joining 0 []) WantsLock (Some Main)"]) (auto simp: one_conn_goes)

end
