(* ===== verification/Shutdown.thy ===== *)
theory Shutdown
  imports System
begin

text \<open>
  How a node ends: the destructors of \<open>NetPort\<close> and \<open>Client\<close> (\<open>src/network/netport.cpp\<close>, \<open>src/network/client.cpp\<close>), which
  run when \<open>main\<close> has returned and the process takes down its one node, and what a teardown leaves them.
\<close>

section \<open>Destructors\<close>

text \<open>
  A clean-up whose hook can fail. While \<open>~NetPort\<close> runs, the object is no \<open>Server\<close> or \<open>Client\<close> any more, and a call of
  \<open>_on_clean_up\<close> finds the pure virtual function of \<open>NetPort\<close>.
\<close>

fun esweep :: "(nat \<Rightarrow> 'a netport_scheme \<Rightarrow> 'a netport_scheme res) \<Rightarrow> nat list \<Rightarrow> nat list
    \<Rightarrow> 'a netport_scheme \<Rightarrow> 'a netport_scheme res" where
  "esweep on_clean_up kept [] np = Inr (np\<lparr>np_conns := kept\<rparr>)"
| "esweep on_clean_up kept (i # is) np =
     (if cn_finished (np_heap np i) then ebind (on_clean_up i np) (esweep on_clean_up kept is)
      else esweep on_clean_up (kept @ [i]) is np)"

definition pure_on_clean_up :: "nat \<Rightarrow> 'a netport_scheme \<Rightarrow> 'a netport_scheme res" where
  "pure_on_clean_up i np = Inl (Undefined PureVirtualCall)"

definition netport_destroy :: "'a netport_scheme \<Rightarrow> 'a netport_scheme res" where
  "netport_destroy np = emap ask_all (esweep pure_on_clean_up [] (np_conns np) np)"

text \<open>\<open>Server\<close> has no destructor of its own; \<open>~Client\<close> asks the connection to the server to finish and joins it first.\<close>

definition server_destroy :: "server \<Rightarrow> server res" where
  "server_destroy s = netport_destroy s"

definition client_destroy :: "client \<Rightarrow> client res" where
  "client_destroy cl = netport_destroy (cl\<lparr>cl_server_conn := map_option ask_to_finish (cl_server_conn cl)\<rparr>)"

section \<open>When they succeed\<close>

text \<open>With a hook that does not fail it is the clean-up.\<close>

lemma esweep_sweep: "esweep (\<lambda>i np. Inr (f i np)) kept is np = Inr (sweep f kept is np)"
  by (induction "is" arbitrary: kept np) simp_all

lemma esweep_pure:
  "esweep pure_on_clean_up kept is np =
     (if \<exists>i\<in>set is. cn_finished (np_heap np i) then Inl (Undefined PureVirtualCall) else Inr (np\<lparr>np_conns := kept @ is\<rparr>))"
  by (induction "is" arbitrary: kept) (simp_all add: pure_on_clean_up_def)

lemma fold_ask:
  "np_heap (fold (\<lambda>i np. np_write i (ask_to_finish (np_heap np i)) np) is np) =
     (\<lambda>i. if i \<in> set is then ask_to_finish (np_heap np i) else np_heap np i)"
  by (induction "is" arbitrary: np) (auto simp: np_write_def ask_to_finish_def fun_eq_iff)

text \<open>
  A node can be destroyed when none of its connections has finished; each of them is then asked to finish. A single
  one that has finished since the last clean-up ends the process with a call of a pure virtual function.
\<close>

lemma netport_destroy_result:
  "if closed_conns np = []
   then \<exists>np'. netport_destroy np = Inr np' \<and> np_conns np' = [] \<and> (\<forall>i\<in>set (np_conns np). cn_finished (np_heap np' i))
   else netport_destroy np = Inl (Undefined PureVirtualCall)"
proof (cases "closed_conns np = []")
  case True
  then have "netport_destroy np = Inr (ask_all np)"
    by (auto simp: netport_destroy_def esweep_pure closed_conns_def filter_empty_conv)
  then show ?thesis using True by (simp add: ask_all_def fold_ask) (simp add: ask_to_finish_def)
next
  case False
  then show ?thesis by (auto simp: netport_destroy_def esweep_pure closed_conns_def filter_empty_conv)
qed

lemma client_destroy_result:
  "client_destroy cl = Inl (Undefined PureVirtualCall) \<longleftrightarrow> closed_conns cl \<noteq> []"
proof -
  let ?cl = "cl\<lparr>cl_server_conn := map_option ask_to_finish (cl_server_conn cl)\<rparr>"
  have "closed_conns ?cl = closed_conns cl" by (simp add: closed_conns_def)
  then show ?thesis using netport_destroy_result [of ?cl] by (auto simp: client_destroy_def split: if_splits)
qed

section \<open>After a teardown\<close>

lemma efold_send_conns:
  assumes "efold (\<lambda>i s. emap (\<lambda>c. np_write i c s) (send_teardown_request (np_heap s i))) is s = Inr s'"
  shows "np_conns s' = np_conns s"
  by (rule efold_invariant [where I = "\<lambda>t. np_conns t = np_conns s", OF assms]) (auto simp: emap_eq_Inr)

text \<open>
  C19: The worker that has handled a request for teardown, with which every program ends, leaves its connection finished; unless
  the main loop happens to clean up once more before it notices that it is to stop, the destructor of the server then calls a pure
  virtual function.
\<close>

theorem server_teardown_pure_virtual:
  assumes "server_parse_data i p c s = Inr (r, c', s')" and "pk_type p = PT_TEARDOWN" and "i \<in> set (np_conns s)"
  shows "\<not> np_running s' \<and> server_destroy (np_write i c' s') = Inl (Undefined PureVirtualCall)"
proof -
  have "server_request_teardown (np_write i c s) = Inr s'" and c': "cn_finished c'"
    using assms(1,2) by (auto simp: server_parse_data_def emap_eq_Inr ask_to_finish_def)
  then obtain s1 where "efold (\<lambda>i s. emap (\<lambda>c. np_write i c s) (send_teardown_request (np_heap s i)))
      (np_conns s) (np_write i c s) = Inr s1" and s': "s' = s1\<lparr>np_running := False\<rparr>"
    by (auto simp: server_request_teardown_def emap_eq_Inr)
  then have "np_conns s1 = np_conns s" using efold_send_conns by fastforce
  then have "i \<in> set (closed_conns (np_write i c' s'))" using s' c' assms(3) by (simp add: closed_conns_def)
  then have "closed_conns (np_write i c' s') \<noteq> []" by auto
  then show ?thesis using netport_destroy_result [of "np_write i c' s'"] s' by (simp add: server_destroy_def)
qed

theorem server_teardown_pure_virtual_witness:
  "\<exists>c s. server_parse_data 0 (packet_of PT_TEARDOWN []) (conn_new sockaddr_zero [] [(SockOk, Sent 100)])
       (sample_server\<lparr>np_conns := [0]\<rparr>) = Inr (Success, c, s)
     \<and> server_destroy (np_write 0 c s) = Inl (Undefined PureVirtualCall)"
proof -
  let ?c = "conn_new sockaddr_zero [] [(SockOk, Sent 100)]"
  let ?s = "sample_server\<lparr>np_conns := [0]\<rparr>"
  have "\<exists>c s. server_parse_data 0 (packet_of PT_TEARDOWN []) ?c ?s = Inr (Success, c, s)"
    using send_packet_full [of ?c 100 "[]" "packet_of PT_TEARDOWN []"]
    by (auto simp: server_parse_data_def server_request_teardown_def send_teardown_request_def packet_of_def packet_new_def
        packet_get_size_def conn_new_def np_write_def)
  then obtain c s where cs: "server_parse_data 0 (packet_of PT_TEARDOWN []) ?c ?s = Inr (Success, c, s)" by blast
  have "pk_type (packet_of PT_TEARDOWN []) = PT_TEARDOWN" by (simp add: packet_of_def)
  from server_teardown_pure_virtual [OF cs this] cs show ?thesis by auto
qed

end
