(* ===== verification/Console.thy ===== *)
theory Console
  imports Connection Arguments
begin

text \<open>
  What is written to the terminal by \<open>Sys\<close> (\<open>include/util/helper.h\<close>, \<open>src/util/helper.cpp\<close>), by
  \<open>Connection::print_read_buffer\<close>, and by the help texts of the three programs. The output is the string of all
  characters so far; how \<open>std::cout\<close> writes a \<open>double\<close> is a parameter.
\<close>

section \<open>\<open>Sys\<close>\<close>

text \<open>The overloads of \<open>p\<close> and \<open>pln\<close>; \<open>char*\<close>, \<open>const char*\<close> and \<open>std::string\<close> write the same.\<close>

datatype printable = PChars string | PBool bool | PDouble f64 | PInt i32 | PSize nat | PChar char

fun shown :: "(f64 \<Rightarrow> string) \<Rightarrow> printable \<Rightarrow> string" where
  "shown show_double (PChars s) = s"
| "shown show_double (PBool b) = (if b then ''1'' else ''0'')"
| "shown show_double (PDouble d) = show_double d"
| "shown show_double (PInt i) = show_int (sint i)"
| "shown show_double (PSize n) = show_nat n"
| "shown show_double (PChar c) = [c]"

definition newline :: string where "newline = [CHR 0x0A]"

definition sys_p :: "(f64 \<Rightarrow> string) \<Rightarrow> printable \<Rightarrow> string \<Rightarrow> string" where
  "sys_p show_double x out = out @ shown show_double x"

definition sys_newline :: "string \<Rightarrow> string" where
  "sys_newline out = out @ newline"

definition sys_pln :: "(f64 \<Rightarrow> string) \<Rightarrow> printable \<Rightarrow> string \<Rightarrow> string" where
  "sys_pln show_double x out = sys_newline (sys_p show_double x out)"

text \<open>The functions that end the program give what was written up to then.\<close>

definition sys_exit_if_not :: "(f64 \<Rightarrow> string) \<Rightarrow> bool \<Rightarrow> string \<Rightarrow> string \<Rightarrow> string \<times> unit res" where
  "sys_exit_if_not sd b c out =
     (if b then (out, Inr ()) else (sys_pln sd (PChars c) (sys_p sd (PChars ''Exit message: '') out), Inl Abort))"

definition sys_myfail :: "(f64 \<Rightarrow> string) \<Rightarrow> string \<Rightarrow> string \<times> unit res" where
  "sys_myfail sd out = (sys_pln sd (PChars ''Failing'') out, Inl Abort)"

definition sys_OK :: "(f64 \<Rightarrow> string) \<Rightarrow> string \<Rightarrow> string \<Rightarrow> string" where
  "sys_OK sd m out = sys_pln sd (PChars m) out"

definition sys_t_true :: "(f64 \<Rightarrow> string) \<Rightarrow> bool \<Rightarrow> string \<Rightarrow> string \<times> unit res" where
  "sys_t_true sd b out = (if \<not> b then sys_myfail sd out else (out, Inr ()))"

definition sys_t_false :: "(f64 \<Rightarrow> string) \<Rightarrow> bool \<Rightarrow> string \<Rightarrow> string \<times> unit res" where
  "sys_t_false sd b out = (if b then sys_myfail sd out else (out, Inr ()))"

text \<open>What a check writes when it succeeds is nothing, and the program goes on exactly then.\<close>

lemma sys_checks:
  "sys_exit_if_not sd b c out = (out, Inr ()) \<longleftrightarrow> b"
  "sys_t_true sd b out = (out, Inr ()) \<longleftrightarrow> b"
  "sys_t_false sd b out = (out, Inr ()) \<longleftrightarrow> \<not> b"
  by (simp_all add: sys_exit_if_not_def sys_t_true_def sys_t_false_def sys_myfail_def)

section \<open>\<open>print_read_buffer\<close>\<close>

text \<open>A byte is written as a number, a line ends after byte 8, 16 and so on.\<close>

definition print_byte :: "bytes \<Rightarrow> nat \<Rightarrow> string \<Rightarrow> string res" where
  "print_byte buf i out =
     emap (\<lambda>b. (let out = out @ show_nat (unat b) in if 0 < i \<and> i mod 8 = 0 then sys_newline out else out @ '' ''))
       (vec_at buf i)"

definition print_read_buffer :: "conn \<Rightarrow> string \<Rightarrow> string res" where
  "print_read_buffer c out =
     emap sys_newline (efold (print_byte (cn_buf c)) [0..<unat (cn_pos c)]
       (sys_newline (out @ ''Read Buffer (Length: '' @ show_nat (unat (cn_pos c)) @ ''): '')))"

text \<open>It reads inside the buffer as long as the position does not pass its end (\<open>ReceiveBuffer\<close>).\<close>

lemma print_read_buffer_in_bounds:
  assumes "unat (cn_pos c) \<le> length (cn_buf c)"
  shows "\<exists>out'. print_read_buffer c out = Inr (out @ out')"
proof -
  have "\<exists>out'. efold (print_byte (cn_buf c)) is out = Inr (out @ out')" if "\<forall>i\<in>set is. i < length (cn_buf c)" for "is" out
    using that
  proof (induction "is" arbitrary: out)
    case (Cons i "is")
    let ?x = "show_nat (unat (cn_buf c ! i)) @ (if 0 < i \<and> i mod 8 = 0 then newline else '' '')"
    have "print_byte (cn_buf c) i out = Inr (out @ ?x)" using Cons.prems by (simp add: print_byte_def sys_newline_def Let_def)
    moreover obtain y where "efold (print_byte (cn_buf c)) is (out @ ?x) = Inr ((out @ ?x) @ y)"
      using Cons.IH [of "out @ ?x"] Cons.prems by auto
    ultimately show ?case by auto
  qed simp
  then obtain y where "efold (print_byte (cn_buf c)) [0..<unat (cn_pos c)]
      (sys_newline (out @ ''Read Buffer (Length: '' @ show_nat (unat (cn_pos c)) @ ''): '')) =
      Inr (sys_newline (out @ ''Read Buffer (Length: '' @ show_nat (unat (cn_pos c)) @ ''): '') @ y)"
    using assms by fastforce
  then show ?thesis by (simp add: print_read_buffer_def) (simp add: sys_newline_def)
qed

section \<open>Help texts\<close>

text \<open>\<open>std::left\<close> and \<open>std::setw(20)\<close>: blanks up to the width; what is longer is written whole.\<close>

definition pad :: "string \<Rightarrow> string" where
  "pad s = s @ replicate (20 - length s) (CHR '' '')"

definition help_head :: "string \<Rightarrow> string" where
  "help_head bin = pad ''Help:'' @ newline @ pad ''Usage: '' @ bin @ '' <options>'' @ newline @ pad ''Options:'' @ newline"

definition help_option :: "string \<Rightarrow> string \<Rightarrow> string" where
  "help_option opt what = pad opt @ pad what @ newline"

definition help_default :: "string \<Rightarrow> string \<Rightarrow> string \<Rightarrow> string" where
  "help_default opt what val = pad opt @ pad what @ val @ '').'' @ newline"

definition help_port :: string where
  "help_port = show_nat (unat DEFAULT_SERVER_PORT)"

definition wordcount_help :: "string \<Rightarrow> string" where
  "wordcount_help bin = help_head bin
     @ help_option ''--server:'' ''Run this node as the server.''
     @ help_option ''--reader:'' ''Run this node as the reader''
     @ help_option ''--counter:'' ''Run this node as the counter.''
     @ help_default ''--address, -ip:'' ''Set the address of this node (Default: '' DEFAULT_IP
     @ help_default ''--server_address, -sip:''
         ''Set the address of the server, will override --address if this node is the server. (Default: '' DEFAULT_IP
     @ help_default ''--port, -p:'' ''Set the port of the server (Default: '' help_port
     @ help_option ''--file, -f:'' ''Set the file to be read in.''"

definition linus_help :: "string \<Rightarrow> string" where
  "linus_help bin = help_head bin
     @ help_option ''--server:'' ''Run this node as the server.''
     @ help_option ''--commits:'' ''Run this node as the one reading in and working with the commits file''
     @ help_option ''--users:'' ''Run this node as the one reading in and working with the users file''
     @ help_option ''--projects:'' ''Run this node as the one reading in and working with the projects file''
     @ help_default ''--address, -ip:'' ''Set the address of this node (Default: '' DEFAULT_IP
     @ help_default ''--server_address, -sip:''
         ''Set the address of the server, will override --address if this node is the server. (Default: '' DEFAULT_IP
     @ help_default ''--port, -p:'' ''Set the port of the server (Default: '' help_port
     @ help_option ''--file, -f:'' ''Set the file to be read in.''"

definition demo_help :: "string \<Rightarrow> string" where
  "demo_help bin = help_head bin
     @ help_option ''--server:'' ''Run this node as the server.''
     @ help_option ''--producer:'' ''Run this node as the producer''
     @ help_option ''--counter:'' ''Run this node as the counter.''
     @ help_option ''--summarizer'' ''Run this node as the summarizer.''
     @ help_default ''--address, -ip:'' ''Set the address of this node (Default: '' DEFAULT_IP
     @ help_default ''--server, -sip:''
         ''Set the address of the server, will override --address if this node is the server. (Default: '' DEFAULT_IP
     @ help_default ''--port, -p:'' ''Set the port of the server (Default: '' help_port"

text \<open>
  The default port of the help is the one the demo starts from, not that of the two other programs; and the demo, which is
  told a port by \<open>--port\<close> or the server's address by \<open>-sip\<close>, takes the option for its own address.
\<close>

lemma digit_chars: "digit_char 0 = CHR ''0''" "digit_char (Suc 0) = CHR ''1''" "digit_char 8 = CHR ''8''"
  using char_of_char [of "CHR ''0''", where 'a = nat] char_of_char [of "CHR ''1''", where 'a = nat]
    char_of_char [of "CHR ''8''", where 'a = nat]
  by (simp_all add: digit_char_def)

lemma help_port_8001: "help_port = ''8001''"
  by (simp add: help_port_def DEFAULT_SERVER_PORT_def show_nat.simps digit_chars)

lemma help_default_port:
  "show_nat (unat (arg_port demo_args)) = help_port" "show_nat (unat (arg_port wordcount_args)) \<noteq> help_port"
  "show_nat (unat (arg_port linus_args)) \<noteq> help_port"
  by (simp_all add: demo_args_def wordcount_args_def linus_args_def DEFAULT_SERVER_PORT_def SERVER_PORT_def show_nat.simps
      digit_chars help_port_8001)

lemma demo_help_misleads:
  assumes "opt \<in> {''--port'', ''-p'', ''-sip'', ''--server_address''}"
  shows "demo_parse [opt, val] a = Inr (Some (a\<lparr>arg_ip := Some val\<rparr>))"
  using assms by (auto simp: demo_parse.simps next_arg_def)

end
