(* ===== verification/Spec2Isabelle.thy ===== *)
theory Spec2Isabelle
  imports FrameTypes ReceiveBuffer Broadcast Aliasing LinusSystem DemoSystem StoreRefinement Requests CleanUp Shutdown Console
begin

text \<open>
  EAU2 is a distributed system for data frames in C++: nodes hold frames under string keys, learn
  from each other which keys are where, fetch frames over TCP, and run data-parallel visitors on
  them. This library models its code under \<open>src/\<close> and \<open>include/\<close> and proves what makes it correct.

  \<^bold>\<open>Parts and their theories\<close>, in the order of dependency; each theory names the files it models.

  Prelude. \<open>EauPrelude\<close>: the widths of the machine's integers; the ways an operation can end early
  (an exception, an \<open>assert\<close> or \<open>exit_if_not\<close> that fails, undefined behaviour, a wait that never ends)
  as the left side of a result; loops that may fail; vectors and their bounds. \<open>Decimal\<close>:
  \<open>std::to_string\<close> and \<open>std::stoi\<close>.

  Data. \<open>Serializable\<close>: the wire format of values, strings and bit vectors. \<open>NullableArray\<close>, \<open>Column\<close>,
  \<open>Schema\<close>, \<open>Row\<close>, \<open>DataFrame\<close>: the table and its codec. \<open>Rower\<close>: \<open>map\<close>, \<open>pmap\<close> with clones of their own
  state, \<open>filter\<close>. \<open>SharedRower\<close>: \<open>pmap\<close> with clones that write into one shared object. \<open>FrameOps\<close>:
  filtering and printing. \<open>FrameTypes\<close>: the schema as the type of a frame. \<open>KVStore\<close>: keys, the local and the
  remote table, \<open>from_array\<close>, \<open>from_scalar\<close>. \<open>SorerAdapter\<close>: files parsed by the SOR parser, made into frames.

  Network. \<open>Packet\<close> and \<open>Connection\<close>: framing over a byte stream. \<open>ReceiveBuffer\<close>: the bounds of the buffer in
  between. \<open>SockAddr\<close>: addresses and the set-up of sockets. \<open>NetPort\<close>: the object that listens, and its
  connections. \<open>Server\<close>: the registry and the worker of one client. \<open>Broadcast\<close>: all workers of a server as a step
  relation. \<open>Client\<close>: the connection to the server, the connections to other clients, and requests for
  values. \<open>System\<close>: the one node of a process, and what server and clients do together. \<open>Cluster\<close>: the nodes of a
  running program, their stores and the steps of their network threads, and how \<open>main\<close> and \<open>_run\<close> get to a node.
  \<open>StoreRefinement\<close>: what all stores together are to a program, one map. \<open>Requests\<close>: the threads that wait for values and
  the thread of their connection, with their locks. \<open>CleanUp\<close>: the lock under which a server waits for the threads of
  its connections. \<open>Shutdown\<close>: the destructors of a node. \<open>Console\<close>: what \<open>Sys\<close> prints, and the help texts.

  Programs. \<open>Arguments\<close>: the command lines. \<open>WordCount\<close>, \<open>Demo\<close>, \<open>Linus\<close>: the computations of the three
  applications. \<open>Aliasing\<close>: the shared pointers of the rowers of \<open>Linus\<close> and their clones. \<open>WordCountSystem\<close>,
  \<open>DemoSystem\<close>, \<open>LinusSystem\<close>: each program as a whole, a step relation whose steps are those of its nodes, which wait
  for each other's frames, and of their network threads.

  \<^bold>\<open>How code and model correspond.\<close> A class is a record of its data members, a class hierarchy a
  datatype with one constructor per subclass, a member function a function named after class and
  method that takes the object and returns its new value. \<open>size_t\<close> is \<open>nat\<close> where it counts what is in
  memory, and a 64-bit word where the code computes with values from the wire, so that sums wrap
  around as they do in C++; \<open>double\<close> is its bit pattern. Every \<open>assert\<close>, exception, null pointer,
  empty optional and index out of range is a branch. A socket is the list of what its system calls
  will return, so the theorems hold for every such list. A mutex makes what it protects one step;
  where threads or nodes interleave, a relation ranges over the orders of the steps (\<open>SharedRower.interleave\<close>,
  \<open>Broadcast.bstep\<close>, \<open>Requests.request_step\<close>, \<open>CleanUp.clean_step\<close>, \<open>Cluster.net_step\<close> and the steps of the three programs). Where a
  thread waits while it holds a lock, in \<open>Requests\<close> and \<open>CleanUp\<close>, the locks are in the state. Where the aliasing of objects
  matters, they are addresses of a heap with use counts (\<open>Aliasing.heap\<close>); elsewhere what
  is shared is not changed, as frames in a store, and a pointer is the value. Loops over data are structural; a loop that waits for the network or the clock
  is a \<open>partial_function\<close>, whose value \<open>None\<close> means that it never ends, and what it returns when is
  proved with it (\<open>kv_get_or_wait_returns_iff\<close>). No fuel is used.

  \<^bold>\<open>Interfaces.\<close> \<open>codec\<close> and \<open>framed_codec\<close> (\<open>Serializable\<close>): an encoder and a decoder that reads what was
  written and stops where it ended; interpreted for every encoded type up to the frame.
  \<open>opt_vector\<close> (\<open>NullableArray\<close>): a vector of optional values. \<open>frame_store\<close> (\<open>KVStore\<close>): a map from
  names to frames. \<open>splittable_rower\<close> (\<open>Rower\<close>): what a rower must satisfy for \<open>pmap\<close>. \<open>clean_up\<close> (\<open>NetPort\<close>):
  what the hook for finished connections may change. \<open>cluster\<close> (\<open>Cluster\<close>): the roles of a program and which role stores
  which key; interpreted for the three programs, it gives that lookups return what the owner stored and that
  the owner's keys can be made known.

  \<^bold>\<open>What is shown.\<close> Data: the codec of frames round-trips and is memory safe on arbitrary bytes; frames are
  type safe; cells and rows are stored and read back; \<open>pmap\<close> is \<open>map\<close>; \<open>filter\<close> keeps the rows that are
  accepted, when the schema counts rows, and returns nothing when it does not, which is the case for every
  frame the interface builds; the store is a map. Network: packets survive any chunking and arrive in order; the
  receive buffer keeps its bounds; where the framing goes wrong (lengths that overflow, short reads) is
  characterised exactly; registration, announcement and connection compose; a request is answered with the stored
  frame; between the threads that ask and the thread that answers no request is lost and none goes to the wrong thread,
  and although they take their locks in opposite orders each request can be answered, but what is pending when the
  connection ends never is; a fair round of announcements reaches every client, an unfair one does not; a clean-up
  deadlocks with a connection that still wants the lock it holds, and does not otherwise; after a teardown the server's
  destructor fails; the stores of all nodes refine one shared map. Programs, from new nodes and for every schedule of nodes and threads: WordCount prints the counts of the words of its file, the demo can only
  confirm itself, Linus prints the users of every degree of separation, and each of them can always go on to its end;
  without its file name, its user, or a frame in time they fail in ways that are stated. Clones that write into
  a shared frame leave what one rower would.

  \<^bold>\<open>Not modelled.\<close> Progress messages on the terminal, among them those of failed system calls; the
  watchdogs, which the code has turned off; in \<open>Cluster\<close>, the use of an iterator after its erasure when a response
  arrives, which is under \<open>Client\<close> and \<open>Requests\<close>, and the failure of sockets; identity-based \<open>hash\<close> and \<open>equals\<close> of objects that cannot
  be copied, and \<open>clone\<close>, which is the copy of a value; the other locks, under which no thread of the process is waited for. The SOR parser is a git
  submodule and not part of the sources: it is a parameter (\<open>SorerAdapter.sor_parser\<close>). Arithmetic on
  \<open>double\<close> and \<open>std::hash\<close> of the standard types are parameters too.
\<close>

section \<open>Properties that span components\<close>

text \<open>
  C1: \<open>pmap\<close> is \<open>map\<close>: for a rower that meets the contract of splitting, on a rectangular frame of
  any size, splitting the rows over up to eight threads and joining the clones gives the same result
  as one pass over the rows in order.
\<close>

theorem pmap_is_map:
  assumes "splittable_rower r ok_row step fresh merge" and "df_rect df" and "list_all ok_row (df_rows df)"
  shows "df_pmap df r s = df_map df r s \<and> df_map df r s = Inr (fold step (df_rows df) s)"
  using splittable_rower.pmap_fold [OF assms] splittable_rower.map_fold [OF assms] by simp

theorem pmap_is_map_witness:
  "\<exists>df. 2 * THREAD_ROWS \<le> df_nrows df \<and> df_pmap df counter_rower Map.empty = df_map df counter_rower Map.empty"
proof -
  let ?vs = "replicate 10000 (Some ''word'')"
  let ?col = "StringColumn (fold na_push_back ?vs na_empty)"
  let ?df = "df_add_column ?col None df_empty"
  have col: "col_wf ?col" "col_view ?col = map StringCell ?vs"
    using na.built_by_push [of ?vs] by simp_all
  then have "length (df_rows ?df) = 10000" using one_column_rows(2) [OF col(1)] by simp
  then have "2 * THREAD_ROWS \<le> df_nrows ?df" by (simp add: THREAD_ROWS_def)
  moreover have "df_pmap ?df counter_rower Map.empty = df_map ?df counter_rower Map.empty"
    using pmap_is_map [OF counter.splittable_rower_axioms one_column_rows(1) [OF col(1)], of Map.empty]
    by (simp add: list.pred_True)
  ultimately show ?thesis by blast
qed

end
